(* ===== verification/Prelude.thy ===== *)
theory Prelude
  imports Main "HOL-Library.Word" "HOL-Library.Sublist" "HOL-Library.List_Lexorder"
begin

text \<open>
  Shared vocabulary of the development: Go byte slices, Go errors and run-time panics, the two
  result types the operations use (a pure result, and a state transformer whose state survives an
  error, as a Go object keeps the mutations made before an early return), Go slice expressions,
  and the generic list lemmas used by several components.
\<close>

section \<open>Types\<close>

type_synonym byte = "8 word"
type_synonym bytes = "byte list"

text \<open>
  Every error value the repository can return, plus \<open>StoreError\<close> for an error of a user-supplied
  MapStore and \<open>Panic\<close> for a run-time panic (index or slice bounds out of range, explicit panic).
\<close>

datatype go_error =
    InvalidKeyError bytes
  | ErrKeyAlreadyEmpty
  | ErrBadProof
  | ErrBulkInputMismatch
  | ErrInvalidShardCount
  | StoreError string
  | Panic string

type_synonym 'a result = "go_error + 'a"
type_synonym ('s, 'a) op = "'s \<Rightarrow> 'a result \<times> 's"

fun is_panic :: "go_error \<Rightarrow> bool" where
  "is_panic (Panic _) = True"
| "is_panic _ = False"

section \<open>Sequencing\<close>

definition bindR :: "'a result \<Rightarrow> ('a \<Rightarrow> 'b result) \<Rightarrow> 'b result" where
  "bindR r f = (case r of Inl e \<Rightarrow> Inl e | Inr x \<Rightarrow> f x)"

definition bindS :: "('s, 'a) op \<Rightarrow> ('a \<Rightarrow> ('s, 'b) op) \<Rightarrow> ('s, 'b) op" where
  "bindS m f = (\<lambda>s. case m s of (Inl e, s') \<Rightarrow> (Inl e, s') | (Inr x, s') \<Rightarrow> f x s')"

definition returnS :: "'a \<Rightarrow> ('s, 'a) op" where
  "returnS x = (\<lambda>s. (Inr x, s))"

definition throwS :: "go_error \<Rightarrow> ('s, 'a) op" where
  "throwS e = (\<lambda>s. (Inl e, s))"

definition liftS :: "'a result \<Rightarrow> ('s, 'a) op" where
  "liftS r = (\<lambda>s. (r, s))"

definition readS :: "('s \<Rightarrow> 'a result) \<Rightarrow> ('s, 'a) op" where
  "readS f = (\<lambda>s. (f s, s))"

section \<open>Go slice expressions\<close>

definition index_panic :: go_error where
  "index_panic = Panic ''index out of range''"

definition slice_panic :: go_error where
  "slice_panic = Panic ''slice bounds out of range''"

text \<open>\<open>go_index xs i\<close> is \<open>xs[i]\<close>; \<open>go_slice lo hi xs\<close> is \<open>xs[lo:hi]\<close> on a slice whose capacity
  is its length.\<close>

definition go_index :: "'a list \<Rightarrow> nat \<Rightarrow> 'a result" where
  "go_index xs i = (if i < length xs then Inr (xs ! i) else Inl index_panic)"

definition go_slice :: "nat \<Rightarrow> nat \<Rightarrow> 'a list \<Rightarrow> 'a list result" where
  "go_slice lo hi xs =
     (if lo \<le> hi \<and> hi \<le> length xs then Inr (take (hi - lo) (drop lo xs)) else Inl slice_panic)"

section \<open>Shared simplification rules\<close>

named_theorems mon_simps \<open>evaluation of the sequencing operators\<close>

lemma bindR_simps [simp, mon_simps]:
  "bindR (Inl e) f = Inl e" "bindR (Inr x) f = f x"
  by (simp_all add: bindR_def)

lemma bindS_apply [mon_simps]:
  "bindS m f s = (case m s of (Inl e, s') \<Rightarrow> (Inl e, s') | (Inr x, s') \<Rightarrow> f x s')"
  by (simp add: bindS_def)

lemma returnS_apply [simp, mon_simps]: "returnS x s = (Inr x, s)"
  by (simp add: returnS_def)

lemma throwS_apply [simp, mon_simps]: "throwS e s = (Inl e, s)"
  by (simp add: throwS_def)

lemma liftS_apply [simp, mon_simps]: "liftS r s = (r, s)"
  by (simp add: liftS_def)

lemma readS_apply [simp, mon_simps]: "readS f s = (f s, s)"
  by (simp add: readS_def)

lemma bindS_ok [simp, mon_simps]: "m s = (Inr x, s') \<Longrightarrow> bindS m f s = f x s'"
  by (simp add: bindS_def)

lemma bindS_err [simp, mon_simps]: "m s = (Inl e, s') \<Longrightarrow> bindS m f s = (Inl e, s')"
  by (simp add: bindS_def)

lemma bindR_cong [fundef_cong]:
  "r = r' \<Longrightarrow> (\<And>x. r' = Inr x \<Longrightarrow> f x = f' x) \<Longrightarrow> bindR r f = bindR r' f'"
  by (cases r') auto

lemma bindS_cong [fundef_cong]:
  assumes "s = s'" and "m s' = m' s'"
    and "\<And>x t. m' s' = (Inr x, t) \<Longrightarrow> f x t = f' x t"
  shows "bindS m f s = bindS m' f' s'"
  using assms by (auto simp: bindS_def split: prod.splits sum.splits)

lemma case_prod_app_cong [fundef_cong]:
  "p = q \<Longrightarrow> s = s' \<Longrightarrow> (\<And>a b. q = (a, b) \<Longrightarrow> f a b s' = g a b s') \<Longrightarrow>
   (case p of (a, b) \<Rightarrow> f a b) s = (case q of (a, b) \<Rightarrow> g a b) s'"
  by (cases q) auto

lemma if_app_cong [fundef_cong]:
  "b = c \<Longrightarrow> s = s' \<Longrightarrow> (c \<Longrightarrow> x s' = u s') \<Longrightarrow> (\<not> c \<Longrightarrow> y s' = v s') \<Longrightarrow>
   (if b then x else y) s = (if c then u else v) s'"
  by auto

lemma bindR_Inr_iff: "bindR r f = Inr y \<longleftrightarrow> (\<exists>x. r = Inr x \<and> f x = Inr y)"
  by (cases r) auto

lemma bindS_cases:
  assumes "bindS m f s = (r, s')"
  obtains (err) e where "m s = (Inl e, s')" "r = Inl e"
    | (ok) x t where "m s = (Inr x, t)" "f x t = (r, s')"
  using assms by (auto simp: bindS_def split: prod.splits sum.splits)

lemma go_index_ok [simp]: "i < length xs \<Longrightarrow> go_index xs i = Inr (xs ! i)"
  by (simp add: go_index_def)

lemma go_slice_ok [simp]:
  "lo \<le> hi \<Longrightarrow> hi \<le> length xs \<Longrightarrow> go_slice lo hi xs = Inr (take (hi - lo) (drop lo xs))"
  by (simp add: go_slice_def)

section \<open>Generic list lemmas\<close>

lemma snoc_nth_take: "i < length xs \<Longrightarrow> take (Suc i) xs = take i xs @ [xs ! i]"
  by (rule take_Suc_conv_app_nth)

lemma rev_take_drop: "rev xs ! i = xs ! (length xs - 1 - i)" if "i < length xs"
  using that by (simp add: rev_nth)

lemma take_eq_prefix: "prefix p xs \<longleftrightarrow> take (length p) xs = p"
  by (metis prefix_def append_eq_conv_conj append_take_drop_id)

lemma length_concat_const:
  "(\<And>x. x \<in> set xs \<Longrightarrow> length (f x) = c) \<Longrightarrow> length (concat (map f xs)) = c * length xs"
  by (induction xs) auto

end
