(* ===== verification/Utils.thy ===== *)
theory Utils
  imports Prelude
begin

unbundle bit_operations_syntax

text \<open>
  Model of \<open>src/utils.go\<close>: reading, setting and counting bits from the most significant end of a
  byte slice, the length of the common bit prefix of two paths, and the in-place reversal of a
  slice of slices. Every index expression of the source is checked, so an access out of range is
  the panic it is in Go. The lemmas relate the bit arithmetic to \<open>bits\<close>, the bit string of a byte
  slice, which is what the tree model works on.
\<close>

section \<open>Operations\<close>

definition getBitAtFromMSB :: "bytes \<Rightarrow> nat \<Rightarrow> nat result" where
  "getBitAtFromMSB data position =
     bindR (go_index data (position div 8)) (\<lambda>b.
       Inr (if uint b AND push_bit (8 - 1 - position mod 8) 1 > 0 then 1 else 0))"

definition setBitAtFromMSB :: "bytes \<Rightarrow> nat \<Rightarrow> bytes result" where
  "setBitAtFromMSB data position =
     bindR (go_index data (position div 8)) (\<lambda>b.
       let n = uint b OR push_bit (8 - 1 - position mod 8) 1
       in Inr (data[position div 8 := word_of_int n]))"

text \<open>The loop \<open>for i := 0; i < len(data)*8; i++\<close> of \<open>countSetBits\<close>, over the remaining indices.\<close>

fun countSetBits_loop :: "bytes \<Rightarrow> nat list \<Rightarrow> nat \<Rightarrow> nat result" where
  "countSetBits_loop data [] count = Inr count"
| "countSetBits_loop data (i # is) count =
     bindR (getBitAtFromMSB data i) (\<lambda>b.
       countSetBits_loop data is (if b = 1 then count + 1 else count))"

definition countSetBits :: "bytes \<Rightarrow> nat result" where
  "countSetBits data = countSetBits_loop data [0..<length data * 8] 0"

fun countCommonPrefix_loop :: "bytes \<Rightarrow> bytes \<Rightarrow> nat list \<Rightarrow> nat \<Rightarrow> nat result" where
  "countCommonPrefix_loop data1 data2 [] count = Inr count"
| "countCommonPrefix_loop data1 data2 (i # is) count =
     bindR (getBitAtFromMSB data1 i) (\<lambda>b1.
     bindR (getBitAtFromMSB data2 i) (\<lambda>b2.
       if b1 = b2 then countCommonPrefix_loop data1 data2 is (count + 1) else Inr count))"

definition countCommonPrefix :: "bytes \<Rightarrow> bytes \<Rightarrow> nat result" where
  "countCommonPrefix data1 data2 = countCommonPrefix_loop data1 data2 [0..<length data1 * 8] 0"

definition emptyBytes :: "nat \<Rightarrow> bytes" where
  "emptyBytes n = replicate n 0"

text \<open>
  The two-index swap loop \<open>for left, right := 0, len(slices)-1; left < right; ...\<close>. The indices
  are Go ints: \<open>right\<close> starts at \<open>-1\<close> for an empty slice.
\<close>

function reverse_loop :: "'a list \<Rightarrow> int \<Rightarrow> int \<Rightarrow> 'a list" where
  "reverse_loop xs left right =
     (if left < right
      then reverse_loop (xs[nat left := xs ! nat right, nat right := xs ! nat left])
             (left + 1) (right - 1)
      else xs)"
  by pat_completeness auto
termination
  by (relation "measure (\<lambda>(xs, l, r). nat (r - l))") auto

declare reverse_loop.simps [simp del]

definition reverseByteSlicesInPlace :: "'a list \<Rightarrow> 'a list" where
  "reverseByteSlicesInPlace slices = reverse_loop slices 0 (int (length slices) - 1)"

definition reverseByteSlices :: "'a list \<Rightarrow> 'a list" where
  "reverseByteSlices slices = reverseByteSlicesInPlace slices"

section \<open>The bit string of a byte slice\<close>

definition bit_at :: "bytes \<Rightarrow> nat \<Rightarrow> bool" where
  "bit_at data i = bit (data ! (i div 8)) (7 - i mod 8)"

definition bits :: "bytes \<Rightarrow> bool list" where
  "bits data = map (bit_at data) [0..<8 * length data]"

lemma length_bits [simp]: "length (bits data) = 8 * length data"
  by (simp add: bits_def)

lemma nth_bits [simp]: "i < 8 * length data \<Longrightarrow> bits data ! i = bit_at data i"
  by (simp add: bits_def)

lemma bit_byte_lt: "bit (b :: byte) k \<Longrightarrow> k < 8"
  using bit_imp_le_length [of b k] by simp

lemma and_exp_pos: "uint (b :: byte) AND 2 ^ k > 0 \<longleftrightarrow> bit b k"
proof -
  have "uint b AND push_bit k 1 \<noteq> 0 \<longleftrightarrow> bit (uint b) k"
    by (simp only: bit_iff_and_push_bit_not_eq_0)
  then have "uint b AND 2 ^ k \<noteq> 0 \<longleftrightarrow> bit b k"
    using bit_byte_lt by (auto simp: bit_uint_iff)
  moreover have "uint b AND 2 ^ k \<ge> 0"
    by simp
  ultimately show ?thesis
    by linarith
qed

lemma div8_less: "i < 8 * length data \<Longrightarrow> i div 8 < length data"
  by (simp add: less_mult_imp_div_less mult.commute)

lemma getBitAtFromMSB_bit:
  "i < 8 * length data \<Longrightarrow> getBitAtFromMSB data i = Inr (of_bool (bit_at data i))"
  by (simp add: getBitAtFromMSB_def bit_at_def and_exp_pos div8_less)

lemma getBitAtFromMSB_panic:
  "8 * length data \<le> i \<Longrightarrow> getBitAtFromMSB data i = Inl index_panic"
  by (simp add: getBitAtFromMSB_def go_index_def)

lemma getBitAtFromMSB_bits:
  "i < 8 * length data \<Longrightarrow> getBitAtFromMSB data i = Inr (of_bool (bits data ! i))"
  by (simp add: getBitAtFromMSB_bit)

lemma bits_inject: "bits a = bits b \<longleftrightarrow> a = b"
proof
  assume eq: "bits a = bits b"
  then have len: "length a = length b"
    using length_bits by (metis mult_cancel1 zero_neq_numeral)
  show "a = b"
  proof (rule nth_equalityI [OF len])
    fix i assume i: "i < length a"
    show "a ! i = b ! i"
    proof (rule bit_word_eqI)
      fix n assume "n < LENGTH(8)"
      then have n: "n < 8" by simp
      define r where "r = 7 - n"
      have r: "r < 8" "7 - r = n" using n by (simp_all add: r_def)
      define j where "j = r + 8 * i"
      have m: "j mod 8 = r" "j div 8 = i"
        using r by (simp_all add: j_def)
      have j: "j < 8 * length a" "j < 8 * length b" "7 - j mod 8 = n"
        using i r len m by (auto simp: j_def)
      have "bit_at a j = bit_at b j"
        using eq j by (metis nth_bits)
      then show "bit (a ! i) n = bit (b ! i) n"
        using j m by (simp add: bit_at_def)
    qed
  qed
qed simp

section \<open>Setting and counting bits\<close>

lemma length_setBitAtFromMSB:
  "setBitAtFromMSB data i = Inr data' \<Longrightarrow> length data' = length data"
  by (auto simp: setBitAtFromMSB_def bindR_Inr_iff Let_def)

lemma setBitAtFromMSB_ok:
  assumes "i < 8 * length data"
  obtains data' where "setBitAtFromMSB data i = Inr data'" "length data' = length data"
    "\<And>j. j < 8 * length data \<Longrightarrow> bit_at data' j = (j = i \<or> bit_at data j)"
proof -
  have lt: "i div 8 < length data" using assms by (rule div8_less)
  define data' where "data' = data[i div 8 :=
     word_of_int (uint (data ! (i div 8)) OR push_bit (7 - i mod 8) 1)]"
  have ok: "setBitAtFromMSB data i = Inr data'"
    using lt by (simp add: setBitAtFromMSB_def data'_def Let_def)
  have bits: "bit_at data' j = (j = i \<or> bit_at data j)" if j: "j < 8 * length data" for j
  proof (cases "j div 8 = i div 8")
    case True
    have "bit (word_of_int (uint (data ! (i div 8)) OR push_bit (7 - i mod 8) 1) :: byte)
       (7 - j mod 8) = (7 - j mod 8 = 7 - i mod 8 \<or> bit (data ! (i div 8)) (7 - j mod 8))"
      by (auto simp: bit_word_of_int_iff bit_or_iff bit_exp_iff bit_uint_iff
          dest: bit_byte_lt)
    moreover have "(7 - j mod 8 = 7 - i mod 8) = (j = i)"
    proof -
      have "j mod 8 \<le> 7" "i mod 8 \<le> 7" by (simp_all add: less_Suc_eq_le [symmetric])
      then have "(7 - j mod 8 = 7 - i mod 8) = (j mod 8 = i mod 8)" by linarith
      also have "\<dots> = (j = i)" using True by (metis div_mod_decomp)
      finally show ?thesis .
    qed
    ultimately show ?thesis
      using True lt by (simp add: bit_at_def data'_def)
  next
    case False
    then show ?thesis by (auto simp: bit_at_def data'_def)
  qed
  show thesis
    by (rule that [OF ok _ bits]) (simp_all add: data'_def)
qed

lemma countSetBits_loop_eq:
  "(\<And>i. i \<in> set is \<Longrightarrow> i < 8 * length data) \<Longrightarrow>
   countSetBits_loop data is c = Inr (c + length (filter (bit_at data) is))"
  by (induction "is" arbitrary: c) (auto simp: getBitAtFromMSB_bit)

lemma countSetBits_eq:
  "countSetBits data = Inr (length (filter (bit_at data) [0..<8 * length data]))"
  using countSetBits_loop_eq [of "[0..<8 * length data]" data 0]
  by (simp add: countSetBits_def mult.commute)

lemma countSetBits_bits: "countSetBits data = Inr (length (filter id (bits data)))"
  by (simp add: countSetBits_eq bits_def filter_map comp_def)

section \<open>Common prefixes\<close>

fun lcp_len :: "'a list \<Rightarrow> 'a list \<Rightarrow> nat" where
  "lcp_len (x # xs) (y # ys) = (if x = y then Suc (lcp_len xs ys) else 0)"
| "lcp_len _ _ = 0"

lemma lcp_len_le: "lcp_len xs ys \<le> length xs" "lcp_len xs ys \<le> length ys"
  by (induction xs ys rule: lcp_len.induct) auto

lemma lcp_len_same [simp]: "lcp_len xs xs = length xs"
  by (induction xs) auto

lemma lcp_len_full:
  "length xs = length ys \<Longrightarrow> lcp_len xs ys = length xs \<longleftrightarrow> xs = ys"
proof (induction xs ys rule: lcp_len.induct)
  case (1 x xs y ys)
  then show ?case by auto
qed auto

lemma lcp_len_lt_neq:
  "length xs = length ys \<Longrightarrow> xs \<noteq> ys \<Longrightarrow> lcp_len xs ys < length xs"
  using lcp_len_full lcp_len_le(1) le_neq_implies_less by blast

lemma lcp_len_append: "lcp_len (p @ xs) (p @ ys) = length p + lcp_len xs ys"
  by (induction p) auto

lemma countCommonPrefix_loop_eq:
  assumes "length a = length b" and "i \<le> 8 * length a"
  shows "countCommonPrefix_loop a b [i..<8 * length a] c =
    Inr (c + lcp_len (drop i (bits a)) (drop i (bits b)))"
  using assms(2)
proof (induction "8 * length a - i" arbitrary: i c)
  case 0
  then have "i = 8 * length a" by simp
  then show ?case by simp
next
  case (Suc n)
  then have i: "i < 8 * length a" by simp
  then have upt: "[i..<8 * length a] = i # [Suc i..<8 * length a]"
    by (simp add: upt_conv_Cons)
  have da: "drop i (bits a) = bit_at a i # drop (Suc i) (bits a)"
    and db: "drop i (bits b) = bit_at b i # drop (Suc i) (bits b)"
    using i assms(1) by (simp_all flip: Cons_nth_drop_Suc)
  show ?case
    unfolding upt da db
    using Suc i assms(1) by (simp add: getBitAtFromMSB_bit del: upt_Suc)
qed

lemma countCommonPrefix_eq:
  "length a = length b \<Longrightarrow> countCommonPrefix a b = Inr (lcp_len (bits a) (bits b))"
  using countCommonPrefix_loop_eq [of a b 0 0]
  by (simp add: countCommonPrefix_def mult.commute)

section \<open>Reversal in place\<close>

lemma reverse_loop_rev:
  "reverse_loop (ps @ xs @ ss) (int (length ps)) (int (length ps) + int (length xs) - 1)
     = ps @ rev xs @ ss"
proof (induction xs arbitrary: ps ss rule: length_induct)
  case (1 xs)
  show ?case
  proof (cases "length xs < 2")
    case True
    then have "rev xs = xs"
      by (cases xs) (auto simp: less_Suc_eq numeral_2_eq_2)
    then show ?thesis
      using True by (subst reverse_loop.simps) auto
  next
    case False
    then obtain x ys z where xs: "xs = x # ys @ [z]"
      by (metis One_nat_def Suc_1 append_butlast_last_id length_Cons lessI
          less_Suc_eq less_numeral_extra(1) list.exhaust list.size(3))
    let ?l = "length ps" and ?r = "length ps + length ys + 1"
    have step: "(ps @ xs @ ss)[?l := z, ?r := x] = (ps @ [z]) @ ys @ (x # ss)"
      by (simp add: xs list_update_append)
    have l: "(ps @ xs @ ss) ! ?l = x"
      by (simp add: xs nth_append)
    have r: "(ps @ xs @ ss) ! ?r = z"
      by (simp add: xs nth_append)
    have r': "nat (int ?l + int (length xs) - 1) = ?r"
      by (simp add: xs)
    have "reverse_loop (ps @ xs @ ss) (int ?l) (int ?l + int (length xs) - 1)
        = reverse_loop ((ps @ [z]) @ ys @ (x # ss)) (int ?l + 1) (int ?l + int (length xs) - 1 - 1)"
      using step l r r' by (subst reverse_loop.simps) (simp add: xs)
    also have "\<dots> = (ps @ [z]) @ rev ys @ (x # ss)"
      using "1" [rule_format, of ys "ps @ [z]" "x # ss"] by (simp add: xs algebra_simps)
    finally show ?thesis by (simp add: xs)
  qed
qed

lemma reverseByteSlicesInPlace_rev: "reverseByteSlicesInPlace xs = rev xs"
  using reverse_loop_rev [of "[]" xs "[]"] by (simp add: reverseByteSlicesInPlace_def)

lemma length_emptyBytes [simp]: "length (emptyBytes n) = n"
  by (simp add: emptyBytes_def)

lemma bit_at_emptyBytes [simp]: "i < 8 * n \<Longrightarrow> \<not> bit_at (emptyBytes n) i"
  by (simp add: bit_at_def emptyBytes_def less_mult_imp_div_less mult.commute)

end
