(* ===== verification/TreeHasher.thy ===== *)
theory TreeHasher
  imports Utils
begin

text \<open>
  Model of \<open>src/treehasher.go\<close>. The Go type \<open>hash.Hash\<close> is an interface whose implementation the
  caller supplies: here it is a record of the digest function, the digest size, and the bytes
  written since the last \<open>Reset\<close>, with \<open>Write\<close>, \<open>Sum\<close> and \<open>Reset\<close> as documented by the Go
  standard library. The digest function is a parameter of every theorem; \<open>wf_th\<close> collects what
  the code relies on (digests have the announced size, the hasher is reset, the zero value is
  the placeholder).
\<close>

section \<open>hash.Hash\<close>

record hash_Hash =
  hash_alg :: "bytes \<Rightarrow> bytes"
  hash_Size :: nat
  hash_buf :: bytes

definition hash_Write :: "hash_Hash \<Rightarrow> bytes \<Rightarrow> hash_Hash" where
  "hash_Write h p = h\<lparr>hash_buf := hash_buf h @ p\<rparr>"

definition hash_Sum :: "hash_Hash \<Rightarrow> bytes \<Rightarrow> bytes" where
  "hash_Sum h b = b @ hash_alg h (hash_buf h)"

definition hash_Reset :: "hash_Hash \<Rightarrow> hash_Hash" where
  "hash_Reset h = h\<lparr>hash_buf := []\<rparr>"

section \<open>treeHasher\<close>

definition leafPrefix :: bytes where "leafPrefix = [0]"
definition nodePrefix :: bytes where "nodePrefix = [1]"

record treeHasher =
  hasher :: hash_Hash
  zeroValue :: bytes

definition pathSize :: "treeHasher \<Rightarrow> nat" where
  "pathSize th = hash_Size (hasher th)"

definition placeholder :: "treeHasher \<Rightarrow> bytes" where
  "placeholder th = zeroValue th"

definition newTreeHasher :: "hash_Hash \<Rightarrow> treeHasher" where
  "newTreeHasher h =
     (let th = \<lparr>hasher = h, zeroValue = []\<rparr>
      in th\<lparr>zeroValue := replicate (pathSize th) 0\<rparr>)"

text \<open>
  A digest is Write, Sum, Reset. The functions with suffix \<open>_st\<close> return the hasher after the call
  as well; \<open>digest_st_state\<close> below shows that it is the hasher before the call, so the remaining
  definitions use the digest alone.
\<close>

definition digest_st :: "treeHasher \<Rightarrow> bytes \<Rightarrow> bytes \<times> treeHasher" where
  "digest_st th data =
     (let h = hash_Write (hasher th) data;
          sum = hash_Sum h []
      in (sum, th\<lparr>hasher := hash_Reset h\<rparr>))"

definition digest :: "treeHasher \<Rightarrow> bytes \<Rightarrow> bytes" where
  "digest th data = fst (digest_st th data)"

text \<open>\<open>digestInto dst data\<close> sums into \<open>dst[:0]\<close>, so only the capacity of \<open>dst\<close> is used.\<close>

definition digestInto :: "treeHasher \<Rightarrow> bytes \<Rightarrow> bytes \<Rightarrow> bytes" where
  "digestInto th dst data = hash_Sum (hash_Write (hasher th) data) (take 0 dst)"

definition th_path :: "treeHasher \<Rightarrow> bytes \<Rightarrow> bytes" where
  "th_path th key = digest th key"

definition pathInto :: "treeHasher \<Rightarrow> bytes \<Rightarrow> bytes \<Rightarrow> bytes" where
  "pathInto th dst key = digestInto th dst key"

definition digestLeaf :: "treeHasher \<Rightarrow> bytes \<Rightarrow> bytes \<Rightarrow> bytes \<times> bytes" where
  "digestLeaf th path leafData =
     (let value = leafPrefix @ path @ leafData
      in (hash_Sum (hash_Write (hasher th) value) [], value))"

definition digestLeafInto :: "treeHasher \<Rightarrow> bytes \<Rightarrow> bytes \<Rightarrow> bytes \<Rightarrow> bytes \<times> bytes" where
  "digestLeafInto th hashDst path leafData =
     (let value = leafPrefix @ path @ leafData
      in (hash_Sum (hash_Write (hasher th) value) (take 0 hashDst), value))"

definition parseLeaf :: "treeHasher \<Rightarrow> bytes \<Rightarrow> (bytes \<times> bytes) result" where
  "parseLeaf th data =
     bindR (go_slice (length leafPrefix) (pathSize th + length leafPrefix) data) (\<lambda>p.
     bindR (go_slice (length leafPrefix + pathSize th) (length data) data) (\<lambda>v.
       Inr (p, v)))"

definition isLeaf :: "treeHasher \<Rightarrow> bytes \<Rightarrow> bool result" where
  "isLeaf th data =
     bindR (go_slice 0 (length leafPrefix) data) (\<lambda>p. Inr (p = leafPrefix))"

definition digestNode :: "treeHasher \<Rightarrow> bytes \<Rightarrow> bytes \<Rightarrow> bytes \<times> bytes" where
  "digestNode th leftData rightData =
     (let value = nodePrefix @ leftData @ rightData
      in (hash_Sum (hash_Write (hasher th) value) [], value))"

definition digestNodeInto :: "treeHasher \<Rightarrow> bytes \<Rightarrow> bytes \<Rightarrow> bytes \<Rightarrow> bytes \<times> bytes" where
  "digestNodeInto th hashDst leftData rightData =
     (let value = nodePrefix @ leftData @ rightData
      in (hash_Sum (hash_Write (hasher th) value) (take 0 hashDst), value))"

definition parseNode :: "treeHasher \<Rightarrow> bytes \<Rightarrow> (bytes \<times> bytes) result" where
  "parseNode th data =
     bindR (go_slice (length nodePrefix) (pathSize th + length nodePrefix) data) (\<lambda>l.
     bindR (go_slice (length nodePrefix + pathSize th) (length data) data) (\<lambda>r.
       Inr (l, r)))"

section \<open>Well-formed hashers\<close>

definition wf_hash :: "hash_Hash \<Rightarrow> bool" where
  "wf_hash h \<longleftrightarrow> hash_buf h = [] \<and> 0 < hash_Size h \<and> (\<forall>d. length (hash_alg h d) = hash_Size h)"

definition wf_th :: "treeHasher \<Rightarrow> bool" where
  "wf_th th \<longleftrightarrow> wf_hash (hasher th) \<and> zeroValue th = replicate (pathSize th) 0"

text \<open>\<open>H th\<close> is the digest function itself; leaf and node preimages get short names.\<close>

definition H :: "treeHasher \<Rightarrow> bytes \<Rightarrow> bytes" where
  "H th d = hash_alg (hasher th) d"

definition leaf_data :: "treeHasher \<Rightarrow> bytes \<Rightarrow> bytes \<Rightarrow> bytes" where
  "leaf_data th p v = leafPrefix @ p @ H th v"

definition node_data :: "bytes \<Rightarrow> bytes \<Rightarrow> bytes" where
  "node_data l r = nodePrefix @ l @ r"

lemma wf_th_newTreeHasher [simp]: "wf_hash h \<Longrightarrow> wf_th (newTreeHasher h)"
  by (simp add: wf_th_def newTreeHasher_def Let_def pathSize_def)

lemma length_H [simp]: "wf_th th \<Longrightarrow> length (H th d) = pathSize th"
  by (simp add: wf_th_def wf_hash_def H_def pathSize_def)

lemma pathSize_pos: "wf_th th \<Longrightarrow> 0 < pathSize th"
  by (simp add: wf_th_def wf_hash_def pathSize_def)

lemma length_placeholder [simp]: "wf_th th \<Longrightarrow> length (placeholder th) = pathSize th"
  by (simp add: wf_th_def placeholder_def)

lemma prefix_lengths [simp]: "length leafPrefix = 1" "length nodePrefix = 1"
  by (simp_all add: leafPrefix_def nodePrefix_def)

text \<open>Every digest leaves the hasher as it found it, and equals the digest function.\<close>

lemma digest_st_state: "wf_th th \<Longrightarrow> snd (digest_st th d) = th"
  by (simp add: digest_st_def wf_th_def wf_hash_def hash_Write_def hash_Reset_def Let_def)

lemma digest_simps [simp]:
  assumes "wf_th th"
  shows "digest th d = H th d"
    "digestInto th dst d = H th d"
    "th_path th d = H th d"
    "pathInto th dst d = H th d"
    "digestLeaf th p v = (H th (leafPrefix @ p @ v), leafPrefix @ p @ v)"
    "digestLeafInto th dst p v = (H th (leafPrefix @ p @ v), leafPrefix @ p @ v)"
    "digestNode th l r = (H th (node_data l r), node_data l r)"
    "digestNodeInto th dst l r = (H th (node_data l r), node_data l r)"
  using assms
  by (simp_all add: digest_def digest_st_def digestInto_def th_path_def pathInto_def digestLeaf_def
      digestLeafInto_def digestNode_def digestNodeInto_def hash_Write_def hash_Sum_def Let_def
      wf_th_def wf_hash_def H_def node_data_def)

section \<open>Round trips\<close>

lemma isLeaf_leaf [simp]: "isLeaf th (leafPrefix @ d) = Inr True"
  by (simp add: isLeaf_def leafPrefix_def)

lemma isLeaf_node [simp]: "isLeaf th (nodePrefix @ d) = Inr False"
  by (simp add: isLeaf_def leafPrefix_def nodePrefix_def)

lemma parseLeaf_leaf [simp]:
  "length p = pathSize th \<Longrightarrow> parseLeaf th (leafPrefix @ p @ v) = Inr (p, v)"
  by (simp add: parseLeaf_def leafPrefix_def)

lemma parseNode_node [simp]:
  "length l = pathSize th \<Longrightarrow> parseNode th (nodePrefix @ l @ r) = Inr (l, r)"
  by (simp add: parseNode_def nodePrefix_def)

lemma node_data_parse [simp]:
  "length l = pathSize th \<Longrightarrow> parseNode th (node_data l r) = Inr (l, r)"
  "isLeaf th (node_data l r) = Inr False"
  by (simp_all add: node_data_def)

lemma leaf_data_parse [simp]:
  "length p = pathSize th \<Longrightarrow> parseLeaf th (leaf_data th p v) = Inr (p, H th v)"
  "isLeaf th (leaf_data th p v) = Inr True"
  by (simp_all add: leaf_data_def)

lemma node_data_inject:
  "length l = length l' \<Longrightarrow> node_data l r = node_data l' r' \<longleftrightarrow> l = l' \<and> r = r'"
  by (simp add: node_data_def)

lemma leaf_data_inject:
  "length p = length p' \<Longrightarrow>
   leaf_data th p v = leaf_data th p' v' \<longleftrightarrow> p = p' \<and> H th v = H th v'"
  by (simp add: leaf_data_def)

lemma leaf_node_neq [simp]:
  "leafPrefix @ x \<noteq> node_data l r" "node_data l r \<noteq> leafPrefix @ x"
  "leaf_data th p v \<noteq> node_data l r" "node_data l r \<noteq> leaf_data th p v"
  by (simp_all add: node_data_def leaf_data_def leafPrefix_def nodePrefix_def)

lemma parseLeaf_panic:
  "length data < 1 + pathSize th \<Longrightarrow> parseLeaf th data = Inl slice_panic"
  by (simp add: parseLeaf_def go_slice_def)

lemma parseLeaf_length:
  "parseLeaf th data = Inr (p, v) \<Longrightarrow>
   length p = pathSize th \<and> length v = length data - 1 - pathSize th \<and> 1 + pathSize th \<le> length data"
  by (auto simp: parseLeaf_def bindR_Inr_iff go_slice_def split: if_splits)

section \<open>Collision freedom on the data in use\<close>

text \<open>
  No digest function of fixed size is injective, so the theorems never assume that it is. They
  assume that it does not collide, and does not hit the placeholder, on the finite set of byte
  strings that occur in the trees at hand.
\<close>

definition collision_free :: "treeHasher \<Rightarrow> bytes set \<Rightarrow> bool" where
  "collision_free th S \<longleftrightarrow> inj_on (H th) S \<and> placeholder th \<notin> H th ` S"

lemma collision_free_subset: "collision_free th S \<Longrightarrow> T \<subseteq> S \<Longrightarrow> collision_free th T"
  by (auto simp: collision_free_def intro: inj_on_subset)

lemma collision_freeD:
  "collision_free th S \<Longrightarrow> a \<in> S \<Longrightarrow> b \<in> S \<Longrightarrow> H th a = H th b \<Longrightarrow> a = b"
  by (auto simp: collision_free_def dest: inj_onD)

lemma collision_free_placeholder:
  "collision_free th S \<Longrightarrow> a \<in> S \<Longrightarrow> H th a \<noteq> placeholder th"
  by (auto simp: collision_free_def) (metis imageI)

lemma placeholder_neq:
  "collision_free th S \<Longrightarrow> a \<in> S \<Longrightarrow> placeholder th \<noteq> H th a"
  by (metis collision_free_placeholder)

lemma collision_free_list [code]:
  "collision_free th (set ds) \<longleftrightarrow>
     distinct (map (H th) (remdups ds)) \<and> placeholder th \<notin> set (map (H th) ds)"
  by (auto simp: collision_free_def distinct_map)

end
