(* ===== verification/Proofs.thy ===== *)
theory Proofs
  imports TreeHasher
begin

text \<open>
  Model of \<open>src/proofs.go\<close>: Merkle proofs, their sanity checks, verification, and the compact
  encoding. Optional Go slices that the code compares with nil are options. Every index and slice
  expression is checked, so a verifier that would crash is a panic in the model.
\<close>

section \<open>Data\<close>

record SparseMerkleProof =
  SideNodes :: "bytes list"
  NonMembershipLeafData :: "bytes option"
  SiblingData :: "bytes option"

record SparseCompactMerkleProof =
  cSideNodes :: "bytes list"
  cNonMembershipLeafData :: "bytes option"
  cBitMask :: bytes
  cNumSideNodes :: int
  cSiblingData :: "bytes option"

definition defaultValue :: bytes where
  "defaultValue = []"

definition right :: nat where
  "right = 1"

text \<open>\<open>make([]byte, n)\<close> followed by \<open>copy(node, src)\<close>.\<close>

definition copyInto :: "nat \<Rightarrow> bytes \<Rightarrow> bytes" where
  "copyInto n src = take n src @ replicate (n - length src) 0"

text \<open>\<open>int(math.Ceil(float64(n)/float64(8)))\<close> for a non-negative \<open>n\<close>.\<close>

definition ceilDiv8 :: "nat \<Rightarrow> nat" where
  "ceilDiv8 n = (n + 7) div 8"

section \<open>Sanity checks\<close>

definition sanityCheck :: "treeHasher \<Rightarrow> SparseMerkleProof \<Rightarrow> bool" where
  "sanityCheck th proof =
     (if length (SideNodes proof) > pathSize th * 8
         \<or> (case NonMembershipLeafData proof of
              None \<Rightarrow> False
            | Some d \<Rightarrow> length d \<noteq> length leafPrefix + pathSize th + hash_Size (hasher th))
      then False
      else if \<exists>v \<in> set (SideNodes proof). length v \<noteq> hash_Size (hasher th)
      then False
      else case SiblingData proof of
             None \<Rightarrow> True
           | Some d \<Rightarrow>
               if length (SideNodes proof) = 0 then True
               else hd (SideNodes proof) = digest th d)"

definition compactSanityCheck :: "treeHasher \<Rightarrow> SparseCompactMerkleProof \<Rightarrow> bool result" where
  "compactSanityCheck th proof =
     (if cNumSideNodes proof < 0 \<or> cNumSideNodes proof > int (pathSize th * 8) then Inr False
      else if length (cBitMask proof) \<noteq> ceilDiv8 (nat (cNumSideNodes proof)) then Inr False
      else if cNumSideNodes proof > 0
      then bindR (countSetBits (cBitMask proof)) (\<lambda>c.
             Inr (int (length (cSideNodes proof)) = cNumSideNodes proof - int c))
      else Inr True)"

section \<open>Verification\<close>

fun verify_loop :: "treeHasher \<Rightarrow> bytes \<Rightarrow> bytes list \<Rightarrow> nat list \<Rightarrow> bytes \<Rightarrow>
    (bytes \<times> bytes) list \<Rightarrow> (bytes \<times> (bytes \<times> bytes) list) result" where
  "verify_loop th path sn [] currentHash updates = Inr (currentHash, updates)"
| "verify_loop th path sn (i # is) currentHash updates =
     bindR (go_index sn i) (\<lambda>s.
       let node = copyInto (pathSize th) s in
       bindR (getBitAtFromMSB path (length sn - 1 - i)) (\<lambda>b.
         let (h, d) = (if b = right then digestNode th node currentHash
                       else digestNode th currentHash node)
         in verify_loop th path sn is h (updates @ [(h, d)])))"

definition verifyProofWithUpdates ::
    "SparseMerkleProof \<Rightarrow> bytes \<Rightarrow> bytes \<Rightarrow> bytes \<Rightarrow> hash_Hash \<Rightarrow> (bool \<times> (bytes \<times> bytes) list) result"
  where
  "verifyProofWithUpdates proof root key value h =
     (let th = newTreeHasher h; path = th_path th key in
      if \<not> sanityCheck th proof then Inr (False, [])
      else
        let finish = (\<lambda>currentHash updates.
              bindR (verify_loop th path (SideNodes proof) [0..<length (SideNodes proof)]
                       currentHash updates) (\<lambda>(currentHash, updates).
                Inr (currentHash = root, updates)))
        in if value = defaultValue then
             (case NonMembershipLeafData proof of
                None \<Rightarrow> finish (placeholder th) []
              | Some leafData \<Rightarrow>
                  bindR (parseLeaf th leafData) (\<lambda>(actualPath, valueHash).
                    if actualPath = path then Inr (False, [])
                    else let (h, d) = digestLeaf th actualPath valueHash in finish h [(h, d)]))
           else
             let valueHash = digest th value; (h, d) = digestLeaf th path valueHash
             in finish h [(h, d)])"

definition VerifyProof ::
    "SparseMerkleProof \<Rightarrow> bytes \<Rightarrow> bytes \<Rightarrow> bytes \<Rightarrow> hash_Hash \<Rightarrow> bool result" where
  "VerifyProof proof root key value h =
     bindR (verifyProofWithUpdates proof root key value h) (\<lambda>(result, _). Inr result)"

section \<open>Compact proofs\<close>

fun compact_loop :: "treeHasher \<Rightarrow> bytes list \<Rightarrow> nat list \<Rightarrow> bytes \<Rightarrow> bytes list \<Rightarrow>
    (bytes \<times> bytes list) result" where
  "compact_loop th sn [] bitMask acc = Inr (bitMask, acc)"
| "compact_loop th sn (i # is) bitMask acc =
     bindR (go_index sn i) (\<lambda>s.
       let node = copyInto (hash_Size (hasher th)) s in
       if node = placeholder th
       then bindR (setBitAtFromMSB bitMask i) (\<lambda>bitMask'. compact_loop th sn is bitMask' acc)
       else compact_loop th sn is bitMask (acc @ [node]))"

definition CompactProof :: "SparseMerkleProof \<Rightarrow> hash_Hash \<Rightarrow> SparseCompactMerkleProof result" where
  "CompactProof proof h =
     (let th = newTreeHasher h in
      if \<not> sanityCheck th proof then Inl ErrBadProof
      else
        let bitMask = emptyBytes (ceilDiv8 (length (SideNodes proof))) in
        bindR (compact_loop th (SideNodes proof) [0..<length (SideNodes proof)] bitMask [])
          (\<lambda>(bitMask, compactedSideNodes).
            Inr \<lparr>cSideNodes = compactedSideNodes,
                 cNonMembershipLeafData = NonMembershipLeafData proof,
                 cBitMask = bitMask,
                 cNumSideNodes = int (length (SideNodes proof)),
                 cSiblingData = SiblingData proof\<rparr>))"

fun decompact_loop :: "treeHasher \<Rightarrow> bytes \<Rightarrow> bytes list \<Rightarrow> nat list \<Rightarrow> nat \<Rightarrow> bytes list \<Rightarrow>
    bytes list result" where
  "decompact_loop th bitMask sn [] position acc = Inr acc"
| "decompact_loop th bitMask sn (i # is) position acc =
     bindR (getBitAtFromMSB bitMask i) (\<lambda>b.
       if b = 1 then decompact_loop th bitMask sn is position (acc @ [placeholder th])
       else bindR (go_index sn position) (\<lambda>s.
              decompact_loop th bitMask sn is (position + 1) (acc @ [s])))"

definition DecompactProof :: "SparseCompactMerkleProof \<Rightarrow> hash_Hash \<Rightarrow> SparseMerkleProof result" where
  "DecompactProof proof h =
     (let th = newTreeHasher h in
      bindR (compactSanityCheck th proof) (\<lambda>ok.
        if \<not> ok then Inl ErrBadProof
        else
          bindR (decompact_loop th (cBitMask proof) (cSideNodes proof)
                   [0..<nat (cNumSideNodes proof)] 0 [])
            (\<lambda>decompactedSideNodes.
              Inr \<lparr>SideNodes = decompactedSideNodes,
                   NonMembershipLeafData = cNonMembershipLeafData proof,
                   SiblingData = cSiblingData proof\<rparr>)))"

text \<open>An error of \<open>DecompactProof\<close> is the answer false; a panic stays a panic.\<close>

definition VerifyCompactProof ::
    "SparseCompactMerkleProof \<Rightarrow> bytes \<Rightarrow> bytes \<Rightarrow> bytes \<Rightarrow> hash_Hash \<Rightarrow> bool result" where
  "VerifyCompactProof proof root key value h =
     (case DecompactProof proof h of
        Inl e \<Rightarrow> if is_panic e then Inl e else Inr False
      | Inr decompactedProof \<Rightarrow> VerifyProof decompactedProof root key value h)"

end
