(* ===== verification/Pool.thy ===== *)
theory Pool
  imports TreeHasher
begin

text \<open>
  Model of \<open>src/pool.go\<close>: the pooled path slices and scratch buffers of the update walk. A
  \<open>sync.Pool\<close> hands out either an entry that was put back earlier or a new one; the model is the
  list of entries put back, and which of them is handed out is the caller's choice. The slices
  hold Go byte slices that may be nil, hence the option type of \<open>sideNodes\<close>.
\<close>

definition pathSliceCap :: nat where "pathSliceCap = 256"
definition hashBufCap :: nat where "hashBufCap = 64"

record pathSlices =
  sideNodes :: "bytes option list"
  pathNodes :: "bytes list"

record updateScratch =
  pathBuf :: bytes
  valueHashBuf :: bytes
  hashBufA :: bytes
  hashBufB :: bytes

definition newPathSlices :: pathSlices where
  "newPathSlices = \<lparr>sideNodes = [], pathNodes = []\<rparr>"

definition newUpdateScratch :: updateScratch where
  "newUpdateScratch =
     \<lparr>pathBuf = replicate hashBufCap 0, valueHashBuf = replicate hashBufCap 0,
      hashBufA = replicate hashBufCap 0, hashBufB = replicate hashBufCap 0\<rparr>"

text \<open>\<open>pick\<close> is the entry the runtime chooses: an index into the pool, or beyond it for \<open>New\<close>.\<close>

definition pool_Get :: "'a \<Rightarrow> 'a list \<Rightarrow> nat \<Rightarrow> 'a \<times> 'a list" where
  "pool_Get new pool pick =
     (if pick < length pool then (pool ! pick, take pick pool @ drop (Suc pick) pool)
      else (new, pool))"

definition getPathSlices :: "pathSlices list \<Rightarrow> nat \<Rightarrow> pathSlices \<times> pathSlices list" where
  "getPathSlices pool pick = pool_Get newPathSlices pool pick"

definition putPathSlices :: "pathSlices \<Rightarrow> pathSlices list \<Rightarrow> pathSlices list" where
  "putPathSlices p pool =
     (let cleared = p\<lparr>sideNodes := map (\<lambda>_. None) (sideNodes p),
                      pathNodes := map (\<lambda>_. []) (pathNodes p)\<rparr>
      in cleared\<lparr>sideNodes := take 0 (sideNodes cleared), pathNodes := take 0 (pathNodes cleared)\<rparr>
         # pool)"

definition getUpdateScratch :: "updateScratch list \<Rightarrow> nat \<Rightarrow> updateScratch \<times> updateScratch list" where
  "getUpdateScratch pool pick = pool_Get newUpdateScratch pool pick"

definition putUpdateScratch :: "updateScratch \<Rightarrow> updateScratch list \<Rightarrow> updateScratch list" where
  "putUpdateScratch s pool = s # pool"

text \<open>\<open>hashBufs[turn]\<close> of the update and delete walks.\<close>

definition hashBufs :: "updateScratch \<Rightarrow> nat \<Rightarrow> bytes" where
  "hashBufs sc turn = (if turn = 0 then hashBufA sc else hashBufB sc)"

section \<open>What is handed out is always empty\<close>

inductive path_pool :: "pathSlices list \<Rightarrow> bool" where
  empty: "path_pool []"
| get: "path_pool pool \<Longrightarrow> path_pool (snd (getPathSlices pool pick))"
| put: "path_pool pool \<Longrightarrow> path_pool (putPathSlices p pool)"

lemma pool_Get_in: "fst (pool_Get new pool pick) \<in> insert new (set pool)"
  by (simp add: pool_Get_def)

lemma pool_Get_rest: "set (snd (pool_Get new pool pick)) \<subseteq> set pool"
  by (auto simp: pool_Get_def dest: in_set_takeD in_set_dropD)

lemma path_pool_empty: "path_pool pool \<Longrightarrow> set pool \<subseteq> {newPathSlices}"
proof (induction rule: path_pool.induct)
  case (get pool pick)
  show ?case
    using get.IH pool_Get_rest [of newPathSlices pool pick] by (simp add: getPathSlices_def)
next
  case (put pool p)
  then show ?case by (simp add: putPathSlices_def newPathSlices_def Let_def)
qed simp

lemma getPathSlices_new: "path_pool pool \<Longrightarrow> fst (getPathSlices pool pick) = newPathSlices"
  using path_pool_empty [of pool] pool_Get_in [of newPathSlices pool pick]
  by (auto simp: getPathSlices_def)

end
