(* ===== verification/MapStore.thy ===== *)
theory MapStore
  imports TreeHasher
begin

text \<open>
  Model of \<open>src/mapstore.go\<close>: the MapStore interface as a record of its three methods over a state
  type, the in-memory SimpleMap, and the contract every client of the interface relies on as the
  locale \<open>map_store\<close>. The contract has a capacity: \<open>room n s\<close> says that the store is well-formed
  and can take \<open>n\<close> more \<open>Set\<close> calls; \<open>okk\<close> and \<open>okv\<close> are the keys and values it accepts.
  SimpleMap has no limits. The interpretation \<open>simple\<close> discharges the contract for SimpleMap.
\<close>

section \<open>The interface\<close>

record 's MapStore =
  ms_Get :: "'s \<Rightarrow> bytes \<Rightarrow> bytes result"
  ms_Set :: "'s \<Rightarrow> bytes \<Rightarrow> bytes \<Rightarrow> unit result \<times> 's"
  ms_Delete :: "'s \<Rightarrow> bytes \<Rightarrow> unit result \<times> 's"

section \<open>SimpleMap\<close>

record SimpleMap =
  sm_m :: "bytes \<rightharpoonup> bytes"

definition NewSimpleMap :: SimpleMap where
  "NewSimpleMap = \<lparr>sm_m = Map.empty\<rparr>"

definition SimpleMap_Get :: "SimpleMap \<Rightarrow> bytes \<Rightarrow> bytes result" where
  "SimpleMap_Get sm key =
     (case sm_m sm key of Some value \<Rightarrow> Inr value | None \<Rightarrow> Inl (InvalidKeyError key))"

definition SimpleMap_Set :: "SimpleMap \<Rightarrow> bytes \<Rightarrow> bytes \<Rightarrow> unit result \<times> SimpleMap" where
  "SimpleMap_Set sm key value = (Inr (), sm\<lparr>sm_m := (sm_m sm)(key \<mapsto> value)\<rparr>)"

definition SimpleMap_Delete :: "SimpleMap \<Rightarrow> bytes \<Rightarrow> unit result \<times> SimpleMap" where
  "SimpleMap_Delete sm key =
     (case sm_m sm key of
        Some _ \<Rightarrow> (Inr (), sm\<lparr>sm_m := (sm_m sm)(key := None)\<rparr>)
      | None \<Rightarrow> (Inl (InvalidKeyError key), sm))"

definition SimpleMap_store :: "SimpleMap MapStore" where
  "SimpleMap_store =
     \<lparr>ms_Get = SimpleMap_Get, ms_Set = SimpleMap_Set, ms_Delete = SimpleMap_Delete\<rparr>"

section \<open>The contract\<close>

locale map_store =
  fixes I :: "'s MapStore"
    and abs :: "'s \<Rightarrow> bytes \<rightharpoonup> bytes"
    and room :: "nat \<Rightarrow> 's \<Rightarrow> bool"
    and okk :: "bytes \<Rightarrow> bool"
    and okv :: "bytes \<Rightarrow> bool"
  assumes get_law: "room n s \<Longrightarrow> okk k \<Longrightarrow>
      ms_Get I s k = (case abs s k of Some v \<Rightarrow> Inr v | None \<Rightarrow> Inl (InvalidKeyError k))"
    and set_law: "room (Suc n) s \<Longrightarrow> okk k \<Longrightarrow> okv v \<Longrightarrow>
      \<exists>s'. ms_Set I s k v = (Inr (), s') \<and> abs s' = (abs s)(k \<mapsto> v) \<and> room n s'"
    and del_law: "room n s \<Longrightarrow> okk k \<Longrightarrow> abs s k \<noteq> None \<Longrightarrow>
      \<exists>s'. ms_Delete I s k = (Inr (), s') \<and> abs s' = (abs s)(k := None) \<and> room n s'"
    and del_missing_law: "room n s \<Longrightarrow> okk k \<Longrightarrow> abs s k = None \<Longrightarrow>
      ms_Delete I s k = (Inl (InvalidKeyError k), s)"
    and room_mono: "room n s \<Longrightarrow> m \<le> n \<Longrightarrow> room m s"
begin

lemma get_Some: "room n s \<Longrightarrow> okk k \<Longrightarrow> abs s k = Some v \<Longrightarrow> ms_Get I s k = Inr v"
  by (simp add: get_law)

lemma get_None:
  "room n s \<Longrightarrow> okk k \<Longrightarrow> abs s k = None \<Longrightarrow> ms_Get I s k = Inl (InvalidKeyError k)"
  by (simp add: get_law)

lemma get_after_set:
  assumes "room (Suc n) s" "okk k" "okv v" "okk k'"
  shows "ms_Get I (snd (ms_Set I s k v)) k' = (if k' = k then Inr v else ms_Get I s k')"
proof -
  obtain s' where "ms_Set I s k v = (Inr (), s')" "abs s' = (abs s)(k \<mapsto> v)" "room n s'"
    using set_law assms by blast
  then show ?thesis
    using get_law [of n s' k'] get_law [of "Suc n" s k'] assms by simp
qed

lemma get_after_delete:
  assumes "room n s" "okk k" "okk k'"
  shows "ms_Get I (snd (ms_Delete I s k)) k' =
    (if k' = k then Inl (InvalidKeyError k) else ms_Get I s k')"
proof (cases "abs s k")
  case None
  then show ?thesis
    using get_law [of n s k'] del_missing_law [of n s k] assms by simp
next
  case (Some v)
  then obtain s' where "ms_Delete I s k = (Inr (), s')" "abs s' = (abs s)(k := None)" "room n s'"
    using del_law assms by blast
  then show ?thesis
    using get_law [of n s' k'] get_law [of n s k'] assms by simp
qed

end

lemma SimpleMap_map_store:
  "map_store SimpleMap_store sm_m (\<lambda>n s. True) (\<lambda>k. True) (\<lambda>v. True)"
  by unfold_locales
    (auto simp: SimpleMap_store_def SimpleMap_Get_def SimpleMap_Set_def SimpleMap_Delete_def
      split: option.splits)

interpretation simple: map_store SimpleMap_store sm_m "\<lambda>n s. True" "\<lambda>k. True" "\<lambda>v. True"
  by (rule SimpleMap_map_store)

end
