(* ===== verification/SMTModel.thy ===== *)
theory SMTModel
  imports Proofs Pool MapStore
begin

text \<open>
  Model of \<open>src/smt.go\<close>: the sparse Merkle tree over two MapStores. A tree is a record of its
  hasher, the states of its node and value stores, and its root; the methods of the two stores are
  the arguments \<open>nI\<close> and \<open>vI\<close>, as a Go interface value carries them. Mutating methods are state
  transformers that keep the mutations made before an error.
\<close>

section \<open>Data\<close>

record ('n, 'v) SparseMerkleTree =
  smt_th :: treeHasher
  smt_nodes :: 'n
  smt_values :: 'v
  smt_root :: bytes

section \<open>Store access\<close>

definition nodes_Get :: "'n MapStore \<Rightarrow> ('n, 'v) SparseMerkleTree \<Rightarrow> bytes \<Rightarrow> bytes result" where
  "nodes_Get nI smt h = ms_Get nI (smt_nodes smt) h"

definition nodes_Set :: "'n MapStore \<Rightarrow> bytes \<Rightarrow> bytes \<Rightarrow> (('n, 'v) SparseMerkleTree, unit) op" where
  "nodes_Set nI h d smt =
     (let (r, s) = ms_Set nI (smt_nodes smt) h d in (r, smt\<lparr>smt_nodes := s\<rparr>))"

definition nodes_Delete :: "'n MapStore \<Rightarrow> bytes \<Rightarrow> (('n, 'v) SparseMerkleTree, unit) op" where
  "nodes_Delete nI h smt =
     (let (r, s) = ms_Delete nI (smt_nodes smt) h in (r, smt\<lparr>smt_nodes := s\<rparr>))"

definition values_Get :: "'v MapStore \<Rightarrow> ('n, 'v) SparseMerkleTree \<Rightarrow> bytes \<Rightarrow> bytes result" where
  "values_Get vI smt k = ms_Get vI (smt_values smt) k"

definition values_Set :: "'v MapStore \<Rightarrow> bytes \<Rightarrow> bytes \<Rightarrow> (('n, 'v) SparseMerkleTree, unit) op" where
  "values_Set vI k v smt =
     (let (r, s) = ms_Set vI (smt_values smt) k v in (r, smt\<lparr>smt_values := s\<rparr>))"

definition values_Delete :: "'v MapStore \<Rightarrow> bytes \<Rightarrow> (('n, 'v) SparseMerkleTree, unit) op" where
  "values_Delete vI k smt =
     (let (r, s) = ms_Delete vI (smt_values smt) k in (r, smt\<lparr>smt_values := s\<rparr>))"

section \<open>Construction, root and reads\<close>

definition Root :: "('n, 'v) SparseMerkleTree \<Rightarrow> bytes" where
  "Root smt = smt_root smt"

definition SetRoot :: "bytes \<Rightarrow> ('n, 'v) SparseMerkleTree \<Rightarrow> ('n, 'v) SparseMerkleTree" where
  "SetRoot root smt = smt\<lparr>smt_root := root\<rparr>"

definition NewSparseMerkleTree ::
    "'n \<Rightarrow> 'v \<Rightarrow> hash_Hash \<Rightarrow> (('n, 'v) SparseMerkleTree \<Rightarrow> ('n, 'v) SparseMerkleTree) list \<Rightarrow>
     ('n, 'v) SparseMerkleTree" where
  "NewSparseMerkleTree nodes values h options =
     (let smt = \<lparr>smt_th = newTreeHasher h, smt_nodes = nodes, smt_values = values, smt_root = []\<rparr>;
          smt' = foldl (\<lambda>t option. option t) smt options
      in SetRoot (placeholder (smt_th smt')) smt')"

definition ImportSparseMerkleTree ::
    "'n \<Rightarrow> 'v \<Rightarrow> hash_Hash \<Rightarrow> bytes \<Rightarrow> ('n, 'v) SparseMerkleTree" where
  "ImportSparseMerkleTree nodes values h root =
     \<lparr>smt_th = newTreeHasher h, smt_nodes = nodes, smt_values = values, smt_root = root\<rparr>"

definition depth :: "('n, 'v) SparseMerkleTree \<Rightarrow> nat" where
  "depth smt = pathSize (smt_th smt) * 8"

definition Get :: "'v MapStore \<Rightarrow> ('n, 'v) SparseMerkleTree \<Rightarrow> bytes \<Rightarrow> bytes result" where
  "Get vI smt key =
     (let root = Root smt in
      if root = placeholder (smt_th smt) then Inr defaultValue
      else
        let path = th_path (smt_th smt) key in
        case values_Get vI smt path of
          Inl (InvalidKeyError _) \<Rightarrow> Inr defaultValue
        | Inl e \<Rightarrow> Inl e
        | Inr value \<Rightarrow> Inr value)"

text \<open>On an error the Go method returns false together with the error.\<close>

definition Has :: "'v MapStore \<Rightarrow> ('n, 'v) SparseMerkleTree \<Rightarrow> bytes \<Rightarrow> bool result" where
  "Has vI smt key = bindR (Get vI smt key) (\<lambda>val. Inr (defaultValue \<noteq> val))"

section \<open>Walking down\<close>

fun fill_loop :: "'n MapStore \<Rightarrow> ('n, 'v) SparseMerkleTree \<Rightarrow> bytes \<Rightarrow> nat list \<Rightarrow> pathSlices \<Rightarrow>
    bytes \<Rightarrow> bytes \<Rightarrow> (pathSlices \<times> bytes option \<times> bytes) result" where
  "fill_loop nI smt path [] ps currentData sideNode = Inr (ps, Some currentData, sideNode)"
| "fill_loop nI smt path (i # is) ps currentData _ =
     bindR (parseNode (smt_th smt) currentData) (\<lambda>(leftNode, rightNode).
     bindR (getBitAtFromMSB path i) (\<lambda>b.
       let (sideNode, nodeHash) =
             (if b = right then (leftNode, rightNode) else (rightNode, leftNode));
           ps' = ps\<lparr>sideNodes := sideNodes ps @ [Some sideNode],
                    pathNodes := pathNodes ps @ [nodeHash]\<rparr>
       in if nodeHash = placeholder (smt_th smt) then Inr (ps', None, sideNode)
          else
            bindR (nodes_Get nI smt nodeHash) (\<lambda>currentData'.
            bindR (isLeaf (smt_th smt) currentData') (\<lambda>leaf.
              if leaf then Inr (ps', Some currentData', sideNode)
              else fill_loop nI smt path is ps' currentData' sideNode))))"

text \<open>The result is the filled slices, the leaf data (nil for a placeholder) and the sibling data.\<close>

definition fillSideNodes :: "'n MapStore \<Rightarrow> ('n, 'v) SparseMerkleTree \<Rightarrow> pathSlices \<Rightarrow> bytes \<Rightarrow>
    bytes \<Rightarrow> bool \<Rightarrow> (pathSlices \<times> bytes option \<times> bytes option) result" where
  "fillSideNodes nI smt ps path root getSiblingData =
     (let ps = ps\<lparr>pathNodes := pathNodes ps @ [root]\<rparr> in
      if root = placeholder (smt_th smt) then Inr (ps, None, None)
      else
        bindR (nodes_Get nI smt root) (\<lambda>currentData.
        bindR (isLeaf (smt_th smt) currentData) (\<lambda>leaf.
          if leaf then Inr (ps, Some currentData, None)
          else
            bindR (fill_loop nI smt path [0..<depth smt] ps currentData [])
              (\<lambda>(ps, currentData, sideNode).
            bindR (if getSiblingData
                   then bindR (nodes_Get nI smt sideNode) (\<lambda>d. Inr (Some d))
                   else Inr None) (\<lambda>siblingData.
              Inr (ps\<lparr>sideNodes := reverseByteSlicesInPlace (sideNodes ps),
                      pathNodes := reverseByteSlicesInPlace (pathNodes ps)\<rparr>,
                   currentData, siblingData))))))"

definition sideNodesForRoot :: "'n MapStore \<Rightarrow> ('n, 'v) SparseMerkleTree \<Rightarrow> bytes \<Rightarrow> bytes \<Rightarrow> bool \<Rightarrow>
    (bytes option list \<times> bytes list \<times> bytes option \<times> bytes option) result" where
  "sideNodesForRoot nI smt path root getSiblingData =
     bindR (fillSideNodes nI smt \<lparr>sideNodes = [], pathNodes = []\<rparr> path root getSiblingData)
       (\<lambda>(ps, leafData, siblingData). Inr (sideNodes ps, pathNodes ps, leafData, siblingData))"

section \<open>Deleting\<close>

text \<open>A nil slice reads as the empty slice.\<close>

definition go_bytes :: "bytes option \<Rightarrow> bytes" where
  "go_bytes b = (case b of None \<Rightarrow> [] | Some x \<Rightarrow> x)"

fun delete_nodes :: "'n MapStore \<Rightarrow> bytes list \<Rightarrow> (('n, 'v) SparseMerkleTree, unit) op" where
  "delete_nodes nI [] = returnS ()"
| "delete_nodes nI (node # ns) = bindS (nodes_Delete nI node) (\<lambda>_. delete_nodes nI ns)"

text \<open>
  The climb of \<open>deleteWithSideNodes\<close>. \<open>m\<close> is \<open>len(sideNodes)\<close>, \<open>i\<close> the index of the loop; the
  first bind resolves \<open>currentData == nil\<close>, whose None result is the \<open>continue\<close> of a leaf sibling.
\<close>

fun delete_loop :: "'n MapStore \<Rightarrow> treeHasher \<Rightarrow> updateScratch \<Rightarrow> bytes \<Rightarrow> nat \<Rightarrow> nat \<Rightarrow>
    bytes option list \<Rightarrow> nat \<Rightarrow> bytes option \<Rightarrow> bytes option \<Rightarrow> bool \<Rightarrow>
    (('n, 'v) SparseMerkleTree, bytes option) op" where
  "delete_loop nI th sc path m i [] turn currentHash currentData nonPlaceholderReached =
     returnS currentHash"
| "delete_loop nI th sc path m i (sn # sns) turn currentHash currentData nonPlaceholderReached =
     (let sideNode = go_bytes sn in
      bindS
        (case currentData of
           None \<Rightarrow>
             bindS (readS (\<lambda>smt. nodes_Get nI smt sideNode)) (\<lambda>sideNodeValue.
             bindS (liftS (isLeaf th sideNodeValue)) (\<lambda>leaf.
               returnS (if leaf then None else Some (placeholder th, True))))
         | Some cd \<Rightarrow> returnS (Some (cd, nonPlaceholderReached)))
        (\<lambda>r. case r of
           None \<Rightarrow>
             delete_loop nI th sc path m (i + 1) sns turn (Some sideNode) (Some sideNode)
               nonPlaceholderReached
         | Some (cd, np) \<Rightarrow>
             if \<not> np \<and> sideNode = placeholder th
             then delete_loop nI th sc path m (i + 1) sns turn currentHash (Some cd) np
             else
               bindS (liftS (getBitAtFromMSB path (m - 1 - i))) (\<lambda>b.
                 let (h, d) = (if b = right then digestNodeInto th (hashBufs sc turn) sideNode cd
                               else digestNodeInto th (hashBufs sc turn) cd sideNode)
                 in bindS (nodes_Set nI h d) (\<lambda>_.
                      delete_loop nI th sc path m (i + 1) sns (1 - turn) (Some h) (Some h) True))))"

definition deleteWithSideNodes :: "'n MapStore \<Rightarrow> updateScratch \<Rightarrow> bytes \<Rightarrow> bytes option list \<Rightarrow>
    bytes list \<Rightarrow> bytes option \<Rightarrow> (('n, 'v) SparseMerkleTree, bytes) op" where
  "deleteWithSideNodes nI sc path sideNds pathNds oldLeafData smt =
     (let th = smt_th smt in
      bindS (liftS (go_index pathNds 0)) (\<lambda>p0.
        if p0 = placeholder th then throwS ErrKeyAlreadyEmpty
        else
          bindS (liftS (parseLeaf th (go_bytes oldLeafData))) (\<lambda>(actualPath, _).
            if path \<noteq> actualPath then throwS ErrKeyAlreadyEmpty
            else
              bindS (delete_nodes nI pathNds) (\<lambda>_.
              bindS (delete_loop nI th sc path (length sideNds) 0 sideNds 0 None None False)
                (\<lambda>currentHash.
                  returnS (case currentHash of None \<Rightarrow> placeholder th | Some h \<Rightarrow> h))))) smt)"

section \<open>Inserting and updating\<close>

text \<open>
  The climb of \<open>updateWithSideNodes\<close>, over the remaining loop indices; \<open>D\<close> is the depth. The side
  node of a level is None when the loop skips the level.
\<close>

definition update_side :: "treeHasher \<Rightarrow> nat \<Rightarrow> bytes option list \<Rightarrow> nat \<Rightarrow> nat \<Rightarrow>
    bytes option result" where
  "update_side th D sideNds commonPrefixCount i =
     (let offsetOfSideNodes = int D - int (length sideNds);
          j = int i - offsetOfSideNodes
      in bindR (if j < 0 then Inr None else go_index sideNds (nat j)) (\<lambda>sn.
           case sn of
             None \<Rightarrow>
               if commonPrefixCount \<noteq> D \<and> int commonPrefixCount > int D - 1 - int i
               then Inr (Some (placeholder th)) else Inr None
           | Some s \<Rightarrow> Inr (Some s)))"

fun update_loop :: "'n MapStore \<Rightarrow> treeHasher \<Rightarrow> updateScratch \<Rightarrow> bytes \<Rightarrow> nat \<Rightarrow>
    bytes option list \<Rightarrow> nat \<Rightarrow> nat list \<Rightarrow> nat \<Rightarrow> bytes \<Rightarrow> (('n, 'v) SparseMerkleTree, bytes) op"
  where
  "update_loop nI th sc path D sideNds cpc [] turn current = returnS current"
| "update_loop nI th sc path D sideNds cpc (i # is) turn current =
     bindS (liftS (update_side th D sideNds cpc i)) (\<lambda>sn.
       case sn of
         None \<Rightarrow> update_loop nI th sc path D sideNds cpc is turn current
       | Some sideNode \<Rightarrow>
           bindS (liftS (getBitAtFromMSB path (D - 1 - i))) (\<lambda>b.
             let (h, d) = (if b = right then digestNodeInto th (hashBufs sc turn) sideNode current
                           else digestNodeInto th (hashBufs sc turn) current sideNode)
             in bindS (nodes_Set nI h d) (\<lambda>_.
                  update_loop nI th sc path D sideNds cpc is (1 - turn) h)))"

definition updateWithSideNodes :: "'n MapStore \<Rightarrow> 'v MapStore \<Rightarrow> updateScratch \<Rightarrow> bytes \<Rightarrow> bytes \<Rightarrow>
    bytes option list \<Rightarrow> bytes list \<Rightarrow> bytes option \<Rightarrow> (('n, 'v) SparseMerkleTree, bytes) op" where
  "updateWithSideNodes nI vI sc path value sideNds pathNds oldLeafData smt =
     (let th = smt_th smt;
          D = depth smt;
          valueHash = digestInto th (valueHashBuf sc) value;
          (leafHash, leafData) = digestLeafInto th (hashBufs sc 0) path valueHash;
          climb = (\<lambda>cpc turn current.
            bindS (delete_nodes nI (drop 1 pathNds)) (\<lambda>_.
            bindS (update_loop nI th sc path D sideNds cpc [0..<D] turn current) (\<lambda>h.
            bindS (values_Set vI path value) (\<lambda>_. returnS h))))
      in bindS (nodes_Set nI leafHash leafData) (\<lambda>_.
         bindS (liftS (go_index pathNds 0)) (\<lambda>p0.
         bindS (liftS (if p0 = placeholder th then Inr (D, None)
                else bindR (parseLeaf th (go_bytes oldLeafData)) (\<lambda>(actualPath, oldValueHash).
                     bindR (countCommonPrefix path actualPath) (\<lambda>c. Inr (c, Some oldValueHash)))))
           (\<lambda>(commonPrefixCount, oldValueHash).
             if commonPrefixCount \<noteq> D then
               bindS (liftS (getBitAtFromMSB path commonPrefixCount)) (\<lambda>b.
                 let (h, d) = (if b = right then digestNodeInto th (hashBufs sc 1) p0 leafHash
                               else digestNodeInto th (hashBufs sc 1) leafHash p0)
                 in bindS (nodes_Set nI h d) (\<lambda>_. climb commonPrefixCount 0 h))
             else
               case oldValueHash of
                 None \<Rightarrow> climb commonPrefixCount 1 leafHash
               | Some oldHash \<Rightarrow>
                   if oldHash = valueHash then readS (\<lambda>smt. Inr (smt_root smt))
                   else
                     bindS (nodes_Delete nI p0) (\<lambda>_.
                     bindS (values_Delete vI path) (\<lambda>_.
                       climb commonPrefixCount 1 leafHash))))) smt)"

section \<open>Update and Delete\<close>

text \<open>
  \<open>UpdateForRoot\<close> on checked-out path slices and scratch buffers. In the delete branch an error of
  \<open>deleteWithSideNodes\<close> other than \<open>errKeyAlreadyEmpty\<close> does not stop the deletion of the value.
\<close>

definition UpdateForRoot_with :: "'n MapStore \<Rightarrow> 'v MapStore \<Rightarrow> pathSlices \<Rightarrow> updateScratch \<Rightarrow>
    bytes \<Rightarrow> bytes \<Rightarrow> bytes \<Rightarrow> (('n, 'v) SparseMerkleTree, bytes) op" where
  "UpdateForRoot_with nI vI ps sc key value root smt =
     (let path = pathInto (smt_th smt) (pathBuf sc) key in
      bindS (readS (\<lambda>smt. fillSideNodes nI smt ps path root False)) (\<lambda>(ps, oldLeafData, _).
        if value = defaultValue then
          (\<lambda>smt.
            case deleteWithSideNodes nI sc path (sideNodes ps) (pathNodes ps) oldLeafData smt of
              (Inl ErrKeyAlreadyEmpty, smt) \<Rightarrow> (Inr root, smt)
            | (Inl (Panic msg), smt) \<Rightarrow> (Inl (Panic msg), smt)
            | (r, smt) \<Rightarrow> bindS (values_Delete vI path) (\<lambda>_. liftS r) smt)
        else
          updateWithSideNodes nI vI sc path value (sideNodes ps) (pathNodes ps) oldLeafData) smt)"

definition UpdateForRoot :: "'n MapStore \<Rightarrow> 'v MapStore \<Rightarrow> bytes \<Rightarrow> bytes \<Rightarrow> bytes \<Rightarrow>
    (('n, 'v) SparseMerkleTree, bytes) op" where
  "UpdateForRoot nI vI key value root =
     UpdateForRoot_with nI vI (fst (getPathSlices [] 0)) (fst (getUpdateScratch [] 0)) key value root"

definition DeleteForRoot :: "'n MapStore \<Rightarrow> 'v MapStore \<Rightarrow> bytes \<Rightarrow> bytes \<Rightarrow>
    (('n, 'v) SparseMerkleTree, bytes) op" where
  "DeleteForRoot nI vI key root = UpdateForRoot nI vI key defaultValue root"

definition Update :: "'n MapStore \<Rightarrow> 'v MapStore \<Rightarrow> bytes \<Rightarrow> bytes \<Rightarrow>
    (('n, 'v) SparseMerkleTree, bytes) op" where
  "Update nI vI key value smt =
     bindS (UpdateForRoot nI vI key value (Root smt)) (\<lambda>newRoot smt.
       (Inr newRoot, SetRoot newRoot smt)) smt"

definition Delete :: "'n MapStore \<Rightarrow> 'v MapStore \<Rightarrow> bytes \<Rightarrow> (('n, 'v) SparseMerkleTree, bytes) op"
  where
  "Delete nI vI key = Update nI vI key defaultValue"

section \<open>Proving\<close>

definition doProveForRoot :: "'n MapStore \<Rightarrow> ('n, 'v) SparseMerkleTree \<Rightarrow> bytes \<Rightarrow> bytes \<Rightarrow> bool \<Rightarrow>
    SparseMerkleProof result" where
  "doProveForRoot nI smt key root isUpdatable =
     (let th = smt_th smt; path = th_path th key in
      bindR (fillSideNodes nI smt (fst (getPathSlices [] 0)) path root isUpdatable)
        (\<lambda>(ps, leafData, siblingData).
      let nonEmptySideNodes = List.map_filter id (sideNodes ps) in
      bindR (go_index (pathNodes ps) 0) (\<lambda>p0.
      bindR (if p0 \<noteq> placeholder th
             then bindR (parseLeaf th (go_bytes leafData)) (\<lambda>(actualPath, _).
                    Inr (if actualPath \<noteq> path then leafData else None))
             else Inr None) (\<lambda>nonMembershipLeafData.
        Inr \<lparr>SideNodes = nonEmptySideNodes, NonMembershipLeafData = nonMembershipLeafData,
             SiblingData = siblingData\<rparr>))))"

definition ProveForRoot :: "'n MapStore \<Rightarrow> ('n, 'v) SparseMerkleTree \<Rightarrow> bytes \<Rightarrow> bytes \<Rightarrow>
    SparseMerkleProof result" where
  "ProveForRoot nI smt key root = doProveForRoot nI smt key root False"

definition Prove :: "'n MapStore \<Rightarrow> ('n, 'v) SparseMerkleTree \<Rightarrow> bytes \<Rightarrow> SparseMerkleProof result"
  where
  "Prove nI smt key = ProveForRoot nI smt key (Root smt)"

definition ProveUpdatableForRoot :: "'n MapStore \<Rightarrow> ('n, 'v) SparseMerkleTree \<Rightarrow> bytes \<Rightarrow> bytes \<Rightarrow>
    SparseMerkleProof result" where
  "ProveUpdatableForRoot nI smt key root = doProveForRoot nI smt key root True"

definition ProveUpdatable :: "'n MapStore \<Rightarrow> ('n, 'v) SparseMerkleTree \<Rightarrow> bytes \<Rightarrow>
    SparseMerkleProof result" where
  "ProveUpdatable nI smt key = ProveUpdatableForRoot nI smt key (Root smt)"

definition ProveCompactForRoot :: "'n MapStore \<Rightarrow> ('n, 'v) SparseMerkleTree \<Rightarrow> bytes \<Rightarrow> bytes \<Rightarrow>
    SparseCompactMerkleProof result" where
  "ProveCompactForRoot nI smt key root =
     bindR (ProveForRoot nI smt key root) (\<lambda>proof. CompactProof proof (hasher (smt_th smt)))"

definition ProveCompact :: "'n MapStore \<Rightarrow> ('n, 'v) SparseMerkleTree \<Rightarrow> bytes \<Rightarrow>
    SparseCompactMerkleProof result" where
  "ProveCompact nI smt key = ProveCompactForRoot nI smt key (Root smt)"

end
