(* ===== verification/MerkleTree.thy ===== *)
theory MerkleTree
  imports Utils
begin

text \<open>
  The abstract specification: canonical sparse Merkle trees as a datatype. A leaf holds a path
  (the digest of a key) and the value stored under it; a subtree with one leaf is that leaf, and
  an inner node always has at least two leaves below it (\<open>wf_tree\<close>). \<open>tmap\<close> is the map a tree
  stands for, \<open>tinsert\<close> and \<open>tdelete\<close> the two updates. Both keep trees canonical and act on the
  map as a map update; a canonical tree is determined by its map.
\<close>

section \<open>Trees\<close>

datatype mtree = Empty | Leaf bytes bytes | Node mtree mtree

fun is_Node :: "mtree \<Rightarrow> bool" where
  "is_Node (Node _ _) = True"
| "is_Node _ = False"

fun is_Leaf :: "mtree \<Rightarrow> bool" where
  "is_Leaf (Leaf _ _) = True"
| "is_Leaf _ = False"

definition branching :: "mtree \<Rightarrow> mtree \<Rightarrow> bool" where
  "branching l r \<longleftrightarrow> (l = Empty \<longrightarrow> is_Node r) \<and> (r = Empty \<longrightarrow> is_Node l)"

fun wf_tree :: "nat \<Rightarrow> bool list \<Rightarrow> mtree \<Rightarrow> bool" where
  "wf_tree n p Empty = True"
| "wf_tree n p (Leaf k v) = (length k = n \<and> prefix p (bits k) \<and> v \<noteq> [])"
| "wf_tree n p (Node l r) =
     (wf_tree n (p @ [False]) l \<and> wf_tree n (p @ [True]) r \<and> branching l r)"

fun tmap :: "mtree \<Rightarrow> bytes \<rightharpoonup> bytes" where
  "tmap Empty = Map.empty"
| "tmap (Leaf k v) = [k \<mapsto> v]"
| "tmap (Node l r) = tmap l ++ tmap r"

text \<open>The operations follow the remaining bits of the path.\<close>

fun tlookup :: "bool list \<Rightarrow> bytes \<Rightarrow> mtree \<Rightarrow> bytes option" where
  "tlookup bs k Empty = None"
| "tlookup bs k (Leaf k' v) = (if k = k' then Some v else None)"
| "tlookup (b # bs) k (Node l r) = tlookup bs k (if b then r else l)"
| "tlookup [] k (Node l r) = None"

fun tsplit :: "bool list \<Rightarrow> bool list \<Rightarrow> mtree \<Rightarrow> mtree \<Rightarrow> mtree" where
  "tsplit (b # bs) (b' # bs') x y =
     (if b = b' then (if b then Node Empty (tsplit bs bs' x y) else Node (tsplit bs bs' x y) Empty)
      else if b then Node y x else Node x y)"
| "tsplit _ _ x y = x"

fun tinsert :: "bool list \<Rightarrow> bytes \<Rightarrow> bytes \<Rightarrow> mtree \<Rightarrow> mtree" where
  "tinsert bs k v Empty = Leaf k v"
| "tinsert bs k v (Leaf k' v') =
     (if k = k' then Leaf k v
      else tsplit bs (drop (length (bits k) - length bs) (bits k')) (Leaf k v) (Leaf k' v'))"
| "tinsert (b # bs) k v (Node l r) =
     (if b then Node l (tinsert bs k v r) else Node (tinsert bs k v l) r)"
| "tinsert [] k v (Node l r) = Node l r"

definition tnode :: "mtree \<Rightarrow> mtree \<Rightarrow> mtree" where
  "tnode l r =
     (if l = Empty \<and> \<not> is_Node r then r
      else if r = Empty \<and> \<not> is_Node l then l
      else Node l r)"

fun tdelete :: "bool list \<Rightarrow> bytes \<Rightarrow> mtree \<Rightarrow> mtree" where
  "tdelete bs k Empty = Empty"
| "tdelete bs k (Leaf k' v) = (if k = k' then Empty else Leaf k' v)"
| "tdelete (b # bs) k (Node l r) =
     (if b then tnode l (tdelete bs k r) else tnode (tdelete bs k l) r)"
| "tdelete [] k (Node l r) = Node l r"

text \<open>An update with the empty value is a deletion.\<close>

definition tupdate :: "bytes \<Rightarrow> bytes \<Rightarrow> mtree \<Rightarrow> mtree" where
  "tupdate k v t = (if v = [] then tdelete (bits k) k t else tinsert (bits k) k v t)"

definition mupdate :: "bytes \<Rightarrow> bytes \<Rightarrow> (bytes \<rightharpoonup> bytes) \<Rightarrow> (bytes \<rightharpoonup> bytes)" where
  "mupdate k v m = (if v = [] then m(k := None) else m(k \<mapsto> v))"

section \<open>Structure of canonical trees\<close>

lemma branching_simps [simp]:
  "branching (Node a b) r" "branching l (Node a b)" "branching (Leaf k v) (Leaf k' v')"
  "\<not> branching Empty Empty" "\<not> branching Empty (Leaf k v)" "\<not> branching (Leaf k v) Empty"
  by (simp_all add: branching_def)

lemma is_Node_cases: "t = Empty \<or> is_Leaf t \<or> is_Node t"
  by (cases t) auto

lemma wf_tree_keys:
  "wf_tree n p t \<Longrightarrow> tmap t k = Some v \<Longrightarrow> length k = n \<and> prefix p (bits k) \<and> v \<noteq> []"
proof (induction t arbitrary: p)
  case (Node l r)
  then have "tmap l k = Some v \<or> tmap r k = Some v" by (auto simp: map_add_Some_iff)
  then show ?case
    using Node by (auto dest: append_prefixD)
qed (auto split: if_splits)

lemma wf_tree_bit:
  "wf_tree n (p @ [b]) t \<Longrightarrow> tmap t k = Some v \<Longrightarrow> bits k ! length p = b"
  using wf_tree_keys [of n "p @ [b]" t k v] by (auto simp: prefix_def nth_append)

lemma bits_append_less: "bits k = p @ b # zs \<Longrightarrow> length p < 8 * length k"
  using length_bits [of k] by simp

lemma prefix_snoc_bits:
  "prefix (p @ [b]) (bits k) \<longleftrightarrow> prefix p (bits k) \<and> length p < 8 * length k \<and> bits k ! length p = b"
proof
  assume "prefix (p @ [b]) (bits k)"
  then obtain zs where zs: "bits k = p @ b # zs" by (auto simp: prefix_def)
  then show "prefix p (bits k) \<and> length p < 8 * length k \<and> bits k ! length p = b"
    by (simp add: bits_append_less)
next
  assume p: "prefix p (bits k) \<and> length p < 8 * length k \<and> bits k ! length p = b"
  then obtain zs where zs: "bits k = p @ zs" by (auto simp: prefix_def)
  with p length_bits [of k] have "zs \<noteq> []" by auto
  then show "prefix (p @ [b]) (bits k)" using zs p by (cases zs) auto
qed

lemma wf_tree_child_key:
  assumes "wf_tree n (p @ [b]) t" "tmap t k = Some v"
  shows "prefix p (bits k)" "length p < 8 * length k" "bits k ! length p = b"
  using wf_tree_keys [OF assms] by (simp_all add: prefix_snoc_bits)

lemma tmap_Node:
  assumes "wf_tree n p (Node l r)"
  shows "tmap (Node l r) k =
    (if prefix p (bits k) \<and> length p < 8 * length k
     then tmap (if bits k ! length p then r else l) k else None)"
  using assms wf_tree_child_key [of n p False l k] wf_tree_child_key [of n p True r k]
  by (cases "tmap l k"; cases "tmap r k") (auto simp: map_add_def)

lemma tlookup_tmap:
  "wf_tree n p t \<Longrightarrow> bits k = p @ bs \<Longrightarrow> tlookup bs k t = tmap t k"
proof (induction bs k t arbitrary: p rule: tlookup.induct)
  case (3 b bs k l r)
  have "wf_tree n (p @ [b]) (if b then r else l)" using 3 by auto
  then have "tlookup bs k (if b then r else l) = tmap (if b then r else l) k"
    using 3 by auto
  also have "\<dots> = tmap (Node l r) k"
    using tmap_Node [OF "3.prems"(1), of k] "3.prems"(2) by (simp add: nth_append bits_append_less)
  finally show ?case by simp
next
  case (4 k l r)
  then have "length p = 8 * length k" using length_bits [of k] by simp
  then show ?case using tmap_Node [OF "4.prems"(1), of k] by (auto simp: map_add_def)
qed auto

lemma wf_tree_nonempty: "wf_tree n p t \<Longrightarrow> t \<noteq> Empty \<Longrightarrow> \<exists>k v. tmap t k = Some v"
proof (induction t arbitrary: p)
  case (Node l r)
  then have "l \<noteq> Empty \<or> r \<noteq> Empty" by (auto simp: branching_def)
  then obtain k v where "tmap l k = Some v \<or> tmap r k = Some v"
    using Node.IH Node.prems(1) by (metis wf_tree.simps(3))
  then show ?case by (auto simp: map_add_Some_iff) (metis option.exhaust)
qed auto

lemma wf_tree_two:
  "wf_tree n p t \<Longrightarrow> is_Node t \<Longrightarrow> \<exists>a b. a \<noteq> b \<and> tmap t a \<noteq> None \<and> tmap t b \<noteq> None"
proof (induction t arbitrary: p)
  case (Node l r)
  show ?case
  proof (cases "l = Empty \<or> r = Empty")
    case True
    then have "is_Node l \<or> is_Node r" using Node.prems by (auto simp: branching_def)
    then obtain a b where "a \<noteq> b"
      "tmap l a \<noteq> None \<and> tmap l b \<noteq> None \<or> tmap r a \<noteq> None \<and> tmap r b \<noteq> None"
      using Node.IH Node.prems(1) by (metis wf_tree.simps(3))
    then show ?thesis by (auto simp: map_add_None)
  next
    case False
    then obtain a v b w where "tmap l a = Some v" "tmap r b = Some w"
      using Node.prems wf_tree_nonempty by (metis wf_tree.simps(3))
    moreover from this have "a \<noteq> b"
      using Node.prems wf_tree_bit [of n p False l a v] wf_tree_bit [of n p True r b w] by auto
    ultimately show ?thesis by (intro exI [of _ a] exI [of _ b]) (auto simp: map_add_None)
  qed
qed auto

lemma wf_tree_Node_depth:
  assumes "wf_tree n p (Node l r)" shows "length p < 8 * n"
proof (rule ccontr)
  assume "\<not> length p < 8 * n"
  then have eq: "prefix p (bits k) \<Longrightarrow> length k = n \<Longrightarrow> bits k = p" for k
    by (metis length_bits linorder_not_less prefix_length_le prefix_length_prefix prefix_order.eq_iff
        nless_le)
  obtain a b where ab: "a \<noteq> b" "tmap (Node l r) a \<noteq> None" "tmap (Node l r) b \<noteq> None"
    using wf_tree_two [OF assms] by auto
  then have "bits a = p" "bits b = p"
    using wf_tree_keys [OF assms] eq by (metis option.exhaust)+
  then show False using ab(1) bits_inject by metis
qed

section \<open>A canonical tree is determined by its map\<close>

lemma tmap_child:
  assumes "wf_tree n p (Node l r)"
  shows "tmap l = (\<lambda>k. if bits k ! length p then None else tmap (Node l r) k)"
    and "tmap r = (\<lambda>k. if bits k ! length p then tmap (Node l r) k else None)"
proof -
  have l: "\<And>k v. tmap l k = Some v \<Longrightarrow> \<not> bits k ! length p"
    and r: "\<And>k v. tmap r k = Some v \<Longrightarrow> bits k ! length p"
    using assms wf_tree_bit by auto
  show "tmap l = (\<lambda>k. if bits k ! length p then None else tmap (Node l r) k)"
  proof
    fix k show "tmap l k = (if bits k ! length p then None else tmap (Node l r) k)"
      using l [of k] r [of k] by (cases "tmap l k"; cases "tmap r k") (auto simp: map_add_def)
  qed
  show "tmap r = (\<lambda>k. if bits k ! length p then tmap (Node l r) k else None)"
  proof
    fix k show "tmap r k = (if bits k ! length p then tmap (Node l r) k else None)"
      using l [of k] r [of k] by (cases "tmap l k"; cases "tmap r k") (auto simp: map_add_def)
  qed
qed

lemma tmap_child_Some:
  assumes "wf_tree n p (Node l r)"
  shows "tmap l k = Some v \<Longrightarrow> tmap (Node l r) k = Some v"
    and "tmap r k = Some v \<Longrightarrow> tmap (Node l r) k = Some v"
  using fun_cong [OF tmap_child(1) [OF assms], of k] fun_cong [OF tmap_child(2) [OF assms], of k]
  by (simp_all del: tmap.simps split: if_splits)

lemma wf_tree_unique:
  "wf_tree n p t \<Longrightarrow> wf_tree n p t' \<Longrightarrow> tmap t = tmap t' \<Longrightarrow> t = t'"
proof (induction t arbitrary: p t')
  case Empty
  then show ?case using wf_tree_nonempty [of n p t'] by (metis option.distinct(1) tmap.simps(1))
next
  case (Leaf k v)
  show ?case
  proof (cases t')
    case Empty
    then show ?thesis using Leaf by (auto simp: fun_eq_iff split: if_splits)
  next
    case (Leaf k' v')
    then show ?thesis using Leaf.prems(3) by (auto simp: fun_eq_iff split: if_splits)
  next
    case (Node l r)
    then obtain a b where "a \<noteq> b" "tmap t' a \<noteq> None" "tmap t' b \<noteq> None"
      using wf_tree_two [OF Leaf.prems(2)] by auto
    then show ?thesis using Leaf.prems(3) [symmetric] by (auto split: if_splits)
  qed
next
  case (Node l r)
  show ?case
  proof (cases t')
    case Empty
    then show ?thesis using Node.prems wf_tree_nonempty [of n p "Node l r"] by auto
  next
    case (Leaf k' v')
    obtain a b where "a \<noteq> b" "tmap (Node l r) a \<noteq> None" "tmap (Node l r) b \<noteq> None"
      using wf_tree_two [OF Node.prems(1)] by auto
    then show ?thesis using Node.prems(3) Leaf by (auto simp del: tmap.simps(3) split: if_splits)
  next
    case N: (Node l' r')
    have "tmap l = tmap l'" "tmap r = tmap r'"
      using tmap_child [OF Node.prems(1)] tmap_child [of n p l' r'] Node.prems(2,3) N
      by (auto simp del: tmap.simps)
    then show ?thesis
      using Node.IH(1) [of "p @ [False]" l'] Node.IH(2) [of "p @ [True]" r'] Node.prems(1,2) N
      by auto
  qed
qed

section \<open>Insertion\<close>

lemma wf_tree_mono: "wf_tree n p (Leaf k v) \<Longrightarrow> prefix q (bits k) \<Longrightarrow> wf_tree n q (Leaf k v)"
  by simp

lemma tsplit_is_Node:
  "length bs = length bs' \<Longrightarrow> bs \<noteq> bs' \<Longrightarrow> is_Node (tsplit bs bs' x y)"
  by (induction bs bs' x y rule: tsplit.induct) auto

lemma tsplit_correct:
  assumes "bits k = p @ bs" "bits k' = p @ bs'" "length k = n" "length k' = n" "k \<noteq> k'"
    "v \<noteq> []" "v' \<noteq> []"
  shows "wf_tree n p (tsplit bs bs' (Leaf k v) (Leaf k' v'))"
    and "tmap (tsplit bs bs' (Leaf k v) (Leaf k' v')) = [k \<mapsto> v, k' \<mapsto> v']"
proof -
  have len: "length bs = length bs'" and neq: "bs \<noteq> bs'"
    using assms length_bits [of k] length_bits [of k'] bits_inject [of k k'] by auto
  have "wf_tree n p (tsplit bs bs' (Leaf k v) (Leaf k' v')) \<and>
     tmap (tsplit bs bs' (Leaf k v) (Leaf k' v')) = [k \<mapsto> v, k' \<mapsto> v']"
    using assms(1,2) len neq
  proof (induction bs bs' arbitrary: p rule: list_induct2')
    case (4 b bs b' bs')
    show ?case
    proof (cases "b = b'")
      case True
      then have IH: "wf_tree n (p @ [b]) (tsplit bs bs' (Leaf k v) (Leaf k' v')) \<and>
         tmap (tsplit bs bs' (Leaf k v) (Leaf k' v')) = [k \<mapsto> v, k' \<mapsto> v']"
        using 4 by (intro "4.IH") auto
      have "is_Node (tsplit bs bs' (Leaf k v) (Leaf k' v'))"
        using 4 True by (intro tsplit_is_Node) auto
      then show ?thesis using True IH by (cases b) (auto simp: branching_def)
    next
      case False
      then show ?thesis
        using assms(3-7) "4.prems" by (cases b) (auto simp: prefix_def fun_upd_twist)
    qed
  qed auto
  then show "wf_tree n p (tsplit bs bs' (Leaf k v) (Leaf k' v'))"
    and "tmap (tsplit bs bs' (Leaf k v) (Leaf k' v')) = [k \<mapsto> v, k' \<mapsto> v']" by auto
qed

lemma tsplit_nonempty: "x \<noteq> Empty \<Longrightarrow> tsplit bs bs' x y \<noteq> Empty"
  by (induction bs bs' x y rule: tsplit.induct) auto

lemma tinsert_nonempty: "tinsert bs k v t \<noteq> Empty"
  by (cases t; cases bs) (auto simp: tsplit_nonempty)

lemma tinsert_is_Node: "is_Node t \<Longrightarrow> is_Node (tinsert bs k v t)"
  by (cases t; cases bs) auto

lemma tinsert_branching:
  "branching l r \<Longrightarrow> branching (tinsert bs k v l) r \<and> branching l (tinsert bs k v r)"
  using tinsert_nonempty [of bs k v l] tinsert_nonempty [of bs k v r] tinsert_is_Node
  by (auto simp: branching_def)

lemma tinsert_correct:
  assumes "wf_tree n p t" "bits k = p @ bs" "length k = n" "v \<noteq> []"
  shows "wf_tree n p (tinsert bs k v t) \<and> tmap (tinsert bs k v t) = (tmap t)(k \<mapsto> v)"
  using assms
proof (induction bs k v t arbitrary: p rule: tinsert.induct)
  case (2 bs k v k' v')
  have d: "drop (length (bits k) - length bs) (bits k') = drop (length p) (bits k')"
    using 2 by simp
  have "bits k' = p @ drop (length p) (bits k')"
    using 2 by (auto simp: prefix_def)
  then show ?case
    using 2 tsplit_correct [of k p bs k' "drop (length p) (bits k')" n v v']
    by (cases "k = k'") (auto simp: d fun_upd_twist)
next
  case (3 b bs k v l r)
  let ?t = "if b then r else l"
  have "wf_tree n (p @ [b]) ?t" "bits k = (p @ [b]) @ bs" using 3 by auto
  then have IH: "wf_tree n (p @ [b]) (tinsert bs k v ?t)" "tmap (tinsert bs k v ?t) = (tmap ?t)(k \<mapsto> v)"
    using 3 by auto
  have br: "branching (tinsert bs k v l) r" "branching l (tinsert bs k v r)"
    using 3 tinsert_branching by auto
  have r: "tmap r k = None" if "\<not> b"
    using that 3 wf_tree_child_key(3) [of n p True r k] by (cases "tmap r k") (auto simp: nth_append)
  show ?case using IH br r 3 by (cases b) (auto simp: map_add_upd_left domIff)
next
  case (4 k v l r)
  then show ?case using wf_tree_Node_depth [OF "4.prems"(1)] length_bits [of k] by simp
qed auto

section \<open>Deletion\<close>

lemma tmap_tnode: "tmap (tnode l r) = tmap l ++ tmap r"
  by (auto simp: tnode_def)

lemma tnode_wf:
  assumes "wf_tree n (p @ [False]) l" "wf_tree n (p @ [True]) r"
  shows "wf_tree n p (tnode l r)"
  using assms
  by (cases l; cases r) (auto simp: tnode_def branching_def dest: append_prefixD)

lemma tdelete_correct:
  assumes "wf_tree n p t" "bits k = p @ bs" "length k = n"
  shows "wf_tree n p (tdelete bs k t) \<and> tmap (tdelete bs k t) = (tmap t)(k := None)"
  using assms
proof (induction bs k t arbitrary: p rule: tdelete.induct)
  case (3 b bs k l r)
  let ?t = "if b then r else l"
  have "wf_tree n (p @ [b]) ?t" "bits k = (p @ [b]) @ bs" using 3 by auto
  then have IH: "wf_tree n (p @ [b]) (tdelete bs k ?t)" "tmap (tdelete bs k ?t) = (tmap ?t)(k := None)"
    using 3 by auto
  have o: "tmap (if b then l else r) k = None"
    using 3 wf_tree_child_key(3) [of n p "\<not> b" "if b then l else r" k]
    by (cases "tmap (if b then l else r) k") (auto simp: nth_append split: if_splits)
  have "(tmap (Node l r))(k := None) = (if b then tmap l ++ (tmap r)(k := None)
      else (tmap l)(k := None) ++ tmap r)"
    using o by (auto simp: fun_eq_iff map_add_def split: option.splits)
  then show ?case
    using IH 3 tnode_wf by (cases b) (auto simp: tmap_tnode)
next
  case (4 k l r)
  then show ?case using wf_tree_Node_depth [OF "4.prems"(1)] length_bits [of k] by simp
qed auto

lemma tupdate_correct:
  assumes "wf_tree n [] t" "length k = n"
  shows "wf_tree n [] (tupdate k v t)" "tmap (tupdate k v t) = mupdate k v (tmap t)"
  using assms tinsert_correct [of n "[]" t k "bits k" v] tdelete_correct [of n "[]" t k "bits k"]
  by (auto simp: tupdate_def mupdate_def)

lemma tupdate_unique:
  assumes "wf_tree n [] t" "wf_tree n [] t'" "length k = n" "tmap t' = mupdate k v (tmap t)"
  shows "t' = tupdate k v t"
  using assms tupdate_correct wf_tree_unique by metis

end
