(* ===== verification/MerkleHash.thy ===== *)
theory MerkleHash
  imports MerkleTree TreeHasher
begin

text \<open>
  Hashing of the abstract trees: the Merkle root \<open>thash\<close>, the byte strings a node store holds for
  a tree (\<open>node_set\<close>) and everything that is hashed for it (\<open>preimages\<close>). Walks along a path are
  zippers: the siblings of the path, the subtree the walk ends in, and \<open>plug\<close> to rebuild the tree;
  \<open>climb\<close> is the same on hashes, which is what the update, delete and verification loops compute.
  Under collision freedom on the preimages, subtrees are determined by their hashes, and the data
  along a path is disjoint from the data beside it.
\<close>

section \<open>Hashes and stored data\<close>

fun thash :: "treeHasher \<Rightarrow> mtree \<Rightarrow> bytes" where
  "thash th Empty = placeholder th"
| "thash th (Leaf k v) = H th (leaf_data th k v)"
| "thash th (Node l r) = H th (node_data (thash th l) (thash th r))"

fun tdata :: "treeHasher \<Rightarrow> mtree \<Rightarrow> bytes" where
  "tdata th Empty = []"
| "tdata th (Leaf k v) = leaf_data th k v"
| "tdata th (Node l r) = node_data (thash th l) (thash th r)"

text \<open>\<open>subs\<close>: the non-empty subtrees; \<open>node_set\<close>: their stored data; \<open>preimages\<close>: everything hashed.\<close>

fun subs :: "mtree \<Rightarrow> mtree set" where
  "subs Empty = {}"
| "subs (Leaf k v) = {Leaf k v}"
| "subs (Node l r) = insert (Node l r) (subs l \<union> subs r)"

fun node_set :: "treeHasher \<Rightarrow> mtree \<Rightarrow> bytes set" where
  "node_set th Empty = {}"
| "node_set th (Leaf k v) = {leaf_data th k v}"
| "node_set th (Node l r) =
     insert (node_data (thash th l) (thash th r)) (node_set th l \<union> node_set th r)"

fun preimages :: "treeHasher \<Rightarrow> mtree \<Rightarrow> bytes set" where
  "preimages th Empty = {}"
| "preimages th (Leaf k v) = {v, leaf_data th k v}"
| "preimages th (Node l r) =
     insert (node_data (thash th l) (thash th r)) (preimages th l \<union> preimages th r)"

section \<open>Zippers\<close>

text \<open>The siblings along a path (root first), the subtree where the walk stops, and rebuilding.\<close>

fun sides :: "bool list \<Rightarrow> mtree \<Rightarrow> mtree list" where
  "sides (b # bs) (Node l r) = (if b then l # sides bs r else r # sides bs l)"
| "sides _ _ = []"

fun focus :: "bool list \<Rightarrow> mtree \<Rightarrow> mtree" where
  "focus (b # bs) (Node l r) = focus bs (if b then r else l)"
| "focus _ t = t"

fun plug :: "bool list \<Rightarrow> mtree list \<Rightarrow> mtree \<Rightarrow> mtree" where
  "plug (b # bs) (s # ss) f = (if b then Node s (plug bs ss f) else Node (plug bs ss f) s)"
| "plug _ _ f = f"

text \<open>The same climb on hashes: the root it computes, and the node data it hashes, leaf end first.\<close>

fun climb :: "treeHasher \<Rightarrow> bool list \<Rightarrow> bytes list \<Rightarrow> bytes \<Rightarrow> bytes" where
  "climb th (b # bs) (s # ss) h =
     (let h' = climb th bs ss h in H th (if b then node_data s h' else node_data h' s))"
| "climb th _ _ h = h"

fun climb_list :: "treeHasher \<Rightarrow> bool list \<Rightarrow> bytes list \<Rightarrow> bytes \<Rightarrow> bytes list" where
  "climb_list th (b # bs) (s # ss) h =
     (let h' = climb th bs ss h
      in climb_list th bs ss h @ [if b then node_data s h' else node_data h' s])"
| "climb_list th _ _ h = []"

section \<open>Zipper laws\<close>

lemma plug_sides_focus: "plug bs (sides bs t) (focus bs t) = t"
  by (induction bs t rule: sides.induct) auto

lemma length_sides_le: "length (sides bs t) \<le> length bs"
  by (induction bs t rule: sides.induct) auto

lemma wf_tree_full_depth: "wf_tree n p t \<Longrightarrow> 8 * n \<le> length p \<Longrightarrow> \<not> is_Node t"
  using wf_tree_Node_depth [of n p] by (cases t) (auto simp del: wf_tree.simps)

lemma focus_not_Node: "wf_tree n p t \<Longrightarrow> bits k = p @ bs \<Longrightarrow> length k = n \<Longrightarrow> \<not> is_Node (focus bs t)"
proof (induction bs t arbitrary: p rule: focus.induct)
  case (1 b bs l r)
  then show ?case using "1.IH" [of "p @ [b]"] by auto
next
  case "2_1"
  then show ?case
    using wf_tree_full_depth length_bits [of k] by (metis append_Nil2 focus.simps(2) order_refl)
qed auto

lemma plug_append:
  "length ss \<le> length bs \<Longrightarrow> plug bs (ss @ ss') f = plug bs ss (plug (drop (length ss) bs) ss' f)"
proof (induction ss arbitrary: bs)
  case (Cons s ss)
  then show ?case by (cases bs) auto
qed (cases bs; simp)

lemma sides_plug: "length ss \<le> length bs \<Longrightarrow> \<not> is_Node f \<Longrightarrow> sides bs (plug bs ss f) = ss"
  by (induction bs ss f rule: plug.induct) (auto, (metis is_Node.elims(3) sides.simps)+)

lemma wf_tree_focus:
  "wf_tree n p t \<Longrightarrow> wf_tree n (p @ take (length (sides bs t)) bs) (focus bs t)"
proof (induction bs t arbitrary: p rule: sides.induct)
  case (1 b bs l r)
  then show ?case using "1.IH"(1) [of "p @ [True]"] "1.IH"(2) [of "p @ [False]"] by auto
qed auto

text \<open>Updating at the focus is replacing the focus.\<close>

lemma tinsert_plug:
  "tinsert bs k v t = plug bs (sides bs t) (tinsert (drop (length (sides bs t)) bs) k v (focus bs t))"
  if "length (bits k) = length bs + d" for d
  using that by (induction bs k v t arbitrary: d rule: tinsert.induct) auto

lemma tsplit_plug:
  "length bs = length bs' \<Longrightarrow> bs \<noteq> bs' \<Longrightarrow>
   tsplit bs bs' x y = plug bs (replicate (lcp_len bs bs') Empty)
     (if bs ! lcp_len bs bs' then Node y x else Node x y)"
  by (induction bs bs' x y rule: tsplit.induct) auto

text \<open>Deletion: drop the empty siblings above a bubbled-up leaf.\<close>

definition strip_empty :: "mtree list \<Rightarrow> mtree list" where
  "strip_empty ss = rev (dropWhile (\<lambda>t. t = Empty) (rev ss))"

lemma strip_empty_simps [simp]:
  "strip_empty [] = []"
  "strip_empty (s # ss) =
     (if strip_empty ss = [] then (if s = Empty then [] else [s]) else s # strip_empty ss)"
  by (auto simp: strip_empty_def dropWhile_append)

lemma strip_empty_length: "length (strip_empty ss) \<le> length ss"
  by (induction ss) auto

lemma strip_empty_split: "ss = strip_empty ss @ replicate (length ss - length (strip_empty ss)) Empty"
  by (induction ss) (auto simp: Suc_diff_le strip_empty_length)

lemma plug_is_Node: "length ss \<le> length bs \<Longrightarrow> ss \<noteq> [] \<Longrightarrow> is_Node (plug bs ss f)"
  by (cases bs; cases ss) auto

lemma tdelete_plug:
  assumes "wf_tree n p t" "bits k = p @ bs" "length k = n" "focus bs t = Leaf k v"
  shows "tdelete bs k t =
    (if sides bs t = [] then Empty
     else if is_Leaf (last (sides bs t))
     then plug bs (strip_empty (butlast (sides bs t))) (last (sides bs t))
     else plug bs (sides bs t) Empty)"
  using assms
proof (induction bs t arbitrary: p rule: sides.induct)
  case (1 b bs l r)
  define c where "c = (if b then r else l)"
  define s where "s = (if b then l else r)"
  have sc: "sides (b # bs) (Node l r) = s # sides bs c" by (simp add: s_def c_def)
  have wf: "wf_tree n (p @ [b]) c" "bits k = (p @ [b]) @ bs" "focus bs c = Leaf k v"
    using 1 by (auto simp: c_def)
  have IH: "tdelete bs k c = (if sides bs c = [] then Empty
     else if is_Leaf (last (sides bs c))
     then plug bs (strip_empty (butlast (sides bs c))) (last (sides bs c))
     else plug bs (sides bs c) Empty)"
    using "1.IH"(1) [of "p @ [b]"] "1.IH"(2) [of "p @ [b]"] wf "1.prems"(3)
    by (cases b) (auto simp: c_def)
  have del: "tdelete (b # bs) k (Node l r) =
      (if b then tnode s (tdelete bs k c) else tnode (tdelete bs k c) s)"
    by (simp add: s_def c_def)
  have len: "length (sides bs c) \<le> length bs" by (rule length_sides_le)
  show ?case
  proof (cases "sides bs c = []")
    case True
    then have "c = Leaf k v" using wf(3) plug_sides_focus [of bs c] by simp
    then have "s \<noteq> Empty" using "1.prems"(1) by (auto simp: s_def c_def split: if_splits)
    then show ?thesis
      using True IH is_Node_cases [of s] unfolding sc del
      by (cases s) (auto simp: tnode_def)
  next
    case False
    have bl: "butlast (s # sides bs c) = s # butlast (sides bs c)" "last (s # sides bs c) = last (sides bs c)"
      using False by auto
    show ?thesis
    proof (cases "is_Leaf (last (sides bs c))")
      case leaf: True
      show ?thesis
      proof (cases "strip_empty (butlast (sides bs c)) = []")
        case True
        then show ?thesis
          using False leaf IH unfolding sc del bl
          by (cases "last (sides bs c)"; cases s) (auto simp: tnode_def)
      next
        case ne: False
        have "length (strip_empty (butlast (sides bs c))) \<le> length bs"
          using strip_empty_length [of "butlast (sides bs c)"] len by simp
        then have "is_Node (tdelete bs k c)"
          using IH False leaf ne plug_is_Node by simp
        then show ?thesis
          using False leaf IH ne unfolding sc del bl by (auto simp: tnode_def)
      qed
    next
      case nl: False
      have "is_Node (tdelete bs k c)" using IH False nl len plug_is_Node by simp
      then show ?thesis using False nl IH unfolding sc del bl by (auto simp: tnode_def)
    qed
  qed
qed auto

section \<open>Climbing\<close>

lemma climb_snoc:
  "length ss < length bs \<Longrightarrow>
   climb th bs (ss @ [s]) h =
     climb th bs ss (H th (if bs ! length ss then node_data s h else node_data h s))"
proof (induction ss arbitrary: bs)
  case Nil
  then show ?case by (cases bs) auto
next
  case (Cons a ss)
  then show ?case by (cases bs) auto
qed

lemma climb_list_snoc:
  "length ss < length bs \<Longrightarrow>
   climb_list th bs (ss @ [s]) h =
     (let d = (if bs ! length ss then node_data s h else node_data h s)
      in d # climb_list th bs ss (H th d))"
proof (induction ss arbitrary: bs)
  case Nil
  then show ?case by (cases bs) auto
next
  case (Cons a ss)
  then show ?case by (cases bs) (auto simp: Let_def climb_snoc)
qed

lemma length_climb_list [simp]:
  "length ss \<le> length bs \<Longrightarrow> length (climb_list th bs ss h) = length ss"
proof (induction ss arbitrary: bs)
  case (Cons s ss)
  then show ?case by (cases bs) (auto simp: Let_def)
qed (cases bs; simp)

lemma length_climb [simp]: "wf_th th \<Longrightarrow> length h = pathSize th \<Longrightarrow> length (climb th bs ss h) = pathSize th"
  by (induction th bs ss h rule: climb.induct) (auto simp: Let_def)

lemma length_thash [simp]: "wf_th th \<Longrightarrow> length (thash th t) = pathSize th"
  by (cases t) auto

lemma thash_plug: "thash th (plug bs ss f) = climb th bs (map (thash th) ss) (thash th f)"
  by (induction bs ss f rule: plug.induct) (auto simp: Let_def)

lemma node_set_plug:
  "length ss \<le> length bs \<Longrightarrow> node_set th (plug bs ss f) =
   set (climb_list th bs (map (thash th) ss) (thash th f)) \<union> (\<Union>s\<in>set ss. node_set th s) \<union> node_set th f"
  by (induction bs ss f rule: plug.induct) (auto simp: Let_def thash_plug)

lemma node_set_preimages: "node_set th t \<subseteq> preimages th t"
  by (induction t) auto

lemma node_set_length:
  "wf_th th \<Longrightarrow> wf_tree (pathSize th) p t \<Longrightarrow> d \<in> node_set th t \<Longrightarrow> length d = 2 * pathSize th + 1"
  by (induction t arbitrary: p) (auto simp: node_data_def leaf_data_def)

lemma node_set_subs: "node_set th t = tdata th ` subs t"
  by (induction t) auto

lemma thash_tdata: "t \<noteq> Empty \<Longrightarrow> thash th t = H th (tdata th t)"
  by (cases t) auto

section \<open>Subtrees\<close>

lemma subs_nonempty: "s \<in> subs t \<Longrightarrow> s \<noteq> Empty"
  by (induction t) auto

lemma subs_size: "s \<in> subs t \<Longrightarrow> size s \<le> size t"
  by (induction t) auto

lemma subs_refl: "t \<noteq> Empty \<Longrightarrow> t \<in> subs t"
  by (cases t) auto

lemma subs_wf: "s \<in> subs t \<Longrightarrow> wf_tree n p t \<Longrightarrow> \<exists>q. prefix p q \<and> wf_tree n q s"
proof (induction t arbitrary: p)
  case (Node l r)
  then show ?case
    by auto (metis append_prefixD, metis append_prefixD)
qed auto

lemma subs_preimages: "s \<in> subs t \<Longrightarrow> preimages th s \<subseteq> preimages th t"
  by (induction t) auto

lemma subs_tmap: "wf_tree n p t \<Longrightarrow> s \<in> subs t \<Longrightarrow> tmap s \<subseteq>\<^sub>m tmap t"
proof (induction t arbitrary: p)
  case (Node l r)
  have "tmap l \<subseteq>\<^sub>m tmap (Node l r)" "tmap r \<subseteq>\<^sub>m tmap (Node l r)"
    using tmap_child_Some [OF Node.prems(1)] by (auto simp: map_le_def simp del: tmap.simps)
  moreover have "tmap s \<subseteq>\<^sub>m tmap l" if "s \<in> subs l"
    using Node.IH(1) [of "p @ [False]"] Node.prems(1) that by simp
  moreover have "tmap s \<subseteq>\<^sub>m tmap r" if "s \<in> subs r"
    using Node.IH(2) [of "p @ [True]"] Node.prems(1) that by simp
  moreover have "s = Node l r \<or> s \<in> subs l \<or> s \<in> subs r" using Node.prems(2) by simp
  ultimately show ?case by (metis map_le_refl map_le_trans)
qed auto

section \<open>Hashes determine trees\<close>

lemma thash_inject:
  assumes "wf_th th" "pathSize th = n" "collision_free th S"
    "wf_tree n p s" "wf_tree n q t" "preimages th s \<subseteq> S" "preimages th t \<subseteq> S"
    "thash th s = thash th t"
  shows "s = t"
  using assms(4-8)
proof (induction s arbitrary: t p q)
  case Empty
  then show ?case
    using placeholder_neq [OF assms(3)] by (cases t) auto
next
  case (Leaf k v)
  note cf = collision_freeD [OF assms(3)] collision_free_placeholder [OF assms(3)]
  show ?case
  proof (cases t)
    case Empty
    then show ?thesis using Leaf cf by auto
  next
    case L: (Leaf k' v')
    then have "leaf_data th k v = leaf_data th k' v'" using Leaf.prems cf by auto
    then show ?thesis using Leaf.prems L cf by (auto simp: leaf_data_inject)
  next
    case (Node l r)
    then have "leaf_data th k v \<in> S" "node_data (thash th l) (thash th r) \<in> S"
      "H th (leaf_data th k v) = H th (node_data (thash th l) (thash th r))"
      using Leaf.prems by auto
    then have "leaf_data th k v = node_data (thash th l) (thash th r)" by (rule cf(1))
    then show ?thesis by simp
  qed
next
  case (Node l r)
  note cf = collision_freeD [OF assms(3)] collision_free_placeholder [OF assms(3)]
  show ?case
  proof (cases t)
    case Empty
    then show ?thesis using Node.prems cf by auto
  next
    case (Leaf k' v')
    then have "node_data (thash th l) (thash th r) \<in> S" "leaf_data th k' v' \<in> S"
      "H th (node_data (thash th l) (thash th r)) = H th (leaf_data th k' v')"
      using Node.prems by auto
    then have "node_data (thash th l) (thash th r) = leaf_data th k' v'" by (rule cf(1))
    then show ?thesis by simp
  next
    case N: (Node l' r')
    then have "node_data (thash th l) (thash th r) = node_data (thash th l') (thash th r')"
      using Node.prems cf by auto
    then have "thash th l = thash th l'" "thash th r = thash th r'"
      using assms(1) by (simp_all add: node_data_inject)
    then show ?thesis using Node N by auto
  qed
qed

lemma tdata_inject:
  assumes "wf_th th" "pathSize th = n" "collision_free th S"
    "wf_tree n p s" "wf_tree n q t" "preimages th s \<subseteq> S" "preimages th t \<subseteq> S"
    "s \<noteq> Empty" "t \<noteq> Empty" "tdata th s = tdata th t"
  shows "s = t"
  using assms thash_inject [OF assms(1-7)] by (simp add: thash_tdata)

section \<open>The data along a path is disjoint from the data beside it\<close>

lemma node_set_children_disjoint:
  assumes "wf_th th" "pathSize th = n" "collision_free th S"
    "wf_tree n (p @ [b]) l" "wf_tree n (p @ [\<not> b]) r" "preimages th l \<subseteq> S" "preimages th r \<subseteq> S"
  shows "node_set th l \<inter> node_set th r = {}"
proof (rule ccontr)
  assume "node_set th l \<inter> node_set th r \<noteq> {}"
  then obtain s t where st: "s \<in> subs l" "t \<in> subs r" "tdata th s = tdata th t"
    by (auto simp: node_set_subs)
  obtain q q' where q: "wf_tree n q s" "wf_tree n q' t"
    using subs_wf st assms(4,5) by blast
  have "s = t"
    using tdata_inject [OF assms(1-3) q] st subs_preimages assms(6,7) subs_nonempty by blast
  obtain k v where k: "tmap s k = Some v"
    using wf_tree_nonempty [OF q(1)] subs_nonempty [OF st(1)] by blast
  have "tmap l k = Some v" "tmap r k = Some v"
    using subs_tmap [OF assms(4) st(1)] subs_tmap [OF assms(5) st(2)] k \<open>s = t\<close>
    by (auto simp: map_le_def dom_def)
  then show False
    using wf_tree_child_key(3) [OF assms(4)] wf_tree_child_key(3) [OF assms(5)] by blast
qed

lemma node_set_root_notin:
  assumes "wf_th th" "pathSize th = n" "collision_free th S" "wf_tree n p (Node l r)"
    "preimages th (Node l r) \<subseteq> S"
  shows "tdata th (Node l r) \<notin> node_set th l \<union> node_set th r"
proof
  assume "tdata th (Node l r) \<in> node_set th l \<union> node_set th r"
  then obtain s where s: "s \<in> subs l \<or> s \<in> subs r" "tdata th (Node l r) = tdata th s"
    by (auto simp: node_set_subs)
  then have sub: "s \<in> subs (Node l r)" by auto
  then obtain q where q: "wf_tree n q s" using subs_wf assms(4) by blast
  have "Node l r = s"
    using tdata_inject [OF assms(1-4) q assms(5)] s(2) subs_preimages [OF sub] assms(5)
      subs_nonempty [OF sub] by (metis mtree.distinct(3) order_trans mtree.distinct(4))
  then show False using s(1) subs_size by fastforce
qed

definition path_data :: "treeHasher \<Rightarrow> bool list \<Rightarrow> mtree \<Rightarrow> bytes list" where
  "path_data th bs t = climb_list th bs (map (thash th) (sides bs t)) (thash th (focus bs t))"

lemma path_data_Node:
  "path_data th (b # bs) (Node l r) = path_data th bs (if b then r else l) @ [tdata th (Node l r)]"
  using thash_plug [of th bs "sides bs (if b then r else l)" "focus bs (if b then r else l)"]
  by (auto simp: path_data_def Let_def plug_sides_focus)

lemma path_data_other [simp]:
  "path_data th [] t = []" "path_data th bs Empty = []" "path_data th bs (Leaf k v) = []"
  by (cases t; simp add: path_data_def) (cases bs; simp add: path_data_def)+

lemma node_set_walk:
  "node_set th t = set (path_data th bs t) \<union> (\<Union>s\<in>set (sides bs t). node_set th s) \<union>
     node_set th (focus bs t)"
  using node_set_plug [OF length_sides_le, of th bs t "focus bs t"]
  by (simp add: plug_sides_focus path_data_def)

lemma path_data_disjoint:
  assumes "wf_th th" "pathSize th = n" "collision_free th S"
    "wf_tree n p t" "preimages th t \<subseteq> S"
  shows "distinct (path_data th bs t)"
    and "\<forall>s\<in>set (sides bs t). set (path_data th bs t) \<inter> node_set th s = {}"
    and "set (path_data th bs t) \<inter> node_set th (focus bs t) = {}"
    and "\<forall>s\<in>set (sides bs t). node_set th (focus bs t) \<inter> node_set th s = {}"
proof -
  have "distinct (path_data th bs t) \<and>
    (\<forall>s\<in>set (sides bs t). set (path_data th bs t) \<inter> node_set th s = {}) \<and>
    set (path_data th bs t) \<inter> node_set th (focus bs t) = {} \<and>
    (\<forall>s\<in>set (sides bs t). node_set th (focus bs t) \<inter> node_set th s = {})"
    using assms(4,5)
  proof (induction bs t arbitrary: p rule: sides.induct)
    case (1 b bs l r)
    define c where "c = (if b then r else l)"
    define s where "s = (if b then l else r)"
    have wf: "wf_tree n (p @ [b]) c" "wf_tree n (p @ [\<not> b]) s"
      and pre: "preimages th c \<subseteq> S" "preimages th s \<subseteq> S"
      using 1 by (auto simp: c_def s_def)
    have IH: "distinct (path_data th bs c)"
      "\<forall>s\<in>set (sides bs c). set (path_data th bs c) \<inter> node_set th s = {}"
      "set (path_data th bs c) \<inter> node_set th (focus bs c) = {}"
      "\<forall>s\<in>set (sides bs c). node_set th (focus bs c) \<inter> node_set th s = {}"
      using "1.IH"(1) [of "p @ [b]"] "1.IH"(2) [of "p @ [b]"] wf pre
      by (simp_all add: c_def split: if_splits)
    have dis: "node_set th c \<inter> node_set th s = {}"
      using node_set_children_disjoint [OF assms(1-3) wf pre] .
    have root: "tdata th (Node l r) \<notin> node_set th c \<union> node_set th s"
      using node_set_root_notin [OF assms(1-3) "1.prems"] by (auto simp: c_def s_def)
    have sc: "sides (b # bs) (Node l r) = s # sides bs c" "focus (b # bs) (Node l r) = focus bs c"
      by (auto simp: s_def c_def)
    have pd: "path_data th (b # bs) (Node l r) = path_data th bs c @ [tdata th (Node l r)]"
      by (simp add: path_data_Node c_def)
    note walk = node_set_walk [of th c bs]
    show ?case unfolding sc pd using IH dis root walk by auto
  qed auto
  then show "distinct (path_data th bs t)"
    and "\<forall>s\<in>set (sides bs t). set (path_data th bs t) \<inter> node_set th s = {}"
    and "set (path_data th bs t) \<inter> node_set th (focus bs t) = {}"
    and "\<forall>s\<in>set (sides bs t). node_set th (focus bs t) \<inter> node_set th s = {}"
    by auto
qed

lemma new_data_notin:
  assumes "wf_th th" "pathSize th = n" "collision_free th S"
    "wf_tree n p t" "wf_tree n q t'" "preimages th t \<subseteq> S" "preimages th t' \<subseteq> S"
    "s \<in> subs t'" "tmap s k = Some v" "tmap t k \<noteq> Some v"
  shows "tdata th s \<notin> node_set th t"
proof
  assume "tdata th s \<in> node_set th t"
  then obtain u where u: "u \<in> subs t" "tdata th s = tdata th u" by (auto simp: node_set_subs)
  obtain q1 q2 where q: "wf_tree n q1 s" "wf_tree n q2 u"
    using subs_wf assms(4,5,8) u(1) by blast
  have "s = u"
    using tdata_inject [OF assms(1-3) q] u assms(6,7,8) subs_preimages subs_nonempty by blast
  then show False
    using subs_tmap [OF assms(4) u(1)] assms(9,10) by (auto simp: map_le_def dom_def)
qed

end
