(* ===== verification/SMTWalk.thy ===== *)
theory SMTWalk
  imports SMTModel MerkleHash
begin

text \<open>
  The loops of \<open>src/smt.go\<close> on a content-addressed node store. \<open>cas th m D\<close> says that the map \<open>m\<close>
  holds exactly the byte strings \<open>D\<close>, each under its digest. The locale \<open>smt_stores\<close> is the
  interface between the tree and its two MapStores: both meet the MapStore contract, digests are
  accepted as keys and node data as node values. Its lemmas say what the walk down, the deletion
  of the orphaned path and the two climbs do to the store, for any siblings, so they apply to
  complete trees and to partial ones alike.
\<close>

section \<open>Content-addressed stores\<close>

definition cas :: "treeHasher \<Rightarrow> (bytes \<rightharpoonup> bytes) \<Rightarrow> bytes set \<Rightarrow> bool" where
  "cas th m D \<longleftrightarrow> (\<forall>h d. m h = Some d \<longleftrightarrow> d \<in> D \<and> h = H th d)"

lemma cas_empty [simp]: "cas th Map.empty {}"
  by (simp add: cas_def)

lemma cas_get: "cas th m D \<Longrightarrow> d \<in> D \<Longrightarrow> m (H th d) = Some d"
  by (simp add: cas_def)

lemma cas_set:
  assumes "cas th m D" "collision_free th S" "D \<subseteq> S" "d \<in> S"
  shows "cas th (m(H th d \<mapsto> d)) (insert d D)"
  using assms collision_freeD [OF assms(2)] by (auto simp: cas_def)

lemma cas_del: "cas th m D \<Longrightarrow> d \<in> D \<Longrightarrow> cas th (m(H th d := None)) (D - {d})"
  by (auto simp: cas_def) (metis option.inject)

lemma cas_placeholder:
  assumes "cas th m D" "collision_free th S" "D \<subseteq> S"
  shows "m (placeholder th) = None"
  using assms placeholder_neq [OF assms(2)] by (cases "m (placeholder th)") (auto simp: cas_def)

section \<open>Where a walk ends\<close>

text \<open>The walk ends at a placeholder (no leaf) or at the hash of a stored leaf.\<close>

definition walk_end :: "treeHasher \<Rightarrow> (bytes \<rightharpoonup> bytes) \<Rightarrow> bytes \<Rightarrow> bytes option \<Rightarrow> bool" where
  "walk_end th m h leaf \<longleftrightarrow>
     (h = placeholder th \<and> leaf = None) \<or>
     (h \<noteq> placeholder th \<and> (\<exists>d. m h = Some d \<and> isLeaf th d = Inr True \<and> leaf = Some d))"

lemma climb_last:
  "hs \<noteq> [] \<Longrightarrow> length hs \<le> length bs \<Longrightarrow> climb th bs hs h = H th (last (climb_list th bs hs h))"
  by (cases bs; cases hs) (auto simp: Let_def)

lemma climb_list_nonempty:
  "hs \<noteq> [] \<Longrightarrow> length hs \<le> length bs \<Longrightarrow> climb_list th bs hs h \<noteq> []"
  by (cases bs; cases hs) (auto simp: Let_def)

lemma climb_list_node:
  "d \<in> set (climb_list th bs hs h) \<Longrightarrow> \<exists>l r. d = node_data l r"
  by (induction th bs hs h rule: climb_list.induct) (auto simp: Let_def split: if_splits)

lemma climb_list_length:
  assumes "wf_th th" "\<forall>h\<in>set hs. length h = pathSize th" "length h0 = pathSize th"
  shows "d \<in> set (climb_list th bs hs h0) \<Longrightarrow> length d = 2 * pathSize th + 1"
  using assms
  by (induction th bs hs h0 rule: climb_list.induct)
     (auto simp: Let_def node_data_def split: if_splits)

text \<open>The siblings the climb of an insertion meets: the stored ones, padded with placeholders to
  the depth where the two leaves split.\<close>

definition pad_sides :: "treeHasher \<Rightarrow> nat \<Rightarrow> nat \<Rightarrow> bytes list \<Rightarrow> bytes list" where
  "pad_sides th D cpc hs =
     hs @ replicate ((if cpc = D then 0 else cpc) - length hs) (placeholder th)"

lemma update_side_eq:
  assumes "r \<le> D" "0 < r" "length hs \<le> D"
  shows "update_side th D (rev (map Some hs)) cpc (D - r) =
    Inr (if r - 1 < length (pad_sides th D cpc hs) then Some (pad_sides th D cpc hs ! (r - 1))
         else None)"
proof (cases "r \<le> length hs")
  case True
  have "rev (map Some hs) ! (length hs - r) = Some (hs ! (r - 1))"
    using True assms(2) by (simp add: rev_nth Suc_diff_le)
  moreover have "nat (int (D - r) - (int D - int (length hs))) = length hs - r"
    using True assms(1) by simp
  ultimately show ?thesis
    using True assms by (simp add: update_side_def Let_def nth_append pad_sides_def)
next
  case False
  then have "int (D - r) - (int D - int (length hs)) < 0" using assms(1) by simp
  then show ?thesis
    using False assms by (auto simp: update_side_def Let_def nth_append pad_sides_def)
qed

lemma climb_bind:
  assumes "wf_th th" "i < 8 * length path" "nodes_Set nI (H th d) d smt = (Inr (), smt')"
    "d = (if bits path ! i then node_data h c else node_data c h)"
  shows "bindS (liftS (getBitAtFromMSB path i)) (\<lambda>b.
      case (if b = right then digestNodeInto th dst h c else digestNodeInto th dst c h) of
        (h', d') \<Rightarrow> bindS (nodes_Set nI h' d') (\<lambda>_. k h')) smt = k (H th d) smt'"
  using assms by (cases "bits path ! i") (simp_all add: right_def getBitAtFromMSB_bit)

text \<open>Unfolding one iteration of the climb of a deletion.\<close>

lemma delete_loop_skip:
  "delete_loop nI th sc path m i (Some (placeholder th) # sns) turn cH (Some c) False =
   delete_loop nI th sc path m (i + 1) sns turn cH (Some c) False"
  by (rule ext) (simp add: go_bytes_def bindS_def)

lemma delete_loop_step:
  "np \<or> h \<noteq> placeholder th \<Longrightarrow>
   delete_loop nI th sc path m i (Some h # sns) turn cH (Some c) np =
   bindS (liftS (getBitAtFromMSB path (m - 1 - i))) (\<lambda>b.
     let (h', d') = (if b = right then digestNodeInto th (hashBufs sc turn) h c
                     else digestNodeInto th (hashBufs sc turn) c h)
     in bindS (nodes_Set nI h' d') (\<lambda>_.
          delete_loop nI th sc path m (i + 1) sns (1 - turn) (Some h') (Some h') True))"
  by (rule ext) (auto simp: go_bytes_def bindS_def)

lemma delete_loop_leaf:
  "nodes_Get nI smt h = Inr d \<Longrightarrow> isLeaf th d = Inr True \<Longrightarrow>
   delete_loop nI th sc path m i (Some h # sns) turn cH None np smt =
   delete_loop nI th sc path m (i + 1) sns turn (Some h) (Some h) np smt"
  by (simp add: go_bytes_def bindS_def)

lemma delete_loop_inner:
  "nodes_Get nI smt h = Inr d \<Longrightarrow> isLeaf th d = Inr False \<Longrightarrow>
   delete_loop nI th sc path m i (Some h # sns) turn cH None np smt =
   delete_loop nI th sc path m i (Some h # sns) turn cH (Some (placeholder th)) True smt"
  by (simp add: go_bytes_def bindS_def)

section \<open>The interface between a tree and its stores\<close>

locale smt_stores =
  N: map_store nI absn roomn okkn okvn + V: map_store vI absv roomv okkv okvv
  for nI :: "'n MapStore" and absn roomn okkn okvn
    and vI :: "'v MapStore" and absv roomv okkv okvv +
  fixes n :: nat
  assumes node_key: "length h = n \<Longrightarrow> okkn h"
    and value_key: "length h = n \<Longrightarrow> okkv h"
    and node_val: "length d = 2 * n + 1 \<Longrightarrow> okvn d"
begin

lemma nodes_Get_Some:
  "roomn b (smt_nodes smt) \<Longrightarrow> length h = n \<Longrightarrow> absn (smt_nodes smt) h = Some d \<Longrightarrow>
   nodes_Get nI smt h = Inr d"
  by (simp add: nodes_Get_def N.get_Some node_key)

lemma fill_loop_walk:
  assumes th: "wf_th th" "pathSize th = n" "smt_th smt = th" "length path = n"
    and room: "roomn b (smt_nodes smt)"
    and store: "\<forall>d\<in>set (climb_list th bs hs h0).
      absn (smt_nodes smt) (H th d) = Some d \<and> H th d \<noteq> placeholder th"
    and lens: "\<forall>h\<in>set hs. length h = n" "length h0 = n"
    and bs: "bs = drop i (bits path)" "hs \<noteq> []" "length hs \<le> length bs"
    and fin: "walk_end th (absn (smt_nodes smt)) h0 leaf"
  shows "fill_loop nI smt path [i..<n * 8] ps (last (climb_list th bs hs h0)) sn =
    Inr (ps\<lparr>sideNodes := sideNodes ps @ map Some hs,
            pathNodes := pathNodes ps @ rev (map (H th) (climb_list th (tl bs) (tl hs) h0)) @ [h0]\<rparr>,
         leaf, last hs)"
  using bs lens(1) store
proof (induction hs arbitrary: i bs ps sn)
  case (Cons h hs)
  then obtain bs' where bs': "bs = bits path ! i # bs'" "bs' = drop (Suc i) (bits path)"
    by (metis Cons_nth_drop_Suc drop_all leI length_0_conv length_Cons list.size(3) not_less_eq_eq
        zero_le)
  have i: "i < 8 * n"
    using bs' Cons.prems(1) length_drop [of i "bits path"] th(4) by (cases "i < 8 * n") auto
  let ?c = "climb th bs' hs h0"
  have c: "length ?c = n" using th lens(2) by (simp flip: th(2))
  have bit: "getBitAtFromMSB path i = Inr (of_bool (bits path ! i))"
    using i th(4) by (simp add: getBitAtFromMSB_bit)
  have upt: "[i..<n * 8] = i # [Suc i..<n * 8]" using i by (simp add: upt_conv_Cons)
  have top: "last (climb_list th bs (h # hs) h0) =
      (if bits path ! i then node_data h ?c else node_data ?c h)"
    by (simp add: bs' Let_def)
  have tl: "climb_list th (tl bs) (tl (h # hs)) h0 = climb_list th bs' hs h0"
    by (simp add: bs')
  have lens': "length h = n" using Cons.prems by simp
  show ?case
  proof (cases "hs = []")
    case True
    then have c0: "?c = h0" and cl0: "climb_list th bs' hs h0 = []" by (cases bs'; simp)+
    show ?thesis
    proof (cases "h0 = placeholder th")
      case ph: True
      then have "leaf = None" using fin by (simp add: walk_end_def)
      then show ?thesis
        using th bit c lens' True ph unfolding upt top tl c0 cl0
        by (cases "bits path ! i") (simp_all add: right_def del: upt_Suc)
    next
      case False
      then obtain d where d: "absn (smt_nodes smt) h0 = Some d" "isLeaf th d = Inr True" "leaf = Some d"
        using fin by (auto simp: walk_end_def)
      have "nodes_Get nI smt h0 = Inr d" using room lens(2) d(1) by (rule nodes_Get_Some)
      then show ?thesis
        using th bit c lens' True False d unfolding upt top tl c0 cl0
        by (cases "bits path ! i") (simp_all add: right_def del: upt_Suc)
    qed
  next
    case False
    let ?d = "last (climb_list th bs' hs h0)"
    have len: "length hs \<le> length bs'" using Cons.prems bs' by simp
    have d: "?d \<in> set (climb_list th bs' hs h0)" "?c = H th ?d"
      using climb_list_nonempty climb_last False len by auto
    have sub: "set (climb_list th bs' hs h0) \<subseteq> set (climb_list th bs (h # hs) h0)"
      by (auto simp: bs' Let_def)
    have get: "nodes_Get nI smt ?c = Inr ?d" "?c \<noteq> placeholder th"
      using Cons.prems(5) d sub room c by (auto intro!: nodes_Get_Some)
    have leaf: "isLeaf th ?d = Inr False" using climb_list_node [OF d(1)] by auto
    have IH: "fill_loop nI smt path [Suc i..<n * 8] ps' ?d sn' =
      Inr (ps'\<lparr>sideNodes := sideNodes ps' @ map Some hs,
            pathNodes := pathNodes ps' @ rev (map (H th) (climb_list th (tl bs') (tl hs) h0)) @ [h0]\<rparr>,
         leaf, last hs)" for ps' sn'
      using Cons.prems(4,5) sub False len bs'(2) by (intro Cons.IH) auto
    have cl: "climb_list th bs' hs h0 = climb_list th (tl bs') (tl hs) h0 @ [?d]"
      using False len by (cases bs'; cases hs) (auto simp: Let_def)
    have eq: "rev (map (H th) (climb_list th bs' hs h0)) =
        ?c # rev (map (H th) (climb_list th (tl bs') (tl hs) h0))"
      by (subst cl) (simp add: d(2))
    show ?thesis
      using th bit c lens' get leaf IH eq False unfolding upt top tl
      by (cases "bits path ! i") (simp_all add: right_def del: upt_Suc)
  qed
qed simp

lemma fillSideNodes_walk:
  assumes th: "wf_th th" "pathSize th = n" "smt_th smt = th" "length path = n"
    and room: "roomn b (smt_nodes smt)"
    and store: "\<forall>d\<in>set (climb_list th (bits path) hs h0).
      absn (smt_nodes smt) (H th d) = Some d \<and> H th d \<noteq> placeholder th"
    and lens: "\<forall>h\<in>set hs. length h = n" "length h0 = n" "length hs \<le> 8 * n"
    and fin: "walk_end th (absn (smt_nodes smt)) h0 leaf"
    and root: "root = climb th (bits path) hs h0"
    and sib: "if g \<and> hs \<noteq> [] then \<exists>d. absn (smt_nodes smt) (last hs) = Some d \<and> sd = Some d
      else sd = None"
  shows "fillSideNodes nI smt newPathSlices path root g =
    Inr (\<lparr>sideNodes = rev (map Some hs),
          pathNodes = h0 # map (H th) (climb_list th (bits path) hs h0)\<rparr>, leaf, sd)"
proof (cases "hs = []")
  case True
  then have "root = h0" using root by (cases "bits path") auto
  then show ?thesis
    using True fin th room lens sib unfolding walk_end_def
    by (cases "bits path") (auto simp: fillSideNodes_def newPathSlices_def nodes_Get_Some)
next
  case False
  have len: "length hs \<le> length (bits path)" using lens th by simp
  let ?cl = "climb_list th (bits path) hs h0"
  have last: "root = H th (last ?cl)" "last ?cl \<in> set ?cl"
    using root climb_last [OF False len] climb_list_nonempty [OF False len] by auto
  have get: "nodes_Get nI smt root = Inr (last ?cl)" "root \<noteq> placeholder th"
    using store last room th by (auto intro!: nodes_Get_Some)
  have leaf: "isLeaf th (last ?cl) = Inr False" using climb_list_node [OF last(2)] by auto
  have cl: "?cl = climb_list th (tl (bits path)) (tl hs) h0 @ [last ?cl]"
    using False len by (cases "bits path"; cases hs) (auto simp: Let_def)
  have pn: "rev (root # rev (map (H th) (climb_list th (tl (bits path)) (tl hs) h0)) @ [h0]) =
      h0 # map (H th) ?cl"
    by (subst cl) (simp add: last(1))
  have loop: "fill_loop nI smt path [0..<n * 8] \<lparr>sideNodes = [], pathNodes = [root]\<rparr> (last ?cl) [] =
    Inr (\<lparr>sideNodes = map Some hs,
          pathNodes = root # rev (map (H th) (climb_list th (tl (bits path)) (tl hs) h0)) @ [h0]\<rparr>,
         leaf, last hs)"
    using fill_loop_walk [OF th room store lens(1,2) _ False len fin, of 0] by simp
  have sd: "(if g then bindR (nodes_Get nI smt (last hs)) (\<lambda>d. Inr (Some d)) else Inr None) = Inr sd"
    using sib False room lens(1) by (auto simp: nodes_Get_Some split: if_splits)
  show ?thesis
    using get leaf loop sd th pn
    by (simp add: fillSideNodes_def newPathSlices_def depth_def reverseByteSlicesInPlace_rev rev_map
        del: rev.simps)
qed

section \<open>Store mutations\<close>

lemma nodes_Set_ok:
  assumes "wf_th th" "pathSize th = n" "roomn (Suc b) (smt_nodes smt)"
    "cas th (absn (smt_nodes smt)) D" "collision_free th S" "D \<subseteq> S" "d \<in> S" "length d = 2 * n + 1"
  obtains s where "nodes_Set nI (H th d) d smt = (Inr (), smt\<lparr>smt_nodes := s\<rparr>)" "roomn b s"
    "cas th (absn s) (insert d D)"
proof -
  obtain s where s: "ms_Set nI (smt_nodes smt) (H th d) d = (Inr (), s)"
    "absn s = (absn (smt_nodes smt))(H th d \<mapsto> d)" "roomn b s"
    using N.set_law [OF assms(3), of "H th d" d] node_key node_val assms(1,2,8) by auto
  show thesis
    using that [of s] s cas_set [OF assms(4-7)] by (simp add: nodes_Set_def)
qed

lemma nodes_Delete_ok:
  assumes "wf_th th" "pathSize th = n" "roomn b (smt_nodes smt)"
    "cas th (absn (smt_nodes smt)) D" "d \<in> D"
  obtains s where "nodes_Delete nI (H th d) smt = (Inr (), smt\<lparr>smt_nodes := s\<rparr>)" "roomn b s"
    "cas th (absn s) (D - {d})"
proof -
  obtain s where s: "ms_Delete nI (smt_nodes smt) (H th d) = (Inr (), s)"
    "absn s = (absn (smt_nodes smt))(H th d := None)" "roomn b s"
    using N.del_law [OF assms(3), of "H th d"] node_key cas_get [OF assms(4,5)] assms(1,2) by auto
  show thesis
    using that [of s] s cas_del [OF assms(4,5)] by (simp add: nodes_Delete_def)
qed

lemma delete_nodes_ok:
  assumes "wf_th th" "pathSize th = n" "roomn b (smt_nodes smt)"
    "cas th (absn (smt_nodes smt)) D" "distinct ds" "set ds \<subseteq> D"
  shows "\<exists>s. delete_nodes nI (map (H th) ds) smt = (Inr (), smt\<lparr>smt_nodes := s\<rparr>) \<and> roomn b s \<and>
    cas th (absn s) (D - set ds)"
  using assms(3-6)
proof (induction ds arbitrary: smt D)
  case Nil
  then show ?case by (intro exI [of _ "smt_nodes smt"]) simp
next
  case (Cons d ds)
  obtain s where s: "nodes_Delete nI (H th d) smt = (Inr (), smt\<lparr>smt_nodes := s\<rparr>)" "roomn b s"
    "cas th (absn s) (D - {d})"
    using nodes_Delete_ok [OF assms(1,2) Cons.prems(1,2), of d] Cons.prems(4) by auto
  obtain s' where s': "delete_nodes nI (map (H th) ds) (smt\<lparr>smt_nodes := s\<rparr>) =
      (Inr (), smt\<lparr>smt_nodes := s'\<rparr>)" "roomn b s'" "cas th (absn s') (D - {d} - set ds)"
    using Cons.IH [of "smt\<lparr>smt_nodes := s\<rparr>" "D - {d}"] s Cons.prems(3,4) by auto
  have "D - {d} - set ds = D - set (d # ds)" by auto
  then show ?case using s s' by auto
qed

text \<open>One step of a climb: digest the two children and store the node.\<close>

lemma climb_step:
  assumes "wf_th th" "pathSize th = n" "roomn (Suc b) (smt_nodes smt)"
    "cas th (absn (smt_nodes smt)) D" "collision_free th S" "D \<subseteq> S"
    "length h = n" "length c = n"
    "d = (if x then node_data h c else node_data c h)" "d \<in> S"
  obtains s where "nodes_Set nI (H th d) d smt = (Inr (), smt\<lparr>smt_nodes := s\<rparr>)" "roomn b s"
    "cas th (absn s) (insert d D)"
proof -
  have "length d = 2 * n + 1" using assms(7-9) by (simp add: node_data_def)
  then show thesis using nodes_Set_ok [OF assms(1-6,10)] that by blast
qed

section \<open>The climb of an insertion\<close>

lemma update_loop_climb:
  assumes th: "wf_th th" "pathSize th = n" "length path = n"
    and hs: "length hs \<le> 8 * n" "\<forall>h\<in>set hs. length h = n" "cpc \<le> 8 * n"
    and cf: "collision_free th S"
    and hs': "hs' = pad_sides th (8 * n) cpc hs"
    and st: "roomn (b + min r (length hs')) (smt_nodes smt)" "cas th (absn (smt_nodes smt)) D"
    and S: "D \<subseteq> S" "set (climb_list th (bits path) (take r hs') c) \<subseteq> S"
    and r: "r \<le> 8 * n" and c: "length c = n"
  shows "\<exists>s. update_loop nI th sc path (8 * n) (rev (map Some hs)) cpc [8 * n - r..<8 * n] turn c smt =
      (Inr (climb th (bits path) (take r hs') c), smt\<lparr>smt_nodes := s\<rparr>) \<and> roomn b s \<and>
      cas th (absn s) (D \<union> set (climb_list th (bits path) (take r hs') c))"
  using st S r c
proof (induction r arbitrary: smt D turn c)
  case 0
  then show ?case
    by (intro exI [of _ "smt_nodes smt"]) (cases "bits path"; simp)
next
  case (Suc r)
  let ?i = "8 * n - Suc r"
  have upt: "[?i..<8 * n] = ?i # [8 * n - r..<8 * n]"
    using Suc.prems(5) by (simp add: upt_conv_Cons Suc_diff_Suc)
  have side: "update_side th (8 * n) (rev (map Some hs)) cpc ?i =
      Inr (if r < length hs' then Some (hs' ! r) else None)"
    using update_side_eq [of "Suc r" "8 * n" hs th cpc] Suc.prems(5) hs(1) by (simp add: hs')
  show ?case
  proof (cases "r < length hs'")
    case False
    then have tk: "take (Suc r) hs' = take r hs'" "min (Suc r) (length hs') = min r (length hs')"
      by simp_all
    show ?thesis
      using Suc.IH [of smt D c turn] Suc.prems False side unfolding upt tk by simp
  next
    case True
    have h: "length (hs' ! r) = n"
      using True hs(2) th(1,2) by (auto simp: hs' pad_sides_def nth_append)
    have tk: "take (Suc r) hs' = take r hs' @ [hs' ! r]" using True by (rule take_Suc_conv_app_nth)
    define d where "d = (if bits path ! r then node_data (hs' ! r) c else node_data c (hs' ! r))"
    have lt: "length (take r hs') < length (bits path)" "length (take r hs') = r"
      using Suc.prems(5) th(3) True by simp_all
    have cl: "climb_list th (bits path) (take (Suc r) hs') c = d # climb_list th (bits path) (take r hs') (H th d)"
      and cm: "climb th (bits path) (take (Suc r) hs') c = climb th (bits path) (take r hs') (H th d)"
      using climb_list_snoc [OF lt(1)] climb_snoc [OF lt(1)] lt(2)
      by (simp_all add: tk d_def Let_def)
    have room: "roomn (Suc (b + min r (length hs'))) (smt_nodes smt)" "r < 8 * n"
      using Suc.prems(1,5) True by (simp_all add: min_def split: if_splits)
    have dS: "d \<in> S" using Suc.prems(4) cl by simp
    obtain s where s: "nodes_Set nI (H th d) d smt = (Inr (), smt\<lparr>smt_nodes := s\<rparr>)"
      "roomn (b + min r (length hs')) s" "cas th (absn s) (insert d D)"
      by (rule climb_step [OF th(1,2) room(1) Suc.prems(2) cf Suc.prems(3) h Suc.prems(6) d_def dS])
    have bnd: "r < 8 * length path" using room(2) th(3) by simp
    obtain s' where s':
      "update_loop nI th sc path (8 * n) (rev (map Some hs)) cpc [8 * n - r..<8 * n] (1 - turn)
         (H th d) (smt\<lparr>smt_nodes := s\<rparr>) =
       (Inr (climb th (bits path) (take r hs') (H th d)), smt\<lparr>smt_nodes := s'\<rparr>)" "roomn b s'"
      "cas th (absn s') (insert d D \<union> set (climb_list th (bits path) (take r hs') (H th d)))"
      using Suc.IH [of "smt\<lparr>smt_nodes := s\<rparr>" "insert d D" "H th d" "1 - turn"] s Suc.prems dS cl th
      by auto
    have lvl: "8 * n - 1 - ?i = r" using Suc.prems(5) by simp
    show ?thesis
      using s' True side lvl unfolding upt
      by (intro exI [of _ s']) (simp add: cl cm climb_bind [OF th(1) bnd s(1) d_def])
  qed
qed

section \<open>The climb of a deletion\<close>

lemma delete_loop_climb:
  assumes th: "wf_th th" "pathSize th = n" "length path = n"
    and cf: "collision_free th S"
    and hs: "length hs \<le> 8 * n" "\<forall>h\<in>set hs. length h = n"
    and st: "roomn (b + length hs) (smt_nodes smt)" "cas th (absn (smt_nodes smt)) D"
    and S: "D \<subseteq> S" "set (climb_list th (bits path) hs c) \<subseteq> S"
    and c: "length c = n" and m: "m - i = length hs" "i \<le> m"
  shows "\<exists>s. delete_loop nI th sc path m i (rev (map Some hs)) turn cH (Some c) True smt =
      (Inr (if hs = [] then cH else Some (climb th (bits path) hs c)), smt\<lparr>smt_nodes := s\<rparr>) \<and>
      roomn b s \<and> cas th (absn s) (D \<union> set (climb_list th (bits path) hs c))"
  using hs st S c m
proof (induction hs arbitrary: smt D turn c cH i rule: rev_induct)
  case Nil
  then show ?case by (intro exI [of _ "smt_nodes smt"]) (cases "bits path"; simp)
next
  case (snoc h hs)
  define d where "d = (if bits path ! length hs then node_data h c else node_data c h)"
  have lt: "length hs < length (bits path)" "length hs < 8 * n"
    using snoc.prems(1) th(3) by simp_all
  have cl: "climb_list th (bits path) (hs @ [h]) c = d # climb_list th (bits path) hs (H th d)"
    and cm: "climb th (bits path) (hs @ [h]) c = climb th (bits path) hs (H th d)"
    using climb_list_snoc [OF lt(1)] climb_snoc [OF lt(1)] by (simp_all add: d_def Let_def)
  have lens: "length h = n" "length (H th d) = n" using snoc.prems(2) th by auto
  have room: "roomn (Suc (b + length hs)) (smt_nodes smt)" using snoc.prems(3) by simp
  have dS: "d \<in> S" using snoc.prems(6) cl by simp
  have lvl: "m - 1 - i = length hs" "m - (i + 1) = length hs" "i + 1 \<le> m" "m - Suc i = length hs"
    using snoc.prems(8,9) by auto
  obtain s where s: "nodes_Set nI (H th d) d smt = (Inr (), smt\<lparr>smt_nodes := s\<rparr>)"
    "roomn (b + length hs) s" "cas th (absn s) (insert d D)"
    by (rule climb_step [OF th(1,2) room snoc.prems(4) cf snoc.prems(5) lens(1) snoc.prems(7)
          d_def dS])
  have bnd: "length hs < 8 * length path" using lt(2) th(3) by simp
  obtain s' where s':
    "delete_loop nI th sc path m (i + 1) (rev (map Some hs)) (1 - turn) (Some (H th d))
       (Some (H th d)) True (smt\<lparr>smt_nodes := s\<rparr>) =
     (Inr (if hs = [] then Some (H th d) else Some (climb th (bits path) hs (H th d))),
      smt\<lparr>smt_nodes := s'\<rparr>)" "roomn b s'"
    "cas th (absn s') (insert d D \<union> set (climb_list th (bits path) hs (H th d)))"
    using snoc.IH [of "smt\<lparr>smt_nodes := s\<rparr>" "insert d D" "H th d" "i + 1" "1 - turn" "Some (H th d)"]
      s snoc.prems dS cl lens lvl by auto
  have nil: "hs = [] \<Longrightarrow> climb th (bits path) hs (H th d) = H th d" by (cases "bits path") auto
  have "delete_loop nI th sc path m i (rev (map Some (hs @ [h]))) turn cH (Some c) True smt =
      (Inr (Some (climb th (bits path) hs (H th d))), smt\<lparr>smt_nodes := s'\<rparr>)"
    using s'(1) nil
    by (simp add: delete_loop_step lvl climb_bind [OF th(1) bnd s(1) d_def] del: delete_loop.simps)
  then show ?case
    using s'(2,3) by (intro exI [of _ s']) (simp add: cl cm)
qed

text \<open>A bubbled-up leaf passes the placeholders above it before the climb starts.\<close>

definition hstrip :: "treeHasher \<Rightarrow> bytes list \<Rightarrow> bytes list" where
  "hstrip th hs = rev (dropWhile (\<lambda>h. h = placeholder th) (rev hs))"

lemma hstrip_simps [simp]:
  "hstrip th [] = []"
  "hstrip th (hs @ [h]) = (if h = placeholder th then hstrip th hs else hs @ [h])"
  by (simp_all add: hstrip_def)

lemma hstrip_length: "length (hstrip th hs) \<le> length hs"
  using length_dropWhile_le [of "\<lambda>h. h = placeholder th" "rev hs"] by (simp add: hstrip_def)

lemma delete_loop_bubble:
  assumes th: "wf_th th" "pathSize th = n" "length path = n"
    and cf: "collision_free th S"
    and hs: "length hs \<le> 8 * n" "\<forall>h\<in>set hs. length h = n"
    and st: "roomn (b + length hs) (smt_nodes smt)" "cas th (absn (smt_nodes smt)) D"
    and S: "D \<subseteq> S" "set (climb_list th (bits path) (hstrip th hs) c) \<subseteq> S"
    and c: "length c = n" and m: "m - i = length hs" "i \<le> m"
  shows "\<exists>s. delete_loop nI th sc path m i (rev (map Some hs)) turn (Some c) (Some c) False smt =
      (Inr (Some (climb th (bits path) (hstrip th hs) c)), smt\<lparr>smt_nodes := s\<rparr>) \<and>
      roomn b s \<and> cas th (absn s) (D \<union> set (climb_list th (bits path) (hstrip th hs) c))"
  using hs st S m
proof (induction hs arbitrary: i rule: rev_induct)
  case Nil
  then show ?case by (intro exI [of _ "smt_nodes smt"]) (cases "bits path"; simp)
next
  case (snoc h hs)
  show ?case
  proof (cases "h = placeholder th")
    case True
    have "\<exists>s. delete_loop nI th sc path m (i + 1) (rev (map Some hs)) turn (Some c) (Some c) False smt =
      (Inr (Some (climb th (bits path) (hstrip th hs) c)), smt\<lparr>smt_nodes := s\<rparr>) \<and>
      roomn b s \<and> cas th (absn s) (D \<union> set (climb_list th (bits path) (hstrip th hs) c))"
      using snoc.prems True by (intro snoc.IH) (auto intro: N.room_mono)
    then show ?thesis using True by (simp only: map_append rev_append list.map rev.simps append_Nil
        append_Cons delete_loop_skip hstrip_simps if_True simp_thms)
  next
    case False
    have eq: "delete_loop nI th sc path m i (rev (map Some (hs @ [h]))) turn (Some c) (Some c) False smt =
      delete_loop nI th sc path m i (rev (map Some (hs @ [h]))) turn (Some c) (Some c) True smt"
      using False by (simp add: delete_loop_step del: delete_loop.simps)
    show ?thesis
      using delete_loop_climb [OF th cf snoc.prems(1-4), of c m i sc turn "Some c"] snoc.prems(5-8)
        False c unfolding eq by simp
  qed
qed

end

end
