(* ===== verification/SMTCorrect.thy ===== *)
theory SMTCorrect
  imports SMTWalk
begin

text \<open>
  Refinement: the sparse Merkle tree of \<open>src/smt.go\<close> implements the canonical trees of
  \<open>MerkleTree\<close>. \<open>represents\<close> is the simulation relation: the root is the hash of the tree, the node
  store holds exactly the data of its nodes (no orphan, nothing missing), the value store is
  exactly its map. The lemmas of the locale say that Update and Delete keep the relation and act
  as \<open>tupdate\<close>, that the walk finds the right leaf, and that Get reads the map. They are proved for
  stores that hold part of a tree (\<open>partial_rep\<close>), as in a deep subtree, as long as the branch of
  the key is there; a complete tree is the special case of a store that holds every node.
\<close>

definition represents :: "('n \<Rightarrow> bytes \<rightharpoonup> bytes) \<Rightarrow> ('v \<Rightarrow> bytes \<rightharpoonup> bytes) \<Rightarrow>
    ('n, 'v) SparseMerkleTree \<Rightarrow> mtree \<Rightarrow> bool" where
  "represents absn absv smt t \<longleftrightarrow>
     wf_th (smt_th smt) \<and> wf_tree (pathSize (smt_th smt)) [] t \<and>
     smt_root smt = thash (smt_th smt) t \<and>
     cas (smt_th smt) (absn (smt_nodes smt)) (node_set (smt_th smt) t) \<and>
     absv (smt_values smt) = tmap t"

lemma representsD:
  assumes "represents absn absv smt t"
  shows "wf_th (smt_th smt)" "wf_tree (pathSize (smt_th smt)) [] t"
    "smt_root smt = thash (smt_th smt) t"
    "cas (smt_th smt) (absn (smt_nodes smt)) (node_set (smt_th smt) t)"
    "absv (smt_values smt) = tmap t"
  using assms by (simp_all add: represents_def)

definition partial_rep :: "('n \<Rightarrow> bytes \<rightharpoonup> bytes) \<Rightarrow> ('v \<Rightarrow> bytes \<rightharpoonup> bytes) \<Rightarrow> bytes set \<Rightarrow>
    ('n, 'v) SparseMerkleTree \<Rightarrow> mtree \<Rightarrow> bool" where
  "partial_rep absn absv D smt t \<longleftrightarrow>
     wf_th (smt_th smt) \<and> wf_tree (pathSize (smt_th smt)) [] t \<and>
     smt_root smt = thash (smt_th smt) t \<and>
     cas (smt_th smt) (absn (smt_nodes smt)) D \<and> D \<subseteq> node_set (smt_th smt) t \<and>
     absv (smt_values smt) \<subseteq>\<^sub>m tmap t"

lemma partial_repD:
  assumes "partial_rep absn absv D smt t"
  shows "wf_th (smt_th smt)" "wf_tree (pathSize (smt_th smt)) [] t"
    "smt_root smt = thash (smt_th smt) t"
    "cas (smt_th smt) (absn (smt_nodes smt)) D" "D \<subseteq> node_set (smt_th smt) t"
    "absv (smt_values smt) \<subseteq>\<^sub>m tmap t"
  using assms by (simp_all add: partial_rep_def)

lemma represents_partial:
  "represents absn absv smt t \<Longrightarrow> partial_rep absn absv (node_set (smt_th smt) t) smt t"
  by (simp add: represents_def partial_rep_def)

text \<open>The data of the leaf a walk ends in.\<close>

fun focus_data :: "treeHasher \<Rightarrow> mtree \<Rightarrow> bytes option" where
  "focus_data th (Leaf k v) = Some (leaf_data th k v)"
| "focus_data th _ = None"

lemma focus_preimages: "preimages th (focus bs t) \<subseteq> preimages th t"
  by (induction bs t rule: focus.induct) auto

lemma sides_preimages: "s \<in> set (sides bs t) \<Longrightarrow> preimages th s \<subseteq> preimages th t"
  by (induction bs t rule: sides.induct) (auto split: if_splits)

lemma path_data_node_set: "set (path_data th bs t) \<subseteq> node_set th t"
  using node_set_walk [of th t bs] by auto

lemma placeholder_thash:
  assumes "collision_free th S" "preimages th t \<subseteq> S"
  shows "thash th t = placeholder th \<longleftrightarrow> t = Empty"
  using assms collision_free_placeholder [OF assms(1)] by (cases t) auto

lemma focus_tmap: "wf_tree n p t \<Longrightarrow> bits k = p @ bs \<Longrightarrow> tmap t k = tmap (focus bs t) k"
proof (induction bs t arbitrary: p rule: focus.induct)
  case (1 b bs l r)
  have "tmap (Node l r) k = tmap (if b then r else l) k"
    using tmap_Node [OF "1.prems"(1), of k] "1.prems"(2) by (simp add: nth_append bits_append_less)
  also have "\<dots> = tmap (focus bs (if b then r else l)) k"
    using "1.IH" [of "p @ [b]"] "1.prems" by (cases b) auto
  finally show ?case by (simp del: tmap.simps)
qed auto

lemma subs_plug: "length ss \<le> length bs \<Longrightarrow> subs f \<subseteq> subs (plug bs ss f)"
  by (induction bs ss f rule: plug.induct) auto

lemma path_data_leaf [simp]: "leaf_data th k v \<notin> set (path_data th bs t)"
  using climb_list_node by (fastforce simp: path_data_def)

lemma length_leaf_data [simp]:
  "wf_th th \<Longrightarrow> length (leaf_data th k v) = Suc (length k + pathSize th)"
  by (simp add: leaf_data_def)

text \<open>The branch of a path: the nodes along it and the leaf it ends in; beside it the last sibling.\<close>

definition branch_nodes :: "treeHasher \<Rightarrow> bool list \<Rightarrow> mtree \<Rightarrow> bytes set" where
  "branch_nodes th bs t = set (path_data th bs t) \<union> set_option (focus_data th (focus bs t))"

definition sibling_nodes :: "treeHasher \<Rightarrow> bool list \<Rightarrow> mtree \<Rightarrow> bytes set" where
  "sibling_nodes th bs t = (if sides bs t = [] then {} else {tdata th (last (sides bs t))})"

lemma branch_nodes_sub: "branch_nodes th bs t \<subseteq> node_set th t"
proof -
  have "set_option (focus_data th (focus bs t)) \<subseteq> node_set th (focus bs t)" by (cases "focus bs t") auto
  then show ?thesis using node_set_walk [of th t bs] by (auto simp: branch_nodes_def)
qed

lemma branch_nodes_simps [simp]:
  "branch_nodes th bs Empty = {}" "branch_nodes th bs (Leaf k v) = {leaf_data th k v}"
  "branch_nodes th (b # bs) (Node l r) =
     insert (node_data (thash th l) (thash th r)) (branch_nodes th bs (if b then r else l))"
  by (cases bs; simp add: branch_nodes_def path_data_Node)+

text \<open>The branch of a key is in the store, with what an update or a deletion of the key needs.\<close>

definition branch_ready :: "('v \<Rightarrow> bytes \<rightharpoonup> bytes) \<Rightarrow> bytes set \<Rightarrow> ('n, 'v) SparseMerkleTree \<Rightarrow> mtree \<Rightarrow>
    bytes \<Rightarrow> bytes \<Rightarrow> bool" where
  "branch_ready absv D smt t k v \<longleftrightarrow> branch_nodes (smt_th smt) (bits k) t \<subseteq> D \<and>
     (tmap t k \<noteq> None \<longrightarrow> absv (smt_values smt) k = tmap t k \<and>
       (v = [] \<longrightarrow> sibling_nodes (smt_th smt) (bits k) t \<subseteq> D))"

text \<open>Which tree an insertion makes, by the leaf the walk ends in.\<close>

lemma tinsert_at_focus:
  assumes "focus (bits k) t = Empty \<or> (\<exists>v0. focus (bits k) t = Leaf k v0)"
  shows "tinsert (bits k) k v t = plug (bits k) (sides (bits k) t) (Leaf k v)"
  using tinsert_plug [of k "bits k" 0 v t] assms by auto

lemma tinsert_other:
  assumes "wf_tree n [] t" "length k = n" "focus (bits k) t = Leaf k' v'" "k \<noteq> k'"
  defines "c \<equiv> lcp_len (bits k) (bits k')" and "ss \<equiv> sides (bits k) t"
  shows "tinsert (bits k) k v t = plug (bits k) (ss @ replicate (c - length ss) Empty)
      (if bits k ! c then Node (Leaf k' v') (Leaf k v) else Node (Leaf k v) (Leaf k' v'))"
    and "length ss \<le> c" "c < 8 * n" "length k' = n"
proof -
  let ?m = "length ss"
  have m: "?m \<le> length (bits k)" unfolding ss_def by (rule length_sides_le)
  have wf: "wf_tree n (take ?m (bits k)) (Leaf k' v')"
    using wf_tree_focus [OF assms(1), of "bits k"] assms(3) by (simp add: ss_def)
  then show k': "length k' = n" by simp
  have pre: "bits k' = take ?m (bits k) @ drop ?m (bits k')"
    using wf m by (auto simp: prefix_def)
  have c: "c = ?m + lcp_len (drop ?m (bits k)) (drop ?m (bits k'))"
    using lcp_len_append [of "take ?m (bits k)" "drop ?m (bits k)" "drop ?m (bits k')"] pre m
    by (simp add: c_def)
  then show "length ss \<le> c" by simp
  have neq: "drop ?m (bits k) \<noteq> drop ?m (bits k')"
    using pre assms(4) by (metis append_take_drop_id bits_inject)
  show "c < 8 * n"
    using lcp_len_lt_neq [of "bits k" "bits k'"] assms(2,4) k' bits_inject [of k k'] by (simp add: c_def)
  have "tinsert (bits k) k v t = plug (bits k) ss
      (tsplit (drop ?m (bits k)) (drop ?m (bits k')) (Leaf k v) (Leaf k' v'))"
    using tinsert_plug [of k "bits k" 0 v t] assms(3,4) m by (simp add: ss_def)
  also have "\<dots> = plug (bits k) ss (plug (drop ?m (bits k)) (replicate (c - ?m) Empty)
      (if bits k ! c then Node (Leaf k' v') (Leaf k v) else Node (Leaf k v) (Leaf k' v')))"
    using tsplit_plug [OF _ neq] c m k' assms(2) by simp
  finally show "tinsert (bits k) k v t = plug (bits k) (ss @ replicate (c - length ss) Empty)
      (if bits k ! c then Node (Leaf k' v') (Leaf k v) else Node (Leaf k v) (Leaf k' v'))"
    using m by (simp add: plug_append)
qed

text \<open>The sibling of a leaf or of an empty subtree is never empty: the tree would not be canonical.\<close>

lemma last_side_nonempty:
  "wf_tree n p t \<Longrightarrow> \<not> is_Node (focus bs t) \<Longrightarrow> sides bs t \<noteq> [] \<Longrightarrow> last (sides bs t) \<noteq> Empty"
proof (induction bs t arbitrary: p rule: sides.induct)
  case (1 b bs l r)
  define c where "c = (if b then r else l)"
  define s where "s = (if b then l else r)"
  have sc: "sides (b # bs) (Node l r) = s # sides bs c" by (simp add: s_def c_def)
  have wf: "wf_tree n (p @ [b]) c" "\<not> is_Node (focus bs c)" using 1 by (auto simp: c_def)
  show ?case
  proof (cases "sides bs c = []")
    case True
    then have "\<not> is_Node c" using wf(2) plug_sides_focus [of bs c] by simp
    then have "s \<noteq> Empty"
      using "1.prems"(1) by (cases c) (auto simp: s_def c_def split: if_splits)
    then show ?thesis using True unfolding sc by simp
  next
    case False
    then have "last (sides bs c) \<noteq> Empty"
      using "1.IH"(1) [of "p @ [b]"] "1.IH"(2) [of "p @ [b]"] wf by (auto simp: c_def split: if_splits)
    then show ?thesis using False unfolding sc by simp
  qed
qed auto

lemma sibling_nodes_sub:
  assumes "wf_tree n [] t" "\<not> is_Node (focus bs t)"
  shows "sibling_nodes th bs t \<subseteq> node_set th t"
proof (cases "sides bs t = []")
  case False
  let ?u = "last (sides bs t)"
  have "?u \<noteq> Empty" using last_side_nonempty [OF assms False] .
  then have "tdata th ?u \<in> node_set th ?u" using subs_refl by (simp add: node_set_subs)
  then show ?thesis using node_set_walk [of th t bs] False by (auto simp: sibling_nodes_def)
qed (simp add: sibling_nodes_def)

text \<open>Unfolding an insertion, by the leaf the walk ended in.\<close>

lemma update_unfold_empty:
  assumes "wf_th (smt_th smt)" "pathSize (smt_th smt) = n"
    and "nodes_Set nI (H (smt_th smt) (leaf_data (smt_th smt) k v)) (leaf_data (smt_th smt) k v) smt =
      (Inr (), smt1)"
  shows "updateWithSideNodes nI vI sc k v sns (placeholder (smt_th smt) # pns) old smt =
    bindS (delete_nodes nI pns) (\<lambda>_.
    bindS (update_loop nI (smt_th smt) sc k (8 * n) sns (8 * n) [0..<8 * n] 1
      (H (smt_th smt) (leaf_data (smt_th smt) k v))) (\<lambda>h.
    bindS (values_Set vI k v) (\<lambda>_. returnS h))) smt1"
  using assms
  by (simp add: updateWithSideNodes_def depth_def mult.commute leaf_data_def Let_def)

lemma update_unfold_same:
  assumes "wf_th (smt_th smt)" "pathSize (smt_th smt) = n" "length k = n"
    "p0 \<noteq> placeholder (smt_th smt)"
    and "nodes_Set nI (H (smt_th smt) (leaf_data (smt_th smt) k v)) (leaf_data (smt_th smt) k v) smt =
      (Inr (), smt1)"
  shows "updateWithSideNodes nI vI sc k v sns (p0 # pns) (Some (leaf_data (smt_th smt) k v0)) smt =
    (if H (smt_th smt) v0 = H (smt_th smt) v then (Inr (smt_root smt1), smt1)
     else bindS (nodes_Delete nI p0) (\<lambda>_. bindS (values_Delete vI k) (\<lambda>_.
       bindS (delete_nodes nI pns) (\<lambda>_.
       bindS (update_loop nI (smt_th smt) sc k (8 * n) sns (8 * n) [0..<8 * n] 1
         (H (smt_th smt) (leaf_data (smt_th smt) k v))) (\<lambda>h.
       bindS (values_Set vI k v) (\<lambda>_. returnS h))))) smt1)"
  using assms
  by (simp add: updateWithSideNodes_def depth_def mult.commute go_bytes_def countCommonPrefix_eq
      Let_def flip: leaf_data_def)

lemma update_unfold_other:
  assumes "wf_th (smt_th smt)" "pathSize (smt_th smt) = n" "length k = n" "length k' = n" "k \<noteq> k'"
    "p0 \<noteq> placeholder (smt_th smt)"
    and set: "nodes_Set nI (H (smt_th smt) (leaf_data (smt_th smt) k v)) (leaf_data (smt_th smt) k v) smt =
      (Inr (), smt1)"
    and c: "c = lcp_len (bits k) (bits k')" "c < 8 * n"
    and d: "d = (if bits k ! c then node_data p0 (H (smt_th smt) (leaf_data (smt_th smt) k v))
      else node_data (H (smt_th smt) (leaf_data (smt_th smt) k v)) p0)"
      "nodes_Set nI (H (smt_th smt) d) d smt1 = (Inr (), smt2)"
  shows "updateWithSideNodes nI vI sc k v sns (p0 # pns) (Some (leaf_data (smt_th smt) k' v')) smt =
    bindS (delete_nodes nI pns) (\<lambda>_.
    bindS (update_loop nI (smt_th smt) sc k (8 * n) sns c [0..<8 * n] 0 (H (smt_th smt) d)) (\<lambda>h.
    bindS (values_Set vI k v) (\<lambda>_. returnS h))) smt2"
proof -
  have bnd: "c < 8 * length k" using c(2) assms(3) by simp
  have cp: "countCommonPrefix k k' = Inr c" "depth smt = 8 * n" "c \<noteq> 8 * n"
    using countCommonPrefix_eq assms c by (simp_all add: depth_def)
  show ?thesis
    using assms(1-6) cp set
    by (simp add: updateWithSideNodes_def go_bytes_def Let_def climb_bind [OF assms(1) bnd d(2,1)]
        flip: leaf_data_def)
qed

lemma delete_unfold:
  assumes "wf_th (smt_th smt)" "pathSize (smt_th smt) = length k" "p0 \<noteq> placeholder (smt_th smt)"
  shows "deleteWithSideNodes nI sc k sns (p0 # pns) (Some (leaf_data (smt_th smt) k v)) smt =
    bindS (delete_nodes nI (p0 # pns)) (\<lambda>_.
    bindS (delete_loop nI (smt_th smt) sc k (length sns) 0 sns 0 None None False) (\<lambda>h.
      returnS (case h of None \<Rightarrow> placeholder (smt_th smt) | Some h \<Rightarrow> h))) smt"
  using assms by (simp add: deleteWithSideNodes_def go_bytes_def Let_def)

lemma delete_missing:
  assumes "wf_th (smt_th smt)" "\<not> is_Node f" "wf_tree (pathSize (smt_th smt)) q f" "tmap f k = None"
  shows "deleteWithSideNodes nI sc k sns (thash (smt_th smt) f # pns) (focus_data (smt_th smt) f) smt =
    (Inl ErrKeyAlreadyEmpty, smt)"
  using assms by (cases f) (auto simp: deleteWithSideNodes_def go_bytes_def Let_def split: if_splits)

context smt_stores
begin

abbreviation rep :: "('n, 'v) SparseMerkleTree \<Rightarrow> mtree \<Rightarrow> bool" where
  "rep \<equiv> represents absn absv"

abbreviation prep :: "bytes set \<Rightarrow> ('n, 'v) SparseMerkleTree \<Rightarrow> mtree \<Rightarrow> bool" where
  "prep \<equiv> partial_rep absn absv"

lemma fill_partial:
  assumes rep: "prep D smt t" and n: "pathSize (smt_th smt) = n" and room: "roomn b (smt_nodes smt)"
    and cf: "collision_free (smt_th smt) S" "preimages (smt_th smt) t \<subseteq> S" and k: "length k = n"
    and D: "branch_nodes (smt_th smt) (bits k) t \<subseteq> D" "g \<Longrightarrow> sibling_nodes (smt_th smt) (bits k) t \<subseteq> D"
  defines "th \<equiv> smt_th smt" and "bs \<equiv> bits k"
  shows "fillSideNodes nI smt newPathSlices k (smt_root smt) g =
    Inr (\<lparr>sideNodes = rev (map Some (map (thash th) (sides bs t))),
          pathNodes = thash th (focus bs t) # map (H th) (path_data th bs t)\<rparr>,
         focus_data th (focus bs t),
         if g \<and> sides bs t \<noteq> [] then Some (tdata th (last (sides bs t))) else None)"
proof -
  note r = partial_repD [OF rep, folded th_def]
  note D' = D [folded th_def bs_def]
  have sub: "D \<subseteq> S" using node_set_preimages [of th t] r(5) cf(2) by (auto simp: th_def)
  have notN: "\<not> is_Node (focus bs t)"
    using focus_not_Node [OF r(2), of k bs] k n by (simp add: bs_def th_def)
  have fin: "walk_end th (absn (smt_nodes smt)) (thash th (focus bs t)) (focus_data th (focus bs t))"
  proof (cases "focus bs t")
    case (Leaf k' v)
    then have "leaf_data th k' v \<in> D" using D'(1) by (simp add: branch_nodes_def)
    then show ?thesis
      using Leaf cas_get [OF r(4)] sub collision_free_placeholder [OF cf(1)]
      by (auto simp: walk_end_def th_def)
  qed (use notN in \<open>simp_all add: walk_end_def\<close>)
  have store: "\<forall>d\<in>set (climb_list th (bits k) (map (thash th) (sides bs t)) (thash th (focus bs t))).
      absn (smt_nodes smt) (H th d) = Some d \<and> H th d \<noteq> placeholder th"
    using D'(1) cas_get [OF r(4)] sub collision_free_placeholder [OF cf(1)]
    by (auto simp: th_def path_data_def bs_def branch_nodes_def)
  have root: "smt_root smt = climb th (bits k) (map (thash th) (sides bs t)) (thash th (focus bs t))"
    using r(3) thash_plug [of th bs "sides bs t" "focus bs t"] by (simp add: plug_sides_focus bs_def)
  have lens: "\<forall>h\<in>set (map (thash th) (sides bs t)). length h = n" "length (thash th (focus bs t)) = n"
    "length (map (thash th) (sides bs t)) \<le> 8 * n"
    using r(1) n k length_sides_le [of bs t] by (auto simp: th_def bs_def)
  have n': "pathSize th = n" "smt_th smt = th" by (simp_all add: th_def n)
  let ?sd = "if g \<and> sides bs t \<noteq> [] then Some (tdata th (last (sides bs t))) else None"
  have sib: "if g \<and> map (thash th) (sides bs t) \<noteq> []
      then \<exists>d. absn (smt_nodes smt) (last (map (thash th) (sides bs t))) = Some d \<and> ?sd = Some d
      else ?sd = None"
    using last_side_nonempty [OF r(2) notN] cas_get [OF r(4)] D'(2)
    by (auto simp: sibling_nodes_def last_map thash_tdata)
  show ?thesis
    using fillSideNodes_walk [OF r(1) n' k room store lens fin root sib]
    by (simp add: path_data_def bs_def)
qed

lemma fill_represents:
  assumes rep: "rep smt t" and n: "pathSize (smt_th smt) = n" and room: "roomn b (smt_nodes smt)"
    and cf: "collision_free (smt_th smt) S" "preimages (smt_th smt) t \<subseteq> S" and k: "length k = n"
  defines "th \<equiv> smt_th smt" and "bs \<equiv> bits k"
  shows "fillSideNodes nI smt newPathSlices k (smt_root smt) g =
    Inr (\<lparr>sideNodes = rev (map Some (map (thash th) (sides bs t))),
          pathNodes = thash th (focus bs t) # map (H th) (path_data th bs t)\<rparr>,
         focus_data th (focus bs t),
         if g \<and> sides bs t \<noteq> [] then Some (tdata th (last (sides bs t))) else None)"
  unfolding th_def bs_def
  using focus_not_Node [OF representsD(2) [OF rep], of k "bits k"] n k representsD(2) [OF rep]
  by (intro fill_partial [OF represents_partial [OF rep] n room cf k] branch_nodes_sub sibling_nodes_sub) auto

text \<open>The common tail of an insertion: drop the orphaned path, climb, store the value.\<close>

lemma update_finish:
  assumes th: "wf_th th" "pathSize th = n" "length path = n"
    and hs: "length hs \<le> 8 * n" "\<forall>h\<in>set hs. length h = n" "cpc \<le> 8 * n"
    and cf: "collision_free th S" and hs': "hs' = pad_sides th (8 * n) cpc hs" "length hs' \<le> 8 * n"
    and st: "roomn (b + length hs') (smt_nodes smt)" "cas th (absn (smt_nodes smt)) D"
    and pd: "distinct pd" "set pd \<subseteq> D"
    and S: "D \<subseteq> S" "set (climb_list th (bits path) hs' c) \<subseteq> S" and c: "length c = n"
    and v: "roomv (Suc bv) (smt_values smt)" "okvv value"
  shows "\<exists>s w. bindS (delete_nodes nI (map (H th) pd)) (\<lambda>_.
      bindS (update_loop nI th sc path (8 * n) (rev (map Some hs)) cpc [0..<8 * n] turn c) (\<lambda>h.
      bindS (values_Set vI path value) (\<lambda>_. returnS h))) smt =
      (Inr (climb th (bits path) hs' c), smt\<lparr>smt_nodes := s, smt_values := w\<rparr>) \<and>
    roomn b s \<and> cas th (absn s) (D - set pd \<union> set (climb_list th (bits path) hs' c)) \<and>
    roomv bv w \<and> absv w = (absv (smt_values smt))(path \<mapsto> value)"
proof -
  obtain s1 where s1: "delete_nodes nI (map (H th) pd) smt = (Inr (), smt\<lparr>smt_nodes := s1\<rparr>)"
    "roomn (b + length hs') s1" "cas th (absn s1) (D - set pd)"
    using delete_nodes_ok [OF th(1,2) st pd] by blast
  obtain s2 where s2: "update_loop nI th sc path (8 * n) (rev (map Some hs)) cpc [0..<8 * n] turn c
      (smt\<lparr>smt_nodes := s1\<rparr>) = (Inr (climb th (bits path) hs' c), smt\<lparr>smt_nodes := s2\<rparr>)"
    "roomn b s2" "cas th (absn s2) (D - set pd \<union> set (climb_list th (bits path) hs' c))"
  proof -
    have "min (8 * n) (length hs') = length hs'" "take (8 * n) hs' = hs'" "D - set pd \<subseteq> S"
      using hs'(2) S(1) by auto
    then show thesis
      using update_loop_climb [OF th hs cf hs'(1), of b "8 * n" "smt\<lparr>smt_nodes := s1\<rparr>" "D - set pd" c
          sc turn] s1 S(2) c that by auto
  qed
  obtain w where w: "ms_Set vI (smt_values smt) path value = (Inr (), w)"
    "absv w = (absv (smt_values smt))(path \<mapsto> value)" "roomv bv w"
    using V.set_law [OF v(1) value_key v(2)] th(3) by blast
  show ?thesis
    using s1(1) s2 w by (auto simp: values_Set_def)
qed

text \<open>
  The outcome of an operation that turns the represented tree \<open>t\<close> into \<open>t'\<close> and leaves the value
  store \<open>m\<close>: the new store holds part of the new tree, all of it if it held all of the old one.
\<close>

abbreviation moves :: "('n, 'v) SparseMerkleTree \<Rightarrow> nat \<Rightarrow> nat \<Rightarrow> bytes set \<Rightarrow> mtree \<Rightarrow> mtree \<Rightarrow> (bytes \<rightharpoonup> bytes) \<Rightarrow>
    bytes result \<times> ('n, 'v) SparseMerkleTree \<Rightarrow> bool" where
  "moves smt b bv D t t' m r \<equiv> \<exists>s w D'.
     r = (Inr (thash (smt_th smt) t'), smt\<lparr>smt_nodes := s, smt_values := w\<rparr>) \<and> roomn b s \<and>
     cas (smt_th smt) (absn s) D' \<and> D' \<subseteq> node_set (smt_th smt) t' \<and>
     (D = node_set (smt_th smt) t \<longrightarrow> D' = node_set (smt_th smt) t') \<and> roomv bv w \<and> absv w = m"

lemma insert_climb:
  assumes th: "wf_th th" "pathSize th = n" and k: "length k = n"
    and cf: "collision_free th S" "preimages th t' \<subseteq> S"
    and hs: "hs = map (thash th) (sides (bits k) t)" "map (thash th) ss' = pad_sides th (8 * n) cpc hs"
      "cpc \<le> 8 * n"
    and t': "t' = plug (bits k) ss' f'" "length ss' \<le> 8 * n"
    and st: "roomn (b + 8 * n) (smt_nodes smt)" "cas th (absn (smt_nodes smt)) D"
    and pd: "distinct pd" "set pd \<subseteq> D" "D \<subseteq> S"
    and D: "D - set pd \<subseteq> (\<Union>s\<in>set ss'. node_set th s) \<union> node_set th f'"
    and full: "full \<Longrightarrow> (\<Union>s\<in>set ss'. node_set th s) \<union> node_set th f' \<subseteq> D - set pd"
    and v: "roomv (Suc bv) (smt_values smt)" "okvv v"
  shows "\<exists>s w D'. bindS (delete_nodes nI (map (H th) pd)) (\<lambda>_.
      bindS (update_loop nI th sc k (8 * n) (rev (map Some hs)) cpc [0..<8 * n] turn (thash th f')) (\<lambda>h.
      bindS (values_Set vI k v) (\<lambda>_. returnS h))) smt =
      (Inr (thash th t'), smt\<lparr>smt_nodes := s, smt_values := w\<rparr>) \<and> roomn b s \<and>
    cas th (absn s) D' \<and> D' \<subseteq> node_set th t' \<and> (full \<longrightarrow> D' = node_set th t') \<and>
    roomv bv w \<and> absv w = (absv (smt_values smt))(k \<mapsto> v)"
proof -
  let ?hs' = "map (thash th) ss'"
  let ?cl = "climb_list th (bits k) ?hs' (thash th f')"
  have len: "length ss' \<le> length (bits k)" "length ?hs' \<le> 8 * n" using t'(2) k by simp_all
  have hs8: "length hs \<le> 8 * n" "\<forall>h\<in>set hs. length h = n"
    using length_sides_le [of "bits k" t] k th by (auto simp: hs(1))
  have ns: "node_set th t' = set ?cl \<union> ((\<Union>s\<in>set ss'. node_set th s) \<union> node_set th f')"
    using node_set_plug [OF len(1)] t'(1) by (auto simp: Un_assoc)
  then have cl: "set ?cl \<subseteq> S" using node_set_preimages [of th t'] cf(2) by auto
  have new: "D - set pd \<union> set ?cl \<subseteq> node_set th t'" "full \<longrightarrow> D - set pd \<union> set ?cl = node_set th t'"
    using ns D full by auto
  have c: "length (thash th f') = n" using th by simp
  have room: "roomn (b + length ?hs') (smt_nodes smt)"
    using N.room_mono [OF st(1)] t'(2) by simp
  obtain s w where "bindS (delete_nodes nI (map (H th) pd)) (\<lambda>_.
      bindS (update_loop nI th sc k (8 * n) (rev (map Some hs)) cpc [0..<8 * n] turn (thash th f')) (\<lambda>h.
      bindS (values_Set vI k v) (\<lambda>_. returnS h))) smt =
      (Inr (thash th t'), smt\<lparr>smt_nodes := s, smt_values := w\<rparr>)" "roomn b s"
    "cas th (absn s) (D - set pd \<union> set ?cl)" "roomv bv w" "absv w = (absv (smt_values smt))(k \<mapsto> v)"
    using update_finish [OF th k hs8 hs(3) cf(1) hs(2) len(2) room st(2) pd cl c v, of sc turn]
      thash_plug [of th "bits k" ss' f'] t'(1) by auto
  then show ?thesis using new by (intro exI [of _ s] exI [of _ w] exI [of _ "D - set pd \<union> set ?cl"]) simp
qed

lemma insert_leaf:
  assumes rep: "prep D smt t" and n: "pathSize (smt_th smt) = n" and k: "length k = n"
    and room: "roomn (Suc b) (smt_nodes smt)"
    and cf: "collision_free (smt_th smt) S" "preimages (smt_th smt) t \<subseteq> S"
      "leaf_data (smt_th smt) k v \<in> S"
  obtains s where
    "nodes_Set nI (H (smt_th smt) (leaf_data (smt_th smt) k v)) (leaf_data (smt_th smt) k v) smt =
       (Inr (), smt\<lparr>smt_nodes := s\<rparr>)" "roomn b s"
    "cas (smt_th smt) (absn s) (insert (leaf_data (smt_th smt) k v) D)"
proof -
  note r = partial_repD [OF rep]
  have "D \<subseteq> S" using r(5) node_set_preimages cf(2) by blast
  moreover have "length (leaf_data (smt_th smt) k v) = 2 * n + 1" using r(1) n k by simp
  ultimately show thesis using nodes_Set_ok [OF r(1) n room r(4) cf(1) _ cf(3)] that by blast
qed

lemma insert_empty:
  assumes rep: "prep D smt t" and n: "pathSize (smt_th smt) = n" and k: "length k = n"
    and room: "roomn (b + 8 * n + 2) (smt_nodes smt)" "roomv (Suc bv) (smt_values smt)"
    and v: "okvv v" "v \<noteq> []" and t': "t' = tinsert (bits k) k v t"
    and cf: "collision_free (smt_th smt) S" "preimages (smt_th smt) t \<subseteq> S"
      "preimages (smt_th smt) t' \<subseteq> S"
    and D: "branch_nodes (smt_th smt) (bits k) t \<subseteq> D"
    and f: "focus (bits k) t = Empty"
  shows "moves smt b bv D t t' ((absv (smt_values smt))(k \<mapsto> v)) (updateWithSideNodes nI vI sc k v
    (rev (map Some (map (thash (smt_th smt)) (sides (bits k) t))))
    (thash (smt_th smt) Empty # map (H (smt_th smt)) (path_data (smt_th smt) (bits k) t)) None smt)"
proof -
  define th where "th = smt_th smt"
  define ss where "ss = sides (bits k) t"
  note r = partial_repD [OF rep, folded th_def]
  note n' = n [folded th_def] and cf' = cf [folded th_def]
  have plug: "t' = plug (bits k) ss (Leaf k v)"
    using tinsert_at_focus f t' by (simp add: ss_def)
  have len: "length ss \<le> length (bits k)" unfolding ss_def by (rule length_sides_le)
  note dis = path_data_disjoint [OF r(1) n' cf'(1) r(2) [unfolded n'] cf'(2), of "bits k"]
  let ?L = "leaf_data th k v" and ?pd = "path_data th (bits k) t"
  have LS: "?L \<in> S" using node_set_plug [OF len, of th "Leaf k v"] node_set_preimages [of th t'] cf'(3) plug by auto
  obtain s1 where s1: "nodes_Set nI (H th ?L) ?L smt = (Inr (), smt\<lparr>smt_nodes := s1\<rparr>)"
    "roomn (b + 8 * n) s1" "cas th (absn s1) (insert ?L D)"
    using insert_leaf [OF rep n k N.room_mono [OF room(1)] cf(1,2), of "b + 8 * n" v] LS
    by (auto simp: th_def)
  note walk = node_set_walk [of th t "bits k"]
  have sub: "insert ?L D - set ?pd \<subseteq> (\<Union>s\<in>set ss. node_set th s) \<union> node_set th (Leaf k v)"
    using walk f r(5) by (auto simp: ss_def)
  have full: "(\<Union>s\<in>set ss. node_set th s) \<union> node_set th (Leaf k v) \<subseteq> insert ?L D - set ?pd"
    if "D = node_set th t" using dis(2) walk f that by (auto simp: ss_def)
  have pd: "set ?pd \<subseteq> insert ?L D" "insert ?L D \<subseteq> S"
    using D LS r(5) node_set_preimages [of th t] cf'(2) by (auto simp: branch_nodes_def th_def)
  have "\<exists>s w D'. bindS (delete_nodes nI (map (H th) ?pd)) (\<lambda>_.
      bindS (update_loop nI th sc k (8 * n) (rev (map Some (map (thash th) ss))) (8 * n) [0..<8 * n] 1
        (thash th (Leaf k v))) (\<lambda>h.
      bindS (values_Set vI k v) (\<lambda>_. returnS h))) (smt\<lparr>smt_nodes := s1\<rparr>) =
      (Inr (thash th t'), smt\<lparr>smt_nodes := s1, smt_nodes := s, smt_values := w\<rparr>) \<and> roomn b s \<and>
    cas th (absn s) D' \<and> D' \<subseteq> node_set th t' \<and> (D = node_set th t \<longrightarrow> D' = node_set th t') \<and>
    roomv bv w \<and> absv w = (absv (smt_values (smt\<lparr>smt_nodes := s1\<rparr>)))(k \<mapsto> v)"
    using s1 room(2) v k len n' pd
    by (intro insert_climb [OF r(1) n' k cf'(1,3) _ _ order_refl plug _ _ _ dis(1) _ _ sub full])
       (auto simp: ss_def pad_sides_def)
  then show ?thesis
    using update_unfold_empty [OF _ _ s1(1) [unfolded th_def]] r(1) n'
    by (simp add: th_def ss_def)
qed

lemma insert_same:
  assumes rep: "prep D smt t" and n: "pathSize (smt_th smt) = n" and k: "length k = n"
    and room: "roomn (b + 8 * n + 2) (smt_nodes smt)" "roomv (Suc bv) (smt_values smt)"
    and v: "okvv v" "v \<noteq> []" and t': "t' = tinsert (bits k) k v t"
    and cf: "collision_free (smt_th smt) S" "preimages (smt_th smt) t \<subseteq> S"
      "preimages (smt_th smt) t' \<subseteq> S"
    and D: "branch_nodes (smt_th smt) (bits k) t \<subseteq> D" "absv (smt_values smt) k = Some v0"
    and f: "focus (bits k) t = Leaf k v0"
  shows "moves smt b bv D t t' ((absv (smt_values smt))(k \<mapsto> v)) (updateWithSideNodes nI vI sc k v
    (rev (map Some (map (thash (smt_th smt)) (sides (bits k) t))))
    (thash (smt_th smt) (Leaf k v0) # map (H (smt_th smt)) (path_data (smt_th smt) (bits k) t))
    (Some (leaf_data (smt_th smt) k v0)) smt)"
proof -
  define th where "th = smt_th smt"
  define ss where "ss = sides (bits k) t"
  note r = partial_repD [OF rep, folded th_def]
  note n' = n [folded th_def] and cf' = cf [folded th_def]
  have plug: "t' = plug (bits k) ss (Leaf k v)"
    using tinsert_at_focus f t' by (simp add: ss_def)
  have len: "length ss \<le> length (bits k)" unfolding ss_def by (rule length_sides_le)
  note dis = path_data_disjoint [OF r(1) n' cf'(1) r(2) [unfolded n'] cf'(2), of "bits k"]
  let ?L = "leaf_data th k v" and ?Old = "leaf_data th k v0" and ?pd = "path_data th (bits k) t"
  have "Leaf k v \<in> subs t'" using subs_plug [OF len, of "Leaf k v"] plug by auto
  then have LS: "?L \<in> S" "v \<in> S" using subs_preimages [of "Leaf k v" t' th] cf'(3) by auto
  have L0: "?Old \<in> S" "v0 \<in> S" using focus_preimages [of th "bits k" t] f cf'(2) by auto
  have L0t: "?Old \<in> D" "set ?pd \<subseteq> D" using D(1) f by (auto simp: branch_nodes_def th_def)
  have p0: "H th ?Old \<noteq> placeholder th" using collision_free_placeholder [OF cf'(1) L0(1)] .
  obtain s1 where s1: "nodes_Set nI (H th ?L) ?L smt = (Inr (), smt\<lparr>smt_nodes := s1\<rparr>)"
    "roomn (b + 8 * n) s1" "cas th (absn s1) (insert ?L D)"
    using insert_leaf [OF rep n k N.room_mono [OF room(1)] cf(1,2), of "b + 8 * n" v] LS
    by (auto simp: th_def)
  note unf = update_unfold_same [OF _ _ k _ s1(1) [unfolded th_def], folded th_def, OF r(1) n' p0]
  show ?thesis
  proof (cases "H th v0 = H th v")
    case True
    then have "v0 = v" using collision_freeD [OF cf'(1) L0(2) LS(2)] by simp
    then have "t' = t" using plug plug_sides_focus [of "bits k" t] f by (simp add: ss_def)
    then show ?thesis
      using unf True s1 L0t(1) \<open>v0 = v\<close> r N.room_mono [OF s1(2)] V.room_mono [OF room(2), of bv] D(2)
      by (intro exI [of _ s1] exI [of _ "smt_values smt"] exI [of _ D])
        (simp add: th_def [symmetric] ss_def insert_absorb fun_upd_idem)
  next
    case False
    then have neq: "?Old \<noteq> ?L" by (simp add: leaf_data_def)
    let ?D = "insert ?L D - {?Old}"
    obtain s2 where s2: "nodes_Delete nI (H th ?Old) (smt\<lparr>smt_nodes := s1\<rparr>) = (Inr (), smt\<lparr>smt_nodes := s2\<rparr>)"
      "roomn (b + 8 * n) s2" "cas th (absn s2) ?D"
      using nodes_Delete_ok [OF r(1) n', of "b + 8 * n" "smt\<lparr>smt_nodes := s1\<rparr>" _ ?Old] s1 L0t(1) by auto
    obtain w2 where w2: "values_Delete vI k (smt\<lparr>smt_nodes := s2\<rparr>) =
        (Inr (), smt\<lparr>smt_nodes := s2, smt_values := w2\<rparr>)"
      "absv w2 = (absv (smt_values smt))(k := None)" "roomv (Suc bv) w2"
      using V.del_law [OF room(2) value_key [OF k]] D(2) by (auto simp: values_Delete_def)
    note walk = node_set_walk [of th t "bits k"]
    have sub: "?D - set ?pd \<subseteq> (\<Union>s\<in>set ss. node_set th s) \<union> node_set th (Leaf k v)"
      using walk f r(5) by (auto simp: ss_def)
    have full: "(\<Union>s\<in>set ss. node_set th s) \<union> node_set th (Leaf k v) \<subseteq> ?D - set ?pd"
      if "D = node_set th t" using dis(2,4) walk f neq that by (auto simp: ss_def)
    have pd: "set ?pd \<subseteq> ?D" "?D \<subseteq> S"
      using L0t LS r(5) node_set_preimages [of th t] cf'(2) by auto
    have "\<exists>s w D'. bindS (delete_nodes nI (map (H th) ?pd)) (\<lambda>_.
        bindS (update_loop nI th sc k (8 * n) (rev (map Some (map (thash th) ss))) (8 * n) [0..<8 * n] 1
          (thash th (Leaf k v))) (\<lambda>h.
        bindS (values_Set vI k v) (\<lambda>_. returnS h))) (smt\<lparr>smt_nodes := s2, smt_values := w2\<rparr>) =
        (Inr (thash th t'), smt\<lparr>smt_nodes := s2, smt_values := w2, smt_nodes := s, smt_values := w\<rparr>) \<and>
        roomn b s \<and> cas th (absn s) D' \<and> D' \<subseteq> node_set th t' \<and> (D = node_set th t \<longrightarrow> D' = node_set th t') \<and>
        roomv bv w \<and> absv w = (absv (smt_values (smt\<lparr>smt_nodes := s2, smt_values := w2\<rparr>)))(k \<mapsto> v)"
      using s2 w2 v k len n' pd
      by (intro insert_climb [OF r(1) n' k cf'(1,3) _ _ order_refl plug _ _ _ dis(1) _ _ sub full])
         (auto simp: ss_def pad_sides_def)
    then show ?thesis
      using unf False s2(1) w2(1,2) by (simp add: th_def [symmetric] ss_def)
  qed
qed

lemma insert_other:
  assumes rep: "prep D smt t" and n: "pathSize (smt_th smt) = n" and k: "length k = n"
    and room: "roomn (b + 8 * n + 2) (smt_nodes smt)" "roomv (Suc bv) (smt_values smt)"
    and v: "okvv v" "v \<noteq> []" and t': "t' = tinsert (bits k) k v t"
    and cf: "collision_free (smt_th smt) S" "preimages (smt_th smt) t \<subseteq> S"
      "preimages (smt_th smt) t' \<subseteq> S"
    and D: "branch_nodes (smt_th smt) (bits k) t \<subseteq> D"
    and f: "focus (bits k) t = Leaf k' v'" "k \<noteq> k'"
  shows "moves smt b bv D t t' ((absv (smt_values smt))(k \<mapsto> v)) (updateWithSideNodes nI vI sc k v
    (rev (map Some (map (thash (smt_th smt)) (sides (bits k) t))))
    (thash (smt_th smt) (Leaf k' v') # map (H (smt_th smt)) (path_data (smt_th smt) (bits k) t))
    (Some (leaf_data (smt_th smt) k' v')) smt)"
proof -
  define th where "th = smt_th smt"
  define ss where "ss = sides (bits k) t"
  define c where "c = lcp_len (bits k) (bits k')"
  define ss' where "ss' = ss @ replicate (c - length ss) Empty"
  define f' where "f' = (if bits k ! c then Node (Leaf k' v') (Leaf k v) else Node (Leaf k v) (Leaf k' v'))"
  note r = partial_repD [OF rep, folded th_def]
  note n' = n [folded th_def] and cf' = cf [folded th_def]
  note wf = r(2) [unfolded n']
  note oth = tinsert_other [OF wf k f, folded c_def ss_def, folded ss'_def, folded f'_def]
  have plug: "t' = plug (bits k) ss' f'" using oth(1) [of v] t' by (simp add: f'_def)
  have len: "length ss' \<le> length (bits k)" "length ss' \<le> 8 * n"
    using oth(2,3) k by (simp_all add: ss'_def)
  note dis = path_data_disjoint [OF r(1) n' cf'(1) wf cf'(2), of "bits k"]
  let ?L = "leaf_data th k v" and ?L' = "leaf_data th k' v'" and ?M = "tdata th f'"
  let ?pd = "path_data th (bits k) t" and ?D = "insert (tdata th f') (insert (leaf_data th k v) D)"
  have M: "?M = (if bits k ! c then node_data (H th ?L') (H th ?L) else node_data (H th ?L) (H th ?L'))"
    "H th ?M = thash th f'" "length ?M = 2 * n + 1"
    using r(1) n' by (simp_all add: f'_def node_data_def)
  have sub: "f' \<in> subs t'" using subs_plug [OF len(1), of f'] plug by (auto simp: f'_def)
  then have S: "?L \<in> S" "?M \<in> S" using subs_preimages [OF sub, of th] cf'(3) by (auto simp: f'_def split: if_splits)
  have L': "?L' \<in> S" using focus_preimages [of th "bits k" t] f cf'(2) by auto
  have wf': "wf_tree n [] t'" using tinsert_correct [OF wf, of k "bits k" v] k v t' by simp
  have tm: "tmap t k \<noteq> Some v" using focus_tmap [OF wf, of k "bits k"] f by simp
  have "tmap f' k = Some v" using f(2) by (simp add: f'_def)
  then have M_new: "?M \<notin> node_set th t"
    using new_data_notin [OF r(1) n' cf'(1) wf wf' cf'(2,3) sub] tm by blast
  have p0: "H th ?L' \<noteq> placeholder th" using collision_free_placeholder [OF cf'(1) L'] .
  obtain s1 where s1: "nodes_Set nI (H th ?L) ?L smt = (Inr (), smt\<lparr>smt_nodes := s1\<rparr>)"
    "roomn (Suc (b + 8 * n)) s1" "cas th (absn s1) (insert ?L D)"
    using insert_leaf [OF rep n k N.room_mono [OF room(1)] cf(1,2), of "Suc (b + 8 * n)" v] S
    by (auto simp: th_def)
  have D1: "insert ?L D \<subseteq> S" using r(5) node_set_preimages [of th t] cf'(2) S by auto
  obtain s2 where s2: "nodes_Set nI (H th ?M) ?M (smt\<lparr>smt_nodes := s1\<rparr>) = (Inr (), smt\<lparr>smt_nodes := s2\<rparr>)"
    "roomn (b + 8 * n) s2" "cas th (absn s2) ?D"
    using nodes_Set_ok [OF r(1) n', of "b + 8 * n" "smt\<lparr>smt_nodes := s1\<rparr>" "insert ?L D" S ?M]
      s1(2,3) cf'(1) D1 S(2) M(3) by auto
  note walk = node_set_walk [of th t "bits k"]
  have part: "?D - set ?pd \<subseteq> (\<Union>s\<in>set ss'. node_set th s) \<union> node_set th f'"
    using walk f r(5) by (auto simp: ss_def ss'_def f'_def)
  have full: "(\<Union>s\<in>set ss'. node_set th s) \<union> node_set th f' \<subseteq> ?D - set ?pd" if "D = node_set th t"
    using dis(2,3) walk f M_new path_data_node_set [of th "bits k" t] that
    by (auto simp: ss_def ss'_def f'_def split: if_splits)
  have pd: "set ?pd \<subseteq> ?D" "?D \<subseteq> S" using D D1 S by (auto simp: branch_nodes_def th_def)
  have pads: "map (thash th) ss' = pad_sides th (8 * n) c (map (thash th) ss)" "c \<le> 8 * n"
    using oth(3) by (simp_all add: ss'_def pad_sides_def)
  have "\<exists>s w D'. bindS (delete_nodes nI (map (H th) ?pd)) (\<lambda>_.
      bindS (update_loop nI th sc k (8 * n) (rev (map Some (map (thash th) ss))) c [0..<8 * n] 0
        (thash th f')) (\<lambda>h.
      bindS (values_Set vI k v) (\<lambda>_. returnS h))) (smt\<lparr>smt_nodes := s2\<rparr>) =
      (Inr (thash th t'), smt\<lparr>smt_nodes := s2, smt_nodes := s, smt_values := w\<rparr>) \<and>
      roomn b s \<and> cas th (absn s) D' \<and> D' \<subseteq> node_set th t' \<and> (D = node_set th t \<longrightarrow> D' = node_set th t') \<and>
      roomv bv w \<and> absv w = (absv (smt_values (smt\<lparr>smt_nodes := s2\<rparr>)))(k \<mapsto> v)"
    using s2 room(2) v(1)
    by (intro insert_climb [OF r(1) n' k cf'(1,3) _ pads(1) pads(2) plug len(2) _ _ dis(1) pd part full])
       (simp_all add: ss_def)
  then show ?thesis
    using update_unfold_other [OF _ _ k oth(4) f(2) _ s1(1) [unfolded th_def], folded th_def,
        OF r(1) n' p0 c_def oth(3) M(1) s2(1)] M(2)
    by (simp add: th_def [symmetric] ss_def)
qed

lemma updateWithSideNodes_ok:
  assumes rep: "prep D smt t" and n: "pathSize (smt_th smt) = n" and k: "length k = n"
    and room: "roomn (b + 8 * n + 2) (smt_nodes smt)" "roomv (Suc bv) (smt_values smt)"
    and v: "okvv v" "v \<noteq> []" and t': "t' = tinsert (bits k) k v t"
    and cf: "collision_free (smt_th smt) S" "preimages (smt_th smt) t \<subseteq> S"
      "preimages (smt_th smt) t' \<subseteq> S"
    and D: "branch_nodes (smt_th smt) (bits k) t \<subseteq> D" "tmap t k \<noteq> None \<Longrightarrow> absv (smt_values smt) k = tmap t k"
  shows "moves smt b bv D t t' ((absv (smt_values smt))(k \<mapsto> v)) (updateWithSideNodes nI vI sc k v
    (rev (map Some (map (thash (smt_th smt)) (sides (bits k) t))))
    (thash (smt_th smt) (focus (bits k) t) # map (H (smt_th smt)) (path_data (smt_th smt) (bits k) t))
    (focus_data (smt_th smt) (focus (bits k) t)) smt)"
proof (cases "focus (bits k) t")
  case Empty
  then show ?thesis using insert_empty [OF assms(1-12) Empty] by simp
next
  case (Leaf k' v')
  have tm: "tmap t k = tmap (Leaf k' v') k"
    using focus_tmap [OF partial_repD(2) [OF rep], of k "bits k"] Leaf by simp
  show ?thesis
  proof (cases "k' = k")
    case True
    then show ?thesis using insert_same [OF assms(1-12), of v'] D(2) tm Leaf by simp
  next
    case False
    then show ?thesis using insert_other [OF assms(1-12), of k' v'] Leaf by simp
  qed
next
  case (Node l r)
  then show ?thesis
    using focus_not_Node [OF partial_repD(2) [OF rep], of k "bits k"] n k by simp
qed

lemma hstrip_thash:
  "collision_free th S \<Longrightarrow> (\<Union>s\<in>set us. preimages th s) \<subseteq> S \<Longrightarrow>
   hstrip th (map (thash th) us) = map (thash th) (strip_empty us)"
proof (induction us rule: rev_induct)
  case (snoc u us)
  then show ?case
    using placeholder_thash [of th S u] by (auto simp: strip_empty_def)
qed simp

text \<open>
  The climb of a deletion, by the last sibling \<open>u\<close>: a leaf bubbles up past empty siblings, anything
  else stays in its place.
\<close>

lemma delete_loop_leaf_sibling:
  assumes th: "wf_th th" "pathSize th = n" "length k = n" and cf: "collision_free th S"
    and us: "length us < 8 * n" "(\<Union>s\<in>set us. preimages th s) \<subseteq> S" "is_Leaf u"
    and st: "roomn (b + 8 * n) (smt_nodes smt)" "cas th (absn (smt_nodes smt)) D" "D \<subseteq> S" "tdata th u \<in> D"
    and t': "t' = plug (bits k) (strip_empty us) u" "preimages th t' \<subseteq> S"
  shows "\<exists>s C. delete_loop nI th sc k (Suc (length us)) 0 (Some (thash th u) # rev (map Some (map (thash th) us)))
      0 None None False smt = (Inr (Some (thash th t')), smt\<lparr>smt_nodes := s\<rparr>) \<and> roomn b s \<and>
    cas th (absn s) (D \<union> C) \<and> node_set th t' = (\<Union>s\<in>set us. node_set th s) \<union> node_set th u \<union> C"
proof -
  let ?cl = "climb_list th (bits k) (map (thash th) (strip_empty us)) (thash th u)"
  have u: "u \<noteq> Empty" "isLeaf th (tdata th u) = Inr True" using us(3) by (cases u; simp)+
  have "absn (smt_nodes smt) (thash th u) = Some (tdata th u)"
    using cas_get [OF st(2,4)] u(1) by (simp add: thash_tdata)
  then have get: "nodes_Get nI smt (thash th u) = Inr (tdata th u)" using nodes_Get_Some [OF st(1)] th by simp
  have str: "hstrip th (map (thash th) us) = map (thash th) (strip_empty us)" using hstrip_thash [OF cf us(2)] .
  have len: "length (strip_empty us) \<le> length (bits k)" using strip_empty_length [of us] us(1) th(3) by simp
  have sub: "(\<Union>s\<in>set (strip_empty us). node_set th s) = (\<Union>s\<in>set us. node_set th s)"
    using arg_cong [OF strip_empty_split [of us], of "\<lambda>xs. \<Union>s\<in>set xs. node_set th s"] by (auto split: if_splits)
  have ns: "node_set th t' = (\<Union>s\<in>set us. node_set th s) \<union> node_set th u \<union> set ?cl"
    using node_set_plug [OF len, of th u] sub t'(1) by auto
  have S': "node_set th t' \<subseteq> S" using node_set_preimages t'(2) by (rule order_trans)
  have "\<exists>s. delete_loop nI th sc k (Suc (length us)) 1 (rev (map Some (map (thash th) us))) 0
      (Some (thash th u)) (Some (thash th u)) False smt =
      (Inr (Some (climb th (bits k) (hstrip th (map (thash th) us)) (thash th u))), smt\<lparr>smt_nodes := s\<rparr>) \<and>
      roomn b s \<and> cas th (absn s) (D \<union> set (climb_list th (bits k) (hstrip th (map (thash th) us)) (thash th u)))"
    using us(1) th st(3) S' ns str N.room_mono [OF st(1)] st(2) by (intro delete_loop_bubble [OF th cf]) auto
  then show ?thesis
    unfolding delete_loop_leaf [OF get u(2)] str
    using t'(1) thash_plug [of th "bits k" "strip_empty us" u] ns by (auto intro!: exI [of _ "set ?cl"])
qed

lemma delete_loop_inner_sibling:
  assumes th: "wf_th th" "pathSize th = n" "length k = n" and cf: "collision_free th S"
    and ss: "length ss \<le> 8 * n" "ss = us @ [u]" "is_Node u"
    and st: "roomn (b + 8 * n) (smt_nodes smt)" "cas th (absn (smt_nodes smt)) D" "D \<subseteq> S" "tdata th u \<in> D"
    and t': "t' = plug (bits k) ss Empty" "preimages th t' \<subseteq> S"
  shows "\<exists>s C. delete_loop nI th sc k (length ss) 0 (rev (map Some (map (thash th) ss)))
      0 None None False smt = (Inr (Some (thash th t')), smt\<lparr>smt_nodes := s\<rparr>) \<and> roomn b s \<and>
    cas th (absn s) (D \<union> C) \<and> node_set th t' = (\<Union>s\<in>set ss. node_set th s) \<union> C"
proof -
  let ?cl = "climb_list th (bits k) (map (thash th) ss) (placeholder th)"
  have u: "u \<noteq> Empty" "isLeaf th (tdata th u) = Inr False" using ss(3) by (cases u; simp)+
  have "absn (smt_nodes smt) (thash th u) = Some (tdata th u)"
    using cas_get [OF st(2,4)] u(1) by (simp add: thash_tdata)
  then have get: "nodes_Get nI smt (thash th u) = Inr (tdata th u)" using nodes_Get_Some [OF st(1)] th by simp
  have rv: "rev (map Some (map (thash th) ss)) = Some (thash th u) # rev (map Some (map (thash th) us))"
    by (simp add: ss(2))
  have len: "length ss \<le> length (bits k)" using ss(1) th(3) by simp
  have ns: "node_set th t' = (\<Union>s\<in>set ss. node_set th s) \<union> set ?cl"
    using node_set_plug [OF len, of th Empty] t'(1) by auto
  have S': "node_set th t' \<subseteq> S" using node_set_preimages t'(2) by (rule order_trans)
  have "\<exists>s. delete_loop nI th sc k (length ss) 0 (rev (map Some (map (thash th) ss))) 0 None
      (Some (placeholder th)) True smt =
      (Inr (if map (thash th) ss = [] then None
            else Some (climb th (bits k) (map (thash th) ss) (placeholder th))),
       smt\<lparr>smt_nodes := s\<rparr>) \<and> roomn b s \<and> cas th (absn s) (D \<union> set ?cl)"
    using ss(1) th st(3) S' ns N.room_mono [OF st(1)] st(2) by (intro delete_loop_climb [OF th cf]) auto
  then obtain s where "delete_loop nI th sc k (length ss) 0 (rev (map Some (map (thash th) ss))) 0 None
      (Some (placeholder th)) True smt = (Inr (Some (thash th t')), smt\<lparr>smt_nodes := s\<rparr>)"
    "roomn b s" "cas th (absn s) (D \<union> set ?cl)"
    using t'(1) thash_plug [of th "bits k" ss Empty] ss(2) by auto
  then show ?thesis
    using delete_loop_inner [OF get u(2)] ns unfolding rv by (intro exI [of _ s] exI [of _ "set ?cl"]) simp
qed

lemma delete_loop_ok:
  assumes th: "wf_th th" "pathSize th = n" "length k = n" and cf: "collision_free th S"
    and ss: "length ss \<le> 8 * n" "ss \<noteq> [] \<Longrightarrow> last ss \<noteq> Empty" "(\<Union>s\<in>set ss. preimages th s) \<subseteq> S"
    and st: "roomn (b + 8 * n) (smt_nodes smt)" "cas th (absn (smt_nodes smt)) D"
    and D: "D \<subseteq> (\<Union>s\<in>set ss. node_set th s)" "ss \<noteq> [] \<Longrightarrow> tdata th (last ss) \<in> D"
    and t': "t' = (if ss = [] then Empty
      else if is_Leaf (last ss) then plug (bits k) (strip_empty (butlast ss)) (last ss)
      else plug (bits k) ss Empty)" "preimages th t' \<subseteq> S"
  shows "\<exists>s h D'. delete_loop nI th sc k (length ss) 0 (rev (map Some (map (thash th) ss))) 0 None None False
      smt = (Inr h, smt\<lparr>smt_nodes := s\<rparr>) \<and>
      (case h of None \<Rightarrow> placeholder th | Some h \<Rightarrow> h) = thash th t' \<and> roomn b s \<and>
      cas th (absn s) D' \<and> D' \<subseteq> node_set th t' \<and>
      (D = (\<Union>s\<in>set ss. node_set th s) \<longrightarrow> D' = node_set th t')"
proof (cases "ss = []")
  case True
  then show ?thesis
    using st D t' N.room_mono [OF st(1), of b] by (intro exI [of _ "smt_nodes smt"]) auto
next
  case False
  let ?B = "\<Union>s\<in>set ss. node_set th s"
  obtain us u where us: "ss = us @ [u]" using False by (metis rev_exhaust)
  have "?B \<subseteq> (\<Union>s\<in>set ss. preimages th s)" using node_set_preimages by blast
  with D(1) ss(3) have DS: "D \<subseteq> S" by blast
  have u: "tdata th u \<in> D" "is_Leaf u \<or> is_Node u" using D(2) ss(2) us is_Node_cases [of u] by auto
  have usS: "(\<Union>s\<in>set us. preimages th s) \<subseteq> S" "length us < 8 * n" using ss(1,3) us by auto
  have "\<exists>s C. delete_loop nI th sc k (length ss) 0 (rev (map Some (map (thash th) ss)))
      0 None None False smt = (Inr (Some (thash th t')), smt\<lparr>smt_nodes := s\<rparr>) \<and> roomn b s \<and>
    cas th (absn s) (D \<union> C) \<and> node_set th t' = ?B \<union> C"
    using delete_loop_leaf_sibling [OF th cf usS(2,1) _ st DS u(1), of t' sc]
      delete_loop_inner_sibling [OF th cf ss(1) us _ st DS u(1), of t' sc] u(2) t' us
    by (cases "is_Leaf u") (auto simp: Un_commute)
  then obtain s C where "delete_loop nI th sc k (length ss) 0 (rev (map Some (map (thash th) ss)))
      0 None None False smt = (Inr (Some (thash th t')), smt\<lparr>smt_nodes := s\<rparr>)" "roomn b s"
    "cas th (absn s) (D \<union> C)" "node_set th t' = ?B \<union> C" by blast
  then show ?thesis
    using D(1) by (intro exI [of _ s] exI [of _ "Some (thash th t')"] exI [of _ "D \<union> C"]) auto
qed

lemma deleteWithSideNodes_ok:
  assumes rep: "prep D smt t" and n: "pathSize (smt_th smt) = n" and k: "length k = n"
    and room: "roomn (b + 8 * n) (smt_nodes smt)"
    and t': "t' = tdelete (bits k) k t"
    and cf: "collision_free (smt_th smt) S" "preimages (smt_th smt) t \<subseteq> S"
      "preimages (smt_th smt) t' \<subseteq> S"
    and D: "branch_nodes (smt_th smt) (bits k) t \<subseteq> D" "sibling_nodes (smt_th smt) (bits k) t \<subseteq> D"
    and f: "focus (bits k) t = Leaf k v"
  shows "\<exists>s D'. deleteWithSideNodes nI sc k
    (rev (map Some (map (thash (smt_th smt)) (sides (bits k) t))))
    (thash (smt_th smt) (Leaf k v) # map (H (smt_th smt)) (path_data (smt_th smt) (bits k) t))
    (Some (leaf_data (smt_th smt) k v)) smt = (Inr (thash (smt_th smt) t'), smt\<lparr>smt_nodes := s\<rparr>) \<and>
    roomn b s \<and> cas (smt_th smt) (absn s) D' \<and> D' \<subseteq> node_set (smt_th smt) t' \<and>
    (D = node_set (smt_th smt) t \<longrightarrow> D' = node_set (smt_th smt) t')"
proof -
  define th where "th = smt_th smt"
  define ss where "ss = sides (bits k) t"
  note r = partial_repD [OF rep, folded th_def]
  note n' = n [folded th_def] and cf' = cf [folded th_def]
  note wf = r(2) [unfolded n']
  note del = tdelete_plug [OF wf _ k f, simplified, folded ss_def t']
  note dis = path_data_disjoint [OF r(1) n' cf'(1) wf cf'(2), of "bits k"]
  have len: "length ss \<le> 8 * n" using length_sides_le [of "bits k" t] k by (simp add: ss_def)
  let ?pd = "leaf_data th k v # path_data th (bits k) t" and ?B = "\<Union>s\<in>set ss. node_set th s"
  let ?hs = "map (thash th) ss" and ?E = "D - set (leaf_data th k v # path_data th (bits k) t)"
  note walk = node_set_walk [of th t "bits k"]
  have pd: "?E \<subseteq> ?B" "distinct ?pd" "set ?pd \<subseteq> D"
    using dis walk f r(5) D(1) by (auto simp: ss_def branch_nodes_def th_def)
  have full: "?E = ?B" if "D = node_set th t" using dis walk f that by (auto simp: ss_def)
  obtain s1 where s1: "delete_nodes nI (map (H th) ?pd) smt = (Inr (), smt\<lparr>smt_nodes := s1\<rparr>)"
    "roomn (b + 8 * n) s1" "cas th (absn s1) ?E"
    using delete_nodes_ok [OF r(1) n' room r(4) pd(2,3)] by auto
  have pS: "(\<Union>s\<in>set ss. preimages th s) \<subseteq> S"
    using sides_preimages [of _ "bits k" t th] cf'(2) by (fastforce simp: ss_def)
  note last = last_side_nonempty [OF wf, of "bits k", folded ss_def]
  have sib: "tdata th (last ss) \<in> ?E" if "ss \<noteq> []"
  proof -
    have "tdata th (last ss) \<in> node_set th (last ss)"
      using last f that subs_refl [of "last ss"] by (simp add: node_set_subs)
    then show ?thesis
      using that D(2) dis(2,4) f last_in_set [OF that] by (auto simp: sibling_nodes_def ss_def th_def)
  qed
  have lens: "length ?hs \<le> 8 * n" "\<forall>h\<in>set ?hs. length h = n" using len r(1) n' by auto
  have p0: "H th (leaf_data th k v) \<noteq> placeholder th"
    using collision_free_placeholder [OF cf'(1), of "leaf_data th k v"] cf'(2)
      focus_preimages [of th "bits k" t] f by auto
  have "\<exists>s h D'. delete_loop nI th sc k (length ss) 0 (rev (map Some ?hs)) 0 None None False
      (smt\<lparr>smt_nodes := s1\<rparr>) = (Inr h, smt\<lparr>smt_nodes := s\<rparr>) \<and>
      (case h of None \<Rightarrow> placeholder th | Some h \<Rightarrow> h) = thash th t' \<and> roomn b s \<and>
      cas th (absn s) D' \<and> D' \<subseteq> node_set th t' \<and> (?E = ?B \<longrightarrow> D' = node_set th t')"
    using last f s1(2,3) len pS pd(1) sib
      delete_loop_ok [OF r(1) n' k cf'(1) _ _ _ _ _ _ _ del cf'(3), of b "smt\<lparr>smt_nodes := s1\<rparr>" ?E sc]
    by simp
  then obtain s h D' where s: "delete_loop nI th sc k (length ss) 0 (rev (map Some ?hs)) 0 None None False
      (smt\<lparr>smt_nodes := s1\<rparr>) = (Inr h, smt\<lparr>smt_nodes := s\<rparr>)"
    "(case h of None \<Rightarrow> placeholder th | Some h \<Rightarrow> h) = thash th t'" "roomn b s"
    "cas th (absn s) D'" "D' \<subseteq> node_set th t'" "?E = ?B \<longrightarrow> D' = node_set th t'" by blast
  have "deleteWithSideNodes nI sc k (rev (map Some ?hs)) (map (H th) ?pd) (Some (leaf_data th k v)) smt =
      (Inr (thash th t'), smt\<lparr>smt_nodes := s\<rparr>)"
    using delete_unfold [of smt k "H th (leaf_data th k v)", folded th_def] s1(1) s(1,2) r(1) n' k p0
    by simp
  then show ?thesis
    using s(3-6) full by (intro exI [of _ s] exI [of _ D']) (simp add: th_def [symmetric] ss_def)
qed

section \<open>Update, Delete, Get\<close>

lemma represents_ready:
  assumes "rep smt t" "length k = pathSize (smt_th smt)"
  shows "branch_ready absv (node_set (smt_th smt) t) smt t k v"
  using assms representsD [OF assms(1)] focus_not_Node [OF representsD(2) [OF assms(1)], of k "bits k"]
    branch_nodes_sub sibling_nodes_sub by (auto simp: branch_ready_def)

text \<open>Deleting: a key that is not there leaves everything, a key that is there goes with its value.\<close>

lemma UpdateForRoot_missing:
  assumes rep: "prep D smt t" and n: "pathSize (smt_th smt) = n"
    and room: "roomn b (smt_nodes smt)" "roomv bv (smt_values smt)"
    and cf: "collision_free (smt_th smt) S" "preimages (smt_th smt) t \<subseteq> S"
    and D: "branch_nodes (smt_th smt) (bits (H (smt_th smt) key)) t \<subseteq> D"
    and None: "tmap t (H (smt_th smt) key) = None"
  shows "UpdateForRoot nI vI key [] (smt_root smt) smt = (Inr (thash (smt_th smt) t), smt)"
proof -
  let ?k = "H (smt_th smt) key"
  note r = partial_repD [OF rep]
  have k: "length ?k = n" using r(1) n by simp
  note wf = r(2) [unfolded n]
  have ps: "fst (getPathSlices [] 0) = newPathSlices" using getPathSlices_new path_pool.empty by blast
  have "\<not> is_Node (focus (bits ?k) t)" using focus_not_Node [OF wf _ k, of "bits ?k"] by simp
  moreover have "tmap (focus (bits ?k) t) ?k = None" using focus_tmap [OF wf, of ?k "bits ?k"] None by simp
  moreover have "wf_tree n (take (length (sides (bits ?k) t)) (bits ?k)) (focus (bits ?k) t)"
    using wf_tree_focus [OF wf, of "bits ?k"] by simp
  ultimately show ?thesis
    using delete_missing [OF r(1)] fill_partial [OF rep n room(1) cf k D, of False] r n
    by (simp add: UpdateForRoot_def UpdateForRoot_with_def ps defaultValue_def Let_def)
qed

lemma UpdateForRoot_delete:
  assumes rep: "prep D smt t" and n: "pathSize (smt_th smt) = n"
    and room: "roomn (b + 8 * n + 2) (smt_nodes smt)" "roomv (Suc bv) (smt_values smt)"
    and t': "t' = tdelete (bits (H (smt_th smt) key)) (H (smt_th smt) key) t"
    and cf: "collision_free (smt_th smt) S" "preimages (smt_th smt) t \<subseteq> S" "preimages (smt_th smt) t' \<subseteq> S"
    and D: "branch_nodes (smt_th smt) (bits (H (smt_th smt) key)) t \<subseteq> D"
      "sibling_nodes (smt_th smt) (bits (H (smt_th smt) key)) t \<subseteq> D"
    and v0: "tmap t (H (smt_th smt) key) = Some v0" "absv (smt_values smt) (H (smt_th smt) key) = Some v0"
  shows "moves smt b bv D t t' ((absv (smt_values smt))(H (smt_th smt) key := None))
    (UpdateForRoot nI vI key [] (smt_root smt) smt)"
proof -
  let ?k = "H (smt_th smt) key" and ?th = "smt_th smt"
  note r = partial_repD [OF rep]
  have k: "length ?k = n" using r(1) n by simp
  note wf = r(2) [unfolded n]
  have ps: "fst (getPathSlices [] 0) = newPathSlices" using getPathSlices_new path_pool.empty by blast
  have f: "focus (bits ?k) t = Leaf ?k v0"
    using focus_tmap [OF wf, of ?k "bits ?k"] v0(1) focus_not_Node [OF wf _ k, of "bits ?k"]
    by (cases "focus (bits ?k) t") (auto split: if_splits)
  obtain s D' where s: "deleteWithSideNodes nI (fst (getUpdateScratch [] 0)) ?k
      (rev (map Some (map (thash ?th) (sides (bits ?k) t))))
      (thash ?th (Leaf ?k v0) # map (H ?th) (path_data ?th (bits ?k) t))
      (Some (leaf_data ?th ?k v0)) smt = (Inr (thash ?th t'), smt\<lparr>smt_nodes := s\<rparr>)"
    "roomn b s" "cas ?th (absn s) D'" "D' \<subseteq> node_set ?th t'"
    "D = node_set ?th t \<longrightarrow> D' = node_set ?th t'"
    using deleteWithSideNodes_ok [OF rep n k N.room_mono [OF room(1)] t' cf D f, of b
        "fst (getUpdateScratch [] 0)"] by auto
  obtain w where w: "values_Delete vI ?k (smt\<lparr>smt_nodes := s\<rparr>) =
      (Inr (), smt\<lparr>smt_nodes := s, smt_values := w\<rparr>)"
    "absv w = (absv (smt_values smt))(?k := None)" "roomv bv w"
    using V.del_law [OF V.room_mono [OF room(2), of bv] value_key [OF k]] v0(2) by (auto simp: values_Delete_def)
  show ?thesis
    using s w fill_partial [OF rep n room(1) cf(1,2) k D(1), of False] r(1) f
    by (intro exI [of _ s] exI [of _ w] exI [of _ D'])
       (simp add: UpdateForRoot_def UpdateForRoot_with_def ps defaultValue_def Let_def)
qed

lemma UpdateForRoot_partial:
  assumes rep: "prep D smt t" and n: "pathSize (smt_th smt) = n"
    and room: "roomn (b + 8 * n + 2) (smt_nodes smt)" "roomv (Suc bv) (smt_values smt)"
    and v: "v \<noteq> [] \<Longrightarrow> okvv v" and t': "t' = tupdate (H (smt_th smt) key) v t"
    and cf: "collision_free (smt_th smt) S" "preimages (smt_th smt) t \<subseteq> S"
      "preimages (smt_th smt) t' \<subseteq> S"
    and D: "branch_ready absv D smt t (H (smt_th smt) key) v"
  shows "moves smt b bv D t t' (mupdate (H (smt_th smt) key) v (absv (smt_values smt)))
    (UpdateForRoot nI vI key v (smt_root smt) smt)"
proof -
  let ?k = "H (smt_th smt) key" and ?th = "smt_th smt" and ?m = "absv (smt_values smt)"
  note r = partial_repD [OF rep]
  have k: "length ?k = n" using r(1) n by simp
  note wf = r(2) [unfolded n]
  have D1: "branch_nodes ?th (bits ?k) t \<subseteq> D" and D2: "tmap t ?k \<noteq> None \<Longrightarrow> ?m ?k = tmap t ?k"
    using D by (auto simp: branch_ready_def)
  consider "v \<noteq> []" | "v = []" "tmap t ?k = None" | v0 where "v = []" "tmap t ?k = Some v0"
    by (cases "tmap t ?k") auto
  then show ?thesis
  proof cases
    case 1
    then have "t' = tinsert (bits ?k) ?k v t" using t' by (simp add: tupdate_def)
    note ok = updateWithSideNodes_ok [OF rep n k room v [OF 1] 1 this cf D1 D2]
    have ps: "fst (getPathSlices [] 0) = newPathSlices" using getPathSlices_new path_pool.empty by blast
    show ?thesis
      using ok [of "fst (getUpdateScratch [] 0)"] r(1) 1 fill_partial [OF rep n room(1) cf(1,2) k D1, of False]
      by (simp add: UpdateForRoot_def UpdateForRoot_with_def ps defaultValue_def Let_def mupdate_def)
  next
    case 2
    then have "wf_tree n [] t'" "tmap t' = tmap t"
      using tdelete_correct [OF wf, of ?k "bits ?k"] k t' by (auto simp: tupdate_def)
    then have "t' = t" using wf_tree_unique wf by blast
    moreover have "?m ?k = None" using r(6) 2(2) by (auto simp: map_le_def dom_def)
    ultimately show ?thesis
      using UpdateForRoot_missing [OF rep n room cf(1,2) D1 2(2)] r 2(1)
        N.room_mono [OF room(1), of b] V.room_mono [OF room(2), of bv]
      by (intro exI [of _ "smt_nodes smt"] exI [of _ "smt_values smt"] exI [of _ D])
         (simp add: mupdate_def fun_upd_idem)
  next
    case 3
    then show ?thesis
      using UpdateForRoot_delete [OF rep n room _ cf D1] D D2 t'
      by (simp add: branch_ready_def tupdate_def mupdate_def)
  qed
qed

lemma Update_partial:
  assumes rep: "prep D smt t" and n: "pathSize (smt_th smt) = n"
    and room: "roomn (b + 8 * n + 2) (smt_nodes smt)" "roomv (Suc bv) (smt_values smt)"
    and v: "v \<noteq> [] \<Longrightarrow> okvv v" and t': "t' = tupdate (H (smt_th smt) key) v t"
    and cf: "collision_free (smt_th smt) S" "preimages (smt_th smt) t \<subseteq> S"
      "preimages (smt_th smt) t' \<subseteq> S"
    and D: "branch_ready absv D smt t (H (smt_th smt) key) v"
  shows "\<exists>smt' D'. Update nI vI key v smt = (Inr (smt_root smt'), smt') \<and> prep D' smt' t' \<and>
    smt_th smt' = smt_th smt \<and> roomn b (smt_nodes smt') \<and> roomv bv (smt_values smt') \<and>
    (D = node_set (smt_th smt) t \<longrightarrow> D' = node_set (smt_th smt) t') \<and>
    absv (smt_values smt') = mupdate (H (smt_th smt) key) v (absv (smt_values smt))"
proof -
  let ?k = "H (smt_th smt) key"
  obtain s w D' where m: "UpdateForRoot nI vI key v (smt_root smt) smt =
      (Inr (thash (smt_th smt) t'), smt\<lparr>smt_nodes := s, smt_values := w\<rparr>)" "roomn b s"
     "cas (smt_th smt) (absn s) D'" "D' \<subseteq> node_set (smt_th smt) t'"
     "D = node_set (smt_th smt) t \<longrightarrow> D' = node_set (smt_th smt) t'" "roomv bv w"
     "absv w = mupdate ?k v (absv (smt_values smt))"
    using UpdateForRoot_partial [OF assms] by blast
  let ?smt = "smt\<lparr>smt_nodes := s, smt_values := w, smt_root := thash (smt_th smt) t'\<rparr>"
  note r = partial_repD [OF rep]
  have t'c: "wf_tree n [] t'" "tmap t' = mupdate ?k v (tmap t)"
    using tupdate_correct [OF r(2) [unfolded n]] r(1) t' n by simp_all
  have "mupdate ?k v (absv (smt_values smt)) \<subseteq>\<^sub>m mupdate ?k v (tmap t)"
    using r(6) by (auto simp: mupdate_def map_le_def)
  then have "prep D' ?smt t'" using m r n t'c by (simp add: partial_rep_def)
  moreover have "Update nI vI key v smt = (Inr (smt_root ?smt), ?smt)"
    using m(1) by (simp add: Update_def Root_def SetRoot_def)
  ultimately show ?thesis using m by (intro exI [of _ ?smt] exI [of _ D']) simp
qed

text \<open>One call of Update is one \<open>tupdate\<close> of the represented tree.\<close>

lemma Update_ok:
  assumes rep: "rep smt t" and n: "pathSize (smt_th smt) = n"
    and room: "roomn (b + 8 * n + 2) (smt_nodes smt)" "roomv (Suc bv) (smt_values smt)"
    and v: "v \<noteq> [] \<Longrightarrow> okvv v" and t': "t' = tupdate (H (smt_th smt) key) v t"
    and cf: "collision_free (smt_th smt) S" "preimages (smt_th smt) t \<subseteq> S"
      "preimages (smt_th smt) t' \<subseteq> S"
  shows "\<exists>smt'. Update nI vI key v smt = (Inr (smt_root smt'), smt') \<and> rep smt' t' \<and>
    smt_th smt' = smt_th smt \<and> roomn b (smt_nodes smt') \<and> roomv bv (smt_values smt')"
proof -
  note r = representsD [OF rep]
  obtain smt' D' where m: "Update nI vI key v smt = (Inr (smt_root smt'), smt')" "prep D' smt' t'"
    "smt_th smt' = smt_th smt" "roomn b (smt_nodes smt')" "roomv bv (smt_values smt')"
    "D' = node_set (smt_th smt) t'" "absv (smt_values smt') = mupdate (H (smt_th smt) key) v (tmap t)"
    using Update_partial [OF represents_partial [OF rep] n room v t' cf represents_ready [OF rep]] r(1,5)
    by auto
  have "tmap t' = absv (smt_values smt')" using tupdate_correct [OF r(2)] r(1) t' m(7) by simp
  then have "rep smt' t'" using partial_repD [OF m(2)] m(3,6) by (simp add: represents_def)
  then show ?thesis using m by blast
qed

lemma Get_ok:
  assumes rep: "rep smt t" and n: "pathSize (smt_th smt) = n" and room: "roomv bv (smt_values smt)"
    and cf: "collision_free (smt_th smt) (preimages (smt_th smt) t)"
  shows "Get vI smt key = Inr (case tmap t (H (smt_th smt) key) of None \<Rightarrow> [] | Some v \<Rightarrow> v)"
proof -
  note r = representsD [OF rep]
  have k: "length (H (smt_th smt) key) = n" using r(1) n by simp
  have "Root smt = placeholder (smt_th smt) \<longleftrightarrow> t = Empty"
    using placeholder_thash [OF cf order_refl] r(3) by (simp add: Root_def)
  then show ?thesis
    using V.get_law [OF room value_key [OF k]] r(1,5)
    by (auto simp: Get_def values_Get_def defaultValue_def split: option.splits)
qed

lemma Has_ok:
  assumes rep: "rep smt t" and n: "pathSize (smt_th smt) = n" and room: "roomv bv (smt_values smt)"
    and cf: "collision_free (smt_th smt) (preimages (smt_th smt) t)"
  shows "Has vI smt key = Inr (H (smt_th smt) key \<in> dom (tmap t))"
  using Get_ok [OF assms, of key] wf_tree_keys [OF representsD(2) [OF rep], of "H (smt_th smt) key"]
  by (auto simp: Has_def defaultValue_def split: option.splits)

end

end
