(* ===== verification/ProofsCorrect.thy ===== *)
theory ProofsCorrect
  imports Proofs SMTCorrect
begin

text \<open>
  Correctness of \<open>src/proofs.go\<close>: verification is the climb of \<open>MerkleHash\<close> from the claimed leaf
  and never panics; a proof that verifies against the root of a tree tells the truth about the tree
  (soundness, under collision freedom); the proofs made by \<open>Prove\<close> and \<open>ProveUpdatable\<close> verify
  (completeness); compaction and decompaction are inverse on sane proofs.
\<close>

section \<open>The verification loop is a climb\<close>

lemma copyInto_same [simp]: "length s = n \<Longrightarrow> copyInto n s = s"
  by (simp add: copyInto_def)

lemma verify_loop_climb:
  assumes "wf_th th" "length path = pathSize th" "length sn \<le> 8 * pathSize th"
    "\<forall>s\<in>set sn. length s = pathSize th" "i \<le> length sn"
  shows "verify_loop th path sn [i..<length sn] c us =
    Inr (climb th (bits path) (rev (drop i sn)) c,
         us @ map (\<lambda>d. (H th d, d)) (climb_list th (bits path) (rev (drop i sn)) c))"
  using assms(5)
proof (induction "length sn - i" arbitrary: i c us)
  case 0
  then show ?case by (cases "bits path") auto
next
  case (Suc m)
  then have i: "i < length sn" "m = length sn - Suc i" by auto
  let ?d = "if bits path ! (length sn - 1 - i) then node_data (sn ! i) c else node_data c (sn ! i)"
  have bnd: "length sn - 1 - i < 8 * length path" using i assms(2,3) by simp
  have lt: "length (rev (drop (Suc i) sn)) < length (bits path)"
    "length (rev (drop (Suc i) sn)) = length sn - 1 - i"
    using i assms(2,3) by simp_all
  have rv: "rev (drop i sn) = rev (drop (Suc i) sn) @ [sn ! i]"
    using i(1) by (simp add: Cons_nth_drop_Suc [symmetric])
  have cl: "climb th (bits path) (rev (drop i sn)) c = climb th (bits path) (rev (drop (Suc i) sn)) (H th ?d)"
    "climb_list th (bits path) (rev (drop i sn)) c =
      ?d # climb_list th (bits path) (rev (drop (Suc i) sn)) (H th ?d)"
    unfolding rv climb_snoc [OF lt(1)] climb_list_snoc [OF lt(1)] lt(2) by (simp_all add: Let_def)
  have upt: "[i..<length sn] = i # [Suc i..<length sn]" using i by (simp add: upt_conv_Cons)
  have s: "length (sn ! i) = pathSize th" using assms(4) i by simp
  have "verify_loop th path sn [i..<length sn] c us =
      verify_loop th path sn [Suc i..<length sn] (H th ?d) (us @ [(H th ?d, ?d)])"
    unfolding upt using assms(1) i s bnd
    by (cases "bits path ! (length sn - 1 - i)") (simp_all add: getBitAtFromMSB_bit right_def Let_def del: upt_Suc)
  also have "\<dots> = Inr (climb th (bits path) (rev (drop (Suc i) sn)) (H th ?d),
      (us @ [(H th ?d, ?d)]) @ map (\<lambda>d. (H th d, d)) (climb_list th (bits path) (rev (drop (Suc i) sn)) (H th ?d)))"
    using i by (intro Suc.hyps(1)) auto
  finally show ?case unfolding cl by simp
qed

section \<open>What a proof claims\<close>

text \<open>The data of the leaf a proof starts from (None for a placeholder); no start: the proof is refused.\<close>

definition claim :: "treeHasher \<Rightarrow> SparseMerkleProof \<Rightarrow> bytes \<Rightarrow> bytes \<Rightarrow> bytes option option" where
  "claim th proof path value =
     (if value = [] then
        (case NonMembershipLeafData proof of
           None \<Rightarrow> Some None
         | Some d \<Rightarrow>
             if take (pathSize th) (drop 1 d) = path then None else Some (Some (leafPrefix @ drop 1 d)))
      else Some (Some (leaf_data th path value)))"

definition data_hash :: "treeHasher \<Rightarrow> bytes option \<Rightarrow> bytes" where
  "data_hash th d = (case d of None \<Rightarrow> placeholder th | Some x \<Rightarrow> H th x)"

lemma length_data_hash [simp]: "wf_th th \<Longrightarrow> length (data_hash th d) = pathSize th"
  by (simp add: data_hash_def split: option.splits)

lemma sanityCheck_sides:
  "sanityCheck th proof \<Longrightarrow> length (SideNodes proof) \<le> 8 * pathSize th \<and>
    (\<forall>s\<in>set (SideNodes proof). length s = pathSize th)"
  by (auto simp: sanityCheck_def pathSize_def split: if_splits)

lemma sanityCheck_leaf:
  "sanityCheck th proof \<Longrightarrow> NonMembershipLeafData proof = Some d \<Longrightarrow> length d = 2 * pathSize th + 1"
  by (auto simp: sanityCheck_def pathSize_def split: if_splits)

lemma parseLeaf_sane:
  "length d = 2 * pathSize th + 1 \<Longrightarrow>
   parseLeaf th d = Inr (take (pathSize th) (drop 1 d), drop (pathSize th) (drop 1 d))"
  by (simp add: parseLeaf_def)

lemma verifyProofWithUpdates_eq:
  fixes key :: bytes
  assumes "wf_hash h"
  defines "th \<equiv> newTreeHasher h"
  defines "path \<equiv> H th key"
  shows "verifyProofWithUpdates proof root key value h =
    Inr (if \<not> sanityCheck th proof then (False, [])
         else case claim th proof path value of
                None \<Rightarrow> (False, [])
              | Some d \<Rightarrow>
                  (climb th (bits path) (rev (SideNodes proof)) (data_hash th d) = root,
                   map (\<lambda>d. (H th d, d)) (case d of None \<Rightarrow> [] | Some x \<Rightarrow> [x]) @
                   map (\<lambda>d. (H th d, d))
                     (climb_list th (bits path) (rev (SideNodes proof)) (data_hash th d))))"
proof (cases "sanityCheck th proof")
  case False
  then show ?thesis
    unfolding verifyProofWithUpdates_def by (simp add: th_def Let_def)
next
  case True
  have wf: "wf_th th" using assms(1) by (simp add: th_def)
  note sane = sanityCheck_sides [OF True]
  have len: "length path = pathSize th" using wf by (simp add: path_def)
  have loop: "verify_loop th path (SideNodes proof) [0..<length (SideNodes proof)] c us =
      Inr (climb th (bits path) (rev (SideNodes proof)) c,
           us @ map (\<lambda>d. (H th d, d)) (climb_list th (bits path) (rev (SideNodes proof)) c))" for c us
    using verify_loop_climb [OF wf len, of "SideNodes proof" 0 c us] sane by simp
  have paths: "th_path th key = path" using wf by (simp add: path_def)
  have split: "take (pathSize th) (drop 1 d) @ drop (pathSize th) (drop 1 d) = drop 1 d" for d :: bytes
    by (rule append_take_drop_id)
  have dl: "digestLeaf th p v = (H th (leafPrefix @ p @ v), leafPrefix @ p @ v)" for p v
    using wf by simp
  show ?thesis
  proof (cases "value = []")
    case v: False
    then show ?thesis
      unfolding verifyProofWithUpdates_def claim_def data_hash_def
      using True wf by (simp add: th_def [symmetric] paths Let_def loop defaultValue_def dl leaf_data_def)
  next
    case v: True
    show ?thesis
    proof (cases "NonMembershipLeafData proof")
      case None
      then show ?thesis
        unfolding verifyProofWithUpdates_def claim_def data_hash_def
        using True v by (simp add: th_def [symmetric] paths Let_def loop defaultValue_def)
    next
      case (Some d)
      note parse = parseLeaf_sane [OF sanityCheck_leaf [OF True Some]]
      show ?thesis
        unfolding verifyProofWithUpdates_def claim_def data_hash_def
        using True v Some parse
        by (simp add: th_def [symmetric] paths Let_def loop defaultValue_def dl
            append_take_drop_id del: drop_drop One_nat_def)
    qed
  qed
qed

lemma VerifyProof_eq:
  assumes "wf_hash h"
  defines "th \<equiv> newTreeHasher h"
  shows "VerifyProof proof root key value h =
    Inr (sanityCheck th proof \<and> (\<exists>d. claim th proof (H th key) value = Some d \<and>
      climb th (bits (H th key)) (rev (SideNodes proof)) (data_hash th d) = root))"
  using verifyProofWithUpdates_eq [OF assms(1), of "proof" root key "value"]
  by (auto simp: VerifyProof_def th_def split: option.splits)

section \<open>Soundness\<close>

text \<open>Everything a verification hashes: the key's value, the claimed leaf and the climb.\<close>

definition claim_preimages :: "treeHasher \<Rightarrow> SparseMerkleProof \<Rightarrow> bytes \<Rightarrow> bytes \<Rightarrow> bytes set" where
  "claim_preimages th proof path value =
     (case claim th proof path value of
        None \<Rightarrow> {}
      | Some d \<Rightarrow> set_option d \<union> (if value = [] then {} else {value}) \<union>
          set (climb_list th (bits path) (rev (SideNodes proof)) (data_hash th d)))"

text \<open>A climb that reaches the hash of a tree follows the siblings of the tree: it is a zipper of it.\<close>

lemma climb_zipper:
  assumes th: "wf_th th" "collision_free th S"
    and hs: "length hs \<le> length bs" "\<forall>h\<in>set hs. length h = pathSize th" "length c = pathSize th"
    and S: "set (climb_list th bs hs c) \<subseteq> S" "preimages th t \<subseteq> S"
    and t: "climb th bs hs c = thash th t"
  shows "\<exists>ss t0. t = plug bs ss t0 \<and> hs = map (thash th) ss \<and> c = thash th t0"
  using hs S t
proof (induction hs arbitrary: bs t)
  case Nil
  then show ?case by (intro exI [of _ "[]"] exI [of _ t]) (cases bs; simp)
next
  case (Cons h hs)
  obtain b bs' where bs: "bs = b # bs'" using Cons.prems(1) by (cases bs) auto
  let ?c = "climb th bs' hs c"
  let ?d = "if b then node_data h ?c else node_data ?c h"
  have d: "H th ?d = thash th t" "?d \<in> S"
    using Cons.prems(4,6) by (auto simp: bs Let_def split: if_splits)
  have nd: "\<exists>x y. ?d = node_data x y" by auto
  show ?case
  proof (cases t)
    case Empty
    then show ?thesis using collision_free_placeholder [OF th(2) d(2)] d(1) by simp
  next
    case (Leaf k' v)
    have "?d = leaf_data th k' v" by (rule collision_freeD [OF th(2)]) (use d Cons.prems(5) Leaf in auto)
    then show ?thesis using nd by (metis leaf_node_neq(4))
  next
    case (Node l r)
    define u s where "u = (if b then r else l)" and "s = (if b then l else r)"
    have "?d = node_data (thash th l) (thash th r)"
      by (rule collision_freeD [OF th(2)]) (use d Cons.prems(5) Node in auto)
    then have c: "?c = thash th u" "h = thash th s"
      using th(1) Cons.prems(2,3) by (cases b; auto simp: node_data_inject u_def s_def)+
    have "\<exists>ss t0. u = plug bs' ss t0 \<and> hs = map (thash th) ss \<and> c = thash th t0"
      using Cons.prems(1-5) c(1) Node by (intro Cons.IH) (auto simp: bs Let_def u_def)
    then obtain ss t0 where "u = plug bs' ss t0" "hs = map (thash th) ss" "c = thash th t0" by blast
    then have "t = plug bs (s # ss) t0 \<and> h # hs = map (thash th) (s # ss) \<and> c = thash th t0"
      using Node c(2) by (auto simp: bs u_def s_def)
    then show ?thesis by (intro exI [of _ "s # ss"] exI [of _ t0])
  qed
qed

lemma wf_tree_plug:
  assumes "wf_tree n p (plug bs ss f)" "length ss \<le> length bs" "bits k = p @ bs"
  shows "wf_tree n (p @ take (length ss) bs) f" "tmap (plug bs ss f) k = tmap f k"
    "preimages th f \<subseteq> preimages th (plug bs ss f)"
proof -
  have "wf_tree n (p @ take (length ss) bs) f \<and> tmap (plug bs ss f) k = tmap f k \<and>
      preimages th f \<subseteq> preimages th (plug bs ss f)"
    using assms
  proof (induction bs ss f arbitrary: p rule: plug.induct)
    case (1 b bs s ss f)
    define u where "u = plug bs ss f"
    have N: "plug (b # bs) (s # ss) f = (if b then Node s u else Node u s)" by (simp add: u_def)
    have "wf_tree n ((p @ [b]) @ take (length ss) bs) f \<and> tmap u k = tmap f k \<and> preimages th f \<subseteq> preimages th u"
      unfolding u_def using "1.prems" "1.IH"(1) [of "p @ [True]"] "1.IH"(2) [of "p @ [False]"] by (cases b) simp_all
    moreover have "tmap (plug (b # bs) (s # ss) f) k = tmap u k"
      using "1.prems" tmap_Node [of n p s u k] tmap_Node [of n p u s k] unfolding N
      by (cases b) (simp_all add: nth_append bits_append_less del: tmap.simps)
    ultimately show ?case unfolding N by auto
  qed auto
  then show "wf_tree n (p @ take (length ss) bs) f" "tmap (plug bs ss f) k = tmap f k"
    "preimages th f \<subseteq> preimages th (plug bs ss f)" by simp_all
qed

lemma climb_thash:
  assumes th: "wf_th th" "collision_free th S"
    and hs: "length hs \<le> length bs" "\<forall>h\<in>set hs. length h = pathSize th" "length c = pathSize th"
    and S: "set (climb_list th bs hs c) \<subseteq> S" "preimages th t \<subseteq> S"
    and t: "wf_tree n p t" "bits k = p @ bs" "climb th bs hs c = thash th t"
  shows "\<exists>t0. c = thash th t0 \<and> tmap t k = tmap t0 k \<and> preimages th t0 \<subseteq> preimages th t \<and>
    wf_tree n (p @ take (length hs) bs) t0"
proof -
  obtain ss t0 where z: "t = plug bs ss t0" "hs = map (thash th) ss" "c = thash th t0"
    using climb_zipper [OF th hs S t(3)] by blast
  then have "length ss \<le> length bs" using hs(1) by simp
  then show ?thesis using wf_tree_plug [OF t(1) [unfolded z(1)] _ t(2)] z by auto
qed

lemma verify_sound:
  assumes "wf_hash h" and t: "wf_tree (pathSize (newTreeHasher h)) [] t"
    and v: "VerifyProof proof (thash (newTreeHasher h) t) key value h = Inr True"
    and cf: "collision_free (newTreeHasher h) (preimages (newTreeHasher h) t \<union>
      claim_preimages (newTreeHasher h) proof (H (newTreeHasher h) key) value)"
  shows "tmap t (H (newTreeHasher h) key) = (if value = [] then None else Some value)"
proof -
  define th where "th = newTreeHasher h"
  define k where "k = H th key"
  let ?S = "preimages th t \<union> claim_preimages th proof k value"
  have th: "wf_th th" using assms(1) by (simp add: th_def)
  note cf = cf [folded th_def, folded k_def]
  obtain d where d: "sanityCheck th proof" "claim th proof k value = Some d"
    "climb th (bits k) (rev (SideNodes proof)) (data_hash th d) = thash th t"
    using v VerifyProof_eq [OF assms(1)] by (auto simp: th_def k_def)
  note sane = sanityCheck_sides [OF d(1)]
  have k: "length k = pathSize th" using th by (simp add: k_def)
  have S: "set (climb_list th (bits k) (rev (SideNodes proof)) (data_hash th d)) \<subseteq> ?S"
    "set_option d \<subseteq> ?S" "value \<noteq> [] \<Longrightarrow> value \<in> ?S" "preimages th t \<subseteq> ?S"
    by (auto simp: claim_preimages_def d(2))
  obtain t0 where t0: "data_hash th d = thash th t0" "tmap t k = tmap t0 k"
    "preimages th t0 \<subseteq> preimages th t"
    "wf_tree (pathSize th) (take (length (SideNodes proof)) (bits k)) t0"
    using climb_thash [OF th cf, of "rev (SideNodes proof)" "bits k" "data_hash th d" t "pathSize th" "[]" k]
      sane S(1,4) t d(3) k th by (auto simp: th_def)
  have pt0: "preimages th t0 \<subseteq> ?S" using t0(3) by auto
  have "tmap t0 k = (if value = [] then None else Some value)"
  proof (cases d)
    case None
    then have "t0 = Empty" using t0(1) placeholder_thash [OF cf pt0] by (simp add: data_hash_def)
    then show ?thesis using d(2) None by (auto simp: claim_def split: if_splits)
  next
    case (Some x)
    have leaf: "\<exists>q. x = leafPrefix @ q"
      using d(2) Some by (auto simp: claim_def leaf_data_def split: if_splits option.splits)
    have xS: "x \<in> ?S" using S(2) Some by simp
    have "t0 \<noteq> Empty"
      using t0(1) Some collision_free_placeholder [OF cf xS] by (auto simp: data_hash_def)
    moreover have "tdata th t0 \<in> ?S" if "t0 \<noteq> Empty"
      using that pt0 by (cases t0) auto
    ultimately have x: "x = tdata th t0"
      by (intro collision_freeD [OF cf xS]) (use t0(1) Some in \<open>auto simp: data_hash_def thash_tdata\<close>)
    obtain k' v' where t0l: "t0 = Leaf k' v'"
      using x leaf \<open>t0 \<noteq> Empty\<close> by (cases t0) auto
    have k': "length k' = pathSize th" using t0(4) t0l by simp
    show ?thesis
    proof (cases "value = []")
      case False
      then have "leaf_data th k value = leaf_data th k' v'" using x Some d(2) t0l by (simp add: claim_def)
      then have "k' = k" "H th value = H th v'" using k k' by (simp_all add: leaf_data_inject)
      moreover from this have "value = v'"
        by (intro collision_freeD [OF cf S(3) [OF False]]) (use pt0 t0l in auto)
      ultimately show ?thesis using t0l False by simp
    next
      case True
      then obtain dd where dd: "x = leafPrefix @ drop 1 dd" "take (pathSize th) (drop 1 dd) \<noteq> k"
        using Some d(2) by (auto simp: claim_def split: option.splits if_splits)
      then have "drop 1 dd = k' @ H th v'" using x t0l by (simp add: leaf_data_def)
      then have "k' \<noteq> k" using dd(2) k' by auto
      then show ?thesis using t0l True by simp
    qed
  qed
  then show ?thesis using t0(2) by (simp add: th_def k_def)
qed

section \<open>Completeness\<close>

text \<open>The proof a complete tree has for a path.\<close>

definition tree_proof :: "treeHasher \<Rightarrow> mtree \<Rightarrow> bytes \<Rightarrow> bool \<Rightarrow> SparseMerkleProof" where
  "tree_proof th t k updatable =
     \<lparr>SideNodes = rev (map (thash th) (sides (bits k) t)),
      NonMembershipLeafData =
        (case focus (bits k) t of Leaf k' v' \<Rightarrow> if k' \<noteq> k then Some (leaf_data th k' v') else None | _ \<Rightarrow> None),
      SiblingData = (if updatable \<and> sides (bits k) t \<noteq> [] then Some (tdata th (last (sides (bits k) t))) else None)\<rparr>"

lemma wf_th_new: "wf_th th \<Longrightarrow> newTreeHasher (hasher th) = th"
  by (simp add: wf_th_def newTreeHasher_def Let_def pathSize_def)

lemma tree_proof_sane:
  assumes "wf_th th" "wf_tree (pathSize th) [] t" "length k = pathSize th"
  shows "sanityCheck th (tree_proof th t k u)"
proof -
  have foc: "length k' = pathSize th" if "focus (bits k) t = Leaf k' v'" for k' v'
    using wf_tree_focus [OF assms(2), of "bits k"] that by simp
  have sib: "hd (rev (map (thash th) (sides (bits k) t))) = H th (tdata th (last (sides (bits k) t)))"
    if "sides (bits k) t \<noteq> []"
    using that last_side_nonempty [OF assms(2), of "bits k"] focus_not_Node [OF assms(2), of k "bits k"]
      assms(3) by (simp add: hd_rev last_map thash_tdata)
  have "length (sides (bits k) t) \<le> pathSize th * 8" using length_sides_le [of "bits k" t] assms(3) by simp
  moreover have "hash_Size (hasher th) = pathSize th" by (simp add: pathSize_def)
  ultimately show ?thesis
    using assms(1) foc sib by (auto simp: sanityCheck_def tree_proof_def split: mtree.splits)
qed

lemma tree_proof_verifies:
  assumes "wf_th th" "wf_tree (pathSize th) [] t"
  shows "VerifyProof (tree_proof th t (H th key) u) (thash th t) key
    (case tmap t (H th key) of None \<Rightarrow> [] | Some v \<Rightarrow> v) (hasher th) = Inr True"
proof -
  let ?k = "H th key" and ?p = "tree_proof th t (H th key) u"
  have k: "length ?k = pathSize th" using assms(1) by simp
  note tm = focus_tmap [OF assms(2), of ?k "bits ?k", simplified]
  note notN = focus_not_Node [OF assms(2) _ k, of "bits ?k", simplified]
  have foc: "wf_tree (pathSize th) (take (length (sides (bits ?k) t)) (bits ?k)) (focus (bits ?k) t)"
    using wf_tree_focus [OF assms(2), of "bits ?k"] by simp
  have "claim th ?p ?k (case tmap t ?k of None \<Rightarrow> [] | Some v \<Rightarrow> v) = Some (focus_data th (focus (bits ?k) t))"
    using notN tm foc by (cases "focus (bits ?k) t") (auto simp: claim_def tree_proof_def leaf_data_def leafPrefix_def)
  moreover have "data_hash th (focus_data th (focus (bits ?k) t)) = thash th (focus (bits ?k) t)"
    using notN by (cases "focus (bits ?k) t") (auto simp: data_hash_def)
  moreover have "climb th (bits ?k) (rev (SideNodes ?p)) (thash th (focus (bits ?k) t)) = thash th t"
    using thash_plug [of th "bits ?k" "sides (bits ?k) t" "focus (bits ?k) t"]
    by (simp add: tree_proof_def plug_sides_focus)
  ultimately show ?thesis
    using VerifyProof_eq [of "hasher th"] wf_th_new [OF assms(1)] assms tree_proof_sane [OF assms k]
    by (simp add: wf_th_def)
qed

context smt_stores
begin

lemma Prove_ok:
  assumes rep: "rep smt t" and n: "pathSize (smt_th smt) = n" and room: "roomn b (smt_nodes smt)"
    and cf: "collision_free (smt_th smt) (preimages (smt_th smt) t)"
  shows "doProveForRoot nI smt key (Root smt) u = Inr (tree_proof (smt_th smt) t (H (smt_th smt) key) u)"
proof -
  let ?th = "smt_th smt" and ?k = "H (smt_th smt) key"
  note r = representsD [OF rep]
  have k: "length ?k = n" using r(1) n by simp
  have ps: "fst (getPathSlices [] 0) = newPathSlices" using getPathSlices_new path_pool.empty by blast
  note fill = fill_represents [OF rep n room cf order_refl k, of u]
  note notN = focus_not_Node [OF r(2) [unfolded n] _ k, of "bits ?k", simplified]
  have foc: "wf_tree n (take (length (sides (bits ?k) t)) (bits ?k)) (focus (bits ?k) t)"
    using wf_tree_focus [OF r(2) [unfolded n], of "bits ?k"] by simp
  have mf: "List.map_filter id (rev (map Some xs)) = rev xs" for xs :: "bytes list"
    by (simp add: map_filter_def rev_map [symmetric] filter_map comp_def)
  have ph: "thash ?th (focus (bits ?k) t) = placeholder ?th \<longleftrightarrow> focus (bits ?k) t = Empty"
    using placeholder_thash [OF cf] focus_preimages by blast
  show ?thesis
    using fill notN foc ph r(1) n
    by (cases "focus (bits ?k) t")
       (simp_all add: doProveForRoot_def ps Root_def Let_def tree_proof_def mf go_bytes_def del: map_map)
qed

end

section \<open>Compact proofs\<close>

lemma ceilDiv8_bound: "n \<le> 8 * ceilDiv8 n"
  by (simp add: ceilDiv8_def)

text \<open>The bm after \<open>i\<close> rounds: a bit for each placeholder among the first \<open>i\<close> side nodes.\<close>

lemma compact_loop_eq:
  assumes "\<forall>s\<in>set sn. length s = hash_Size (hasher th)" "i \<le> length sn"
    and "length bm = ceilDiv8 (length sn)"
    and "\<forall>j < 8 * length bm. bit_at bm j \<longleftrightarrow> j < i \<and> sn ! j = placeholder th"
    and "acc = filter (\<lambda>s. s \<noteq> placeholder th) (take i sn)"
  shows "\<exists>bm'. compact_loop th sn [i..<length sn] bm acc =
      Inr (bm', filter (\<lambda>s. s \<noteq> placeholder th) sn) \<and> length bm' = ceilDiv8 (length sn) \<and>
    (\<forall>j < 8 * length bm'. bit_at bm' j \<longleftrightarrow> j < length sn \<and> sn ! j = placeholder th)"
  using assms(2-5)
proof (induction "length sn - i" arbitrary: i bm acc)
  case 0
  then show ?case by (intro exI [of _ bm]) simp
next
  case (Suc m)
  then have i: "i < length sn" by simp
  have upt: "[i..<length sn] = i # [Suc i..<length sn]" using i by (simp add: upt_conv_Cons)
  have s: "copyInto (hash_Size (hasher th)) (sn ! i) = sn ! i" using assms(1) i by simp
  have bnd: "i < 8 * length bm" using i Suc.prems(2) ceilDiv8_bound [of "length sn"] by simp
  show ?case
  proof (cases "sn ! i = placeholder th")
    case True
    obtain bm' where m: "setBitAtFromMSB bm i = Inr bm'" "length bm' = length bm"
      "\<And>j. j < 8 * length bm \<Longrightarrow> bit_at bm' j = (j = i \<or> bit_at bm j)"
      using setBitAtFromMSB_ok [OF bnd] by blast
    have "\<exists>bm''. compact_loop th sn [Suc i..<length sn] bm' acc =
        Inr (bm'', filter (\<lambda>s. s \<noteq> placeholder th) sn) \<and> length bm'' = ceilDiv8 (length sn) \<and>
      (\<forall>j < 8 * length bm''. bit_at bm'' j \<longleftrightarrow> j < length sn \<and> sn ! j = placeholder th)"
      using Suc.hyps(2) Suc.prems i m True
      by (intro Suc.hyps(1)) (auto simp: take_Suc_conv_app_nth less_Suc_eq)
    then show ?thesis unfolding upt using i s True m(1) by (simp add: Let_def)
  next
    case False
    have "\<exists>bm''. compact_loop th sn [Suc i..<length sn] bm (acc @ [sn ! i]) =
        Inr (bm'', filter (\<lambda>s. s \<noteq> placeholder th) sn) \<and> length bm'' = ceilDiv8 (length sn) \<and>
      (\<forall>j < 8 * length bm''. bit_at bm'' j \<longleftrightarrow> j < length sn \<and> sn ! j = placeholder th)"
      using Suc.hyps(2) Suc.prems i False
      by (intro Suc.hyps(1)) (auto simp: take_Suc_conv_app_nth less_Suc_eq)
    then show ?thesis unfolding upt using i s False by (simp add: Let_def)
  qed
qed

lemma decompact_loop_eq:
  assumes "\<forall>j < 8 * length bm. bit_at bm j \<longleftrightarrow> j < length sn \<and> sn ! j = placeholder th"
    and "length sn \<le> 8 * length bm" "i \<le> length sn" "acc = take i sn"
    and "pos = length (filter (\<lambda>s. s \<noteq> placeholder th) (take i sn))"
  shows "decompact_loop th bm (filter (\<lambda>s. s \<noteq> placeholder th) sn) [i..<length sn] pos acc = Inr sn"
  using assms(3-5)
proof (induction "length sn - i" arbitrary: i pos acc)
  case (Suc m)
  then have i: "i < length sn" by simp
  have upt: "[i..<length sn] = i # [Suc i..<length sn]" using i by (simp add: upt_conv_Cons)
  have bit: "getBitAtFromMSB bm i = Inr (of_bool (sn ! i = placeholder th))"
    using i assms(1,2) by (simp add: getBitAtFromMSB_bit)
  have sn: "sn = take i sn @ sn ! i # drop (Suc i) sn" using i by (rule id_take_nth_drop)
  show ?case
  proof (cases "sn ! i = placeholder th")
    case True
    have "decompact_loop th bm (filter (\<lambda>s. s \<noteq> placeholder th) sn) [Suc i..<length sn] pos
        (acc @ [placeholder th]) = Inr sn"
      using Suc.hyps(2) Suc.prems i True by (intro Suc.hyps(1)) (auto simp: take_Suc_conv_app_nth)
    then show ?thesis unfolding upt using bit True by simp
  next
    case False
    have idx: "go_index (filter (\<lambda>s. s \<noteq> placeholder th) sn) pos = Inr (sn ! i)"
      using False Suc.prems(3) by (subst sn, subst (2) sn) (simp add: go_index_def)
    have "decompact_loop th bm (filter (\<lambda>s. s \<noteq> placeholder th) sn) [Suc i..<length sn] (pos + 1)
        (acc @ [sn ! i]) = Inr sn"
      using Suc.hyps(2) Suc.prems i False by (intro Suc.hyps(1)) (auto simp: take_Suc_conv_app_nth)
    then show ?thesis unfolding upt using bit False idx by simp
  qed
qed simp

lemma compact_roundtrip:
  assumes "wf_hash h" and sane: "sanityCheck (newTreeHasher h) proof"
  shows "\<exists>c. CompactProof proof h = Inr c \<and> DecompactProof c h = Inr proof \<and>
    cSideNodes c = filter (\<lambda>s. s \<noteq> placeholder (newTreeHasher h)) (SideNodes proof)"
proof -
  let ?th = "newTreeHasher h" and ?sn = "SideNodes proof"
  let ?f = "filter (\<lambda>s. s \<noteq> placeholder ?th) ?sn"
  note s = sanityCheck_sides [OF sane]
  have len: "\<forall>s\<in>set ?sn. length s = hash_Size (hasher ?th)" using s by (simp add: pathSize_def)
  obtain bm where m: "compact_loop ?th ?sn [0..<length ?sn] (emptyBytes (ceilDiv8 (length ?sn))) [] =
      Inr (bm, ?f)" "length bm = ceilDiv8 (length ?sn)"
    "\<forall>j < 8 * length bm. bit_at bm j \<longleftrightarrow> j < length ?sn \<and> ?sn ! j = placeholder ?th"
    using compact_loop_eq [OF len, of 0 "emptyBytes (ceilDiv8 (length ?sn))" "[]"] by auto
  let ?c = "\<lparr>cSideNodes = ?f, cNonMembershipLeafData = NonMembershipLeafData proof, cBitMask = bm,
    cNumSideNodes = int (length ?sn), cSiblingData = SiblingData proof\<rparr>"
  have bnd: "length ?sn \<le> 8 * length bm" using m(2) ceilDiv8_bound by simp
  have cnt: "length (filter (bit_at bm) [0..<8 * length bm]) + length ?f = length ?sn"
  proof -
    have "[0..<8 * length bm] = [0..<length ?sn] @ [length ?sn..<8 * length bm]"
      using bnd by (metis le_add_diff_inverse upt_add_eq_append zero_le)
    moreover have "filter (bit_at bm) [length ?sn..<8 * length bm] = []"
      using m(3) by (auto simp: filter_empty_conv)
    moreover have "filter (bit_at bm) [0..<length ?sn] =
        filter (\<lambda>j. ?sn ! j = placeholder ?th) [0..<length ?sn]"
      using m(3) bnd by (intro filter_cong) auto
    moreover have "length (filter (\<lambda>j. ?sn ! j = placeholder ?th) [0..<length ?sn]) =
        length (filter (\<lambda>s. s = placeholder ?th) ?sn)"
      by (subst (5) map_nth [symmetric]) (simp add: filter_map comp_def)
    ultimately show ?thesis
      using sum_length_filter_compl [of "\<lambda>s. s = placeholder ?th" ?sn] by simp
  qed
  have "compactSanityCheck ?th ?c = Inr True"
    using s m(2) cnt countSetBits_eq [of bm] by (auto simp: compactSanityCheck_def)
  moreover have "decompact_loop ?th bm ?f [0..<length ?sn] 0 [] = Inr ?sn"
    using decompact_loop_eq [OF m(3) bnd, of 0 "[]" 0] by simp
  ultimately show ?thesis
    using sane m(1) by (intro exI [of _ ?c]) (simp add: CompactProof_def DecompactProof_def Let_def)
qed

end
