(* ===== verification/MapStoreFixed.thy ===== *)
theory MapStoreFixed
  imports MapStore
begin

text \<open>
  Model of \<open>src/mapstore_fixed.go\<close>: a map keyed by 32-byte arrays. A key of another length is a
  panic in every method. The interpretation \<open>fixed\<close> discharges the MapStore contract for keys of
  32 bytes.
\<close>

record FixedSizeMap =
  fm_m :: "bytes \<rightharpoonup> bytes"

definition NewFixedSizeMap :: FixedSizeMap where
  "NewFixedSizeMap = \<lparr>fm_m = Map.empty\<rparr>"

text \<open>The capacity is a hint to the allocator: the map is the same empty map.\<close>

definition NewFixedSizeMapWithCapacity :: "nat \<Rightarrow> FixedSizeMap" where
  "NewFixedSizeMapWithCapacity n = \<lparr>fm_m = Map.empty\<rparr>"

definition toFixedKey :: "bytes \<Rightarrow> bytes result" where
  "toFixedKey key =
     (if length key \<noteq> 32 then Inl (Panic ''FixedSizeMap requires 32-byte keys'') else Inr key)"

definition FixedSizeMap_Get :: "FixedSizeMap \<Rightarrow> bytes \<Rightarrow> bytes result" where
  "FixedSizeMap_Get sm key =
     bindR (toFixedKey key) (\<lambda>k.
       case fm_m sm k of Some value \<Rightarrow> Inr value | None \<Rightarrow> Inl (InvalidKeyError key))"

definition FixedSizeMap_Set :: "FixedSizeMap \<Rightarrow> bytes \<Rightarrow> bytes \<Rightarrow> unit result \<times> FixedSizeMap" where
  "FixedSizeMap_Set sm key value =
     (case toFixedKey key of
        Inl e \<Rightarrow> (Inl e, sm)
      | Inr k \<Rightarrow> (Inr (), sm\<lparr>fm_m := (fm_m sm)(k \<mapsto> value)\<rparr>))"

definition FixedSizeMap_Delete :: "FixedSizeMap \<Rightarrow> bytes \<Rightarrow> unit result \<times> FixedSizeMap" where
  "FixedSizeMap_Delete sm key =
     (case toFixedKey key of
        Inl e \<Rightarrow> (Inl e, sm)
      | Inr k \<Rightarrow>
          (case fm_m sm k of
             Some _ \<Rightarrow> (Inr (), sm\<lparr>fm_m := (fm_m sm)(k := None)\<rparr>)
           | None \<Rightarrow> (Inl (InvalidKeyError key), sm)))"

definition FixedSizeMap_Len :: "FixedSizeMap \<Rightarrow> nat" where
  "FixedSizeMap_Len sm = card (dom (fm_m sm))"

definition FixedSizeMap_store :: "FixedSizeMap MapStore" where
  "FixedSizeMap_store =
     \<lparr>ms_Get = FixedSizeMap_Get, ms_Set = FixedSizeMap_Set, ms_Delete = FixedSizeMap_Delete\<rparr>"

section \<open>Contract\<close>

lemma FixedSizeMap_map_store:
  "map_store FixedSizeMap_store fm_m (\<lambda>n s. True) (\<lambda>k. length k = 32) (\<lambda>v. True)"
  by unfold_locales
    (auto simp: FixedSizeMap_store_def FixedSizeMap_Get_def FixedSizeMap_Set_def
      FixedSizeMap_Delete_def toFixedKey_def split: option.splits)

interpretation fixed: map_store FixedSizeMap_store fm_m "\<lambda>n s. True" "\<lambda>k. length k = 32"
    "\<lambda>v. True"
  by (rule FixedSizeMap_map_store)

lemma FixedSizeMap_wrong_size:
  assumes "length key \<noteq> 32"
  shows "\<exists>msg. FixedSizeMap_Get sm key = Inl (Panic msg)"
    and "\<exists>msg. FixedSizeMap_Set sm key v = (Inl (Panic msg), sm)"
    and "\<exists>msg. FixedSizeMap_Delete sm key = (Inl (Panic msg), sm)"
  using assms
  by (simp_all add: FixedSizeMap_Get_def FixedSizeMap_Set_def FixedSizeMap_Delete_def toFixedKey_def)

lemma FixedSizeMap_Len_Set:
  assumes "finite (dom (fm_m sm))" and "length key = 32"
  shows "FixedSizeMap_Len (snd (FixedSizeMap_Set sm key v)) =
    (if fm_m sm key = None then Suc (FixedSizeMap_Len sm) else FixedSizeMap_Len sm)"
  using assms
  by (auto simp: FixedSizeMap_Len_def FixedSizeMap_Set_def toFixedKey_def insert_absorb domIff)

end
