(* ===== verification/MapStoreArena.thy ===== *)
theory MapStoreArena
  imports MapStoreFixed
begin

text \<open>
  Model of \<open>src/mapstore_arena.go\<close>: a MapStore that copies values into append-only slabs and maps
  each 32-byte key to a (slab, offset, length) triple of \<open>uint32\<close>. A slab keeps its bytes and its
  capacity; the bytes between length and capacity are the zeros \<open>make\<close> left there. The three
  counters are 32-bit words, so the conversions wrap as in Go; the interpretation \<open>arena\<close> shows
  that the store meets the MapStore contract as long as fewer than \<open>2 ^ 32\<close> slabs are needed, for
  slab sizes and values shorter than \<open>2 ^ 32\<close> bytes and non-empty values.
\<close>

section \<open>Data\<close>

record slab =
  slab_bytes :: bytes
  slab_cap :: nat

record arenaEntry =
  ae_slab :: "32 word"
  ae_off :: "32 word"
  ae_ln :: "32 word"

record ArenaFixedSizeMap =
  am_m :: "bytes \<rightharpoonup> arenaEntry"
  am_slabs :: "slab list"
  am_cur :: slab
  am_slabSize :: nat

definition nil_slab :: slab where
  "nil_slab = \<lparr>slab_bytes = [], slab_cap = 0\<rparr>"

definition defaultArenaSlabSize :: int where
  "defaultArenaSlabSize = 256 * 1024"

section \<open>Operations\<close>

definition NewArenaFixedSizeMapWithSlabSize :: "int \<Rightarrow> ArenaFixedSizeMap" where
  "NewArenaFixedSizeMapWithSlabSize slabSize =
     (let slabSize' = (if slabSize < 64 then 64 else slabSize)
      in \<lparr>am_m = Map.empty, am_slabs = [], am_cur = nil_slab, am_slabSize = nat slabSize'\<rparr>)"

definition NewArenaFixedSizeMap :: ArenaFixedSizeMap where
  "NewArenaFixedSizeMap = NewArenaFixedSizeMapWithSlabSize defaultArenaSlabSize"

text \<open>A Go slice expression \<open>s[lo:hi]\<close> is bounded by the capacity of \<open>s\<close>.\<close>

definition slab_slice :: "slab \<Rightarrow> nat \<Rightarrow> nat \<Rightarrow> bytes result" where
  "slab_slice s lo hi =
     (if lo \<le> hi \<and> hi \<le> slab_cap s
      then Inr (take (hi - lo)
                  (drop lo (slab_bytes s @ replicate (slab_cap s - length (slab_bytes s)) 0)))
      else Inl slice_panic)"

definition Arena_Get :: "ArenaFixedSizeMap \<Rightarrow> bytes \<Rightarrow> bytes result" where
  "Arena_Get am key =
     bindR (toFixedKey key) (\<lambda>k.
       case am_m am k of
         Some e \<Rightarrow>
           bindR (go_index (am_slabs am) (unat (ae_slab e))) (\<lambda>s.
             slab_slice s (unat (ae_off e)) (unat (ae_off e + ae_ln e)))
       | None \<Rightarrow> Inl (InvalidKeyError key))"

text \<open>
  \<open>Set\<close> opens a new slab when the current one would overflow, appends the value, mirrors the
  current slab into the last position of the slab table and then records the entry.
\<close>

definition Arena_grow :: "ArenaFixedSizeMap \<Rightarrow> nat \<Rightarrow> ArenaFixedSizeMap" where
  "Arena_grow am n =
     (if length (slab_bytes (am_cur am)) + n > slab_cap (am_cur am)
      then let size = (if n > am_slabSize am then n else am_slabSize am);
               cur = \<lparr>slab_bytes = [], slab_cap = size\<rparr>
           in am\<lparr>am_cur := cur, am_slabs := am_slabs am @ [cur]\<rparr>
      else am)"

definition Arena_Set :: "ArenaFixedSizeMap \<Rightarrow> bytes \<Rightarrow> bytes \<Rightarrow> unit result \<times> ArenaFixedSizeMap" where
  "Arena_Set am0 key value =
     (let n = length value;
          am = Arena_grow am0 n;
          off = length (slab_bytes (am_cur am));
          cur = (am_cur am)\<lparr>slab_bytes := slab_bytes (am_cur am) @ value\<rparr>;
          am1 = am\<lparr>am_cur := cur\<rparr>
      in if am_slabs am1 = [] then (Inl index_panic, am1)
         else
           let am2 = am1\<lparr>am_slabs := (am_slabs am1)[length (am_slabs am1) - 1 := cur]\<rparr>
           in case toFixedKey key of
                Inl e \<Rightarrow> (Inl e, am2)
              | Inr k \<Rightarrow>
                  (Inr (),
                   am2\<lparr>am_m := (am_m am2)(k \<mapsto>
                     \<lparr>ae_slab = of_nat (length (am_slabs am2) - 1),
                      ae_off = of_nat off, ae_ln = of_nat n\<rparr>)\<rparr>))"

definition Arena_Delete :: "ArenaFixedSizeMap \<Rightarrow> bytes \<Rightarrow> unit result \<times> ArenaFixedSizeMap" where
  "Arena_Delete am key =
     (case toFixedKey key of
        Inl e \<Rightarrow> (Inl e, am)
      | Inr k \<Rightarrow>
          (case am_m am k of
             Some _ \<Rightarrow> (Inr (), am\<lparr>am_m := (am_m am)(k := None)\<rparr>)
           | None \<Rightarrow> (Inl (InvalidKeyError key), am)))"

definition Arena_Len :: "ArenaFixedSizeMap \<Rightarrow> nat" where
  "Arena_Len am = card (dom (am_m am))"

definition Arena_SlabBytes :: "ArenaFixedSizeMap \<Rightarrow> nat" where
  "Arena_SlabBytes am = foldl (\<lambda>total s. total + length (slab_bytes s)) 0 (am_slabs am)"

definition Arena_Reset :: "ArenaFixedSizeMap \<Rightarrow> ArenaFixedSizeMap" where
  "Arena_Reset am = am\<lparr>am_m := Map.empty, am_slabs := [], am_cur := nil_slab\<rparr>"

definition Arena_store :: "ArenaFixedSizeMap MapStore" where
  "Arena_store = \<lparr>ms_Get = Arena_Get, ms_Set = Arena_Set, ms_Delete = Arena_Delete\<rparr>"

section \<open>Abstraction and invariant\<close>

definition arena_value :: "slab list \<Rightarrow> arenaEntry \<Rightarrow> bytes" where
  "arena_value slabs e =
     take (unat (ae_ln e)) (drop (unat (ae_off e)) (slab_bytes (slabs ! unat (ae_slab e))))"

definition arena_abs :: "ArenaFixedSizeMap \<Rightarrow> bytes \<rightharpoonup> bytes" where
  "arena_abs am k = map_option (arena_value (am_slabs am)) (am_m am k)"

definition entry_ok :: "slab list \<Rightarrow> arenaEntry \<Rightarrow> bool" where
  "entry_ok slabs e \<longleftrightarrow> unat (ae_slab e) < length slabs \<and>
     unat (ae_off e) + unat (ae_ln e) \<le> length (slab_bytes (slabs ! unat (ae_slab e)))"

definition arena_inv :: "ArenaFixedSizeMap \<Rightarrow> bool" where
  "arena_inv am \<longleftrightarrow>
     am_cur am = (if am_slabs am = [] then nil_slab else last (am_slabs am)) \<and>
     (\<forall>s \<in> set (am_slabs am). length (slab_bytes s) \<le> slab_cap s \<and> slab_cap s < 2 ^ 32) \<and>
     (\<forall>k e. am_m am k = Some e \<longrightarrow> entry_ok (am_slabs am) e) \<and>
     am_slabSize am < 2 ^ 32"

definition arena_room :: "nat \<Rightarrow> ArenaFixedSizeMap \<Rightarrow> bool" where
  "arena_room n am \<longleftrightarrow> arena_inv am \<and> length (am_slabs am) + n \<le> 2 ^ 32"

definition arena_okv :: "bytes \<Rightarrow> bool" where
  "arena_okv v \<longleftrightarrow> v \<noteq> [] \<and> length v < 2 ^ 32"

section \<open>Lemmas\<close>

lemma arena_inv_entry: "arena_inv am \<Longrightarrow> am_m am k = Some e \<Longrightarrow> entry_ok (am_slabs am) e"
  by (simp add: arena_inv_def)

lemma entry_append_slab:
  "entry_ok slabs e \<Longrightarrow> entry_ok (slabs @ [s]) e \<and> arena_value (slabs @ [s]) e = arena_value slabs e"
  by (auto simp: entry_ok_def arena_value_def nth_append)

lemma entry_extend_slab:
  assumes "entry_ok slabs e" "slab_bytes s = slab_bytes (slabs ! i) @ v"
  shows "entry_ok (slabs[i := s]) e \<and> arena_value (slabs[i := s]) e = arena_value slabs e"
  using assms by (cases "i = unat (ae_slab e)") (auto simp: entry_ok_def arena_value_def)

lemma arena_Get_entry:
  assumes "arena_inv am" "length k = 32" "am_m am k = Some e"
  shows "Arena_Get am k = Inr (arena_value (am_slabs am) e)"
proof -
  let ?s = "am_slabs am ! unat (ae_slab e)"
  have ok: "unat (ae_slab e) < length (am_slabs am)"
    "unat (ae_off e) + unat (ae_ln e) \<le> length (slab_bytes ?s)"
    using assms by (auto simp: arena_inv_def entry_ok_def)
  then have cap: "length (slab_bytes ?s) \<le> slab_cap ?s" "slab_cap ?s < 2 ^ 32"
    using assms(1) by (auto simp: arena_inv_def)
  have "unat (ae_off e + ae_ln e) = unat (ae_off e) + unat (ae_ln e)"
    using ok cap by (subst unat_add_lem [THEN iffD1]) auto
  then show ?thesis
    using assms ok cap
    by (simp add: Arena_Get_def toFixedKey_def slab_slice_def arena_value_def)
qed

lemma arena_get_law:
  assumes "arena_room n am" "length k = 32"
  shows "Arena_Get am k =
    (case arena_abs am k of Some v \<Rightarrow> Inr v | None \<Rightarrow> Inl (InvalidKeyError k))"
proof (cases "am_m am k")
  case None
  then show ?thesis using assms by (simp add: Arena_Get_def toFixedKey_def arena_abs_def)
next
  case (Some e)
  then show ?thesis using assms arena_Get_entry by (simp add: arena_room_def arena_abs_def)
qed

text \<open>After \<open>grow\<close> the value fits into the current slab, which is the last slab of the table.\<close>

lemma arena_grow:
  assumes "arena_inv am" "n \<noteq> 0" "n < 2 ^ 32"
  defines "am' \<equiv> Arena_grow am n"
  shows "arena_inv am'" "am_slabs am' \<noteq> []"
    "length (slab_bytes (am_cur am')) + n \<le> slab_cap (am_cur am')"
    "length (am_slabs am') \<le> Suc (length (am_slabs am))"
    "am_m am' = am_m am" "arena_abs am' = arena_abs am"
proof -
  have m: "am_m am' = am_m am"
    by (simp add: am'_def Arena_grow_def Let_def)
  have sl: "am_slabs am' = am_slabs am \<or> (\<exists>s. am_slabs am' = am_slabs am @ [s])"
    by (simp add: am'_def Arena_grow_def Let_def)
  have ent: "entry_ok (am_slabs am') e \<and>
      arena_value (am_slabs am') e = arena_value (am_slabs am) e"
    if "am_m am k = Some e" for k e
    using arena_inv_entry [OF assms(1) that] sl by (auto simp: entry_append_slab)
  show "am_m am' = am_m am" by (rule m)
  show "arena_abs am' = arena_abs am"
    using ent m by (auto simp: arena_abs_def fun_eq_iff map_option_case split: option.splits)
  show "length (am_slabs am') \<le> Suc (length (am_slabs am))" using sl by auto
  show "length (slab_bytes (am_cur am')) + n \<le> slab_cap (am_cur am')"
    by (auto simp: am'_def Arena_grow_def Let_def)
  show "am_slabs am' \<noteq> []"
    using assms(1,2)
    by (auto simp: am'_def Arena_grow_def Let_def arena_inv_def nil_slab_def split: if_splits)
  show "arena_inv am'"
    using assms(1,3) ent m
    by (auto simp: am'_def Arena_grow_def Let_def arena_inv_def split: if_splits)
qed

lemma arena_set_law:
  assumes "arena_room (Suc n) am" "length k = 32" "arena_okv v"
  shows "\<exists>am'. Arena_Set am k v = (Inr (), am') \<and> arena_abs am' = (arena_abs am)(k \<mapsto> v) \<and>
    arena_room n am'"
proof -
  let ?n = "length v"
  define g where "g = Arena_grow am ?n"
  have inv: "arena_inv am" and len: "length (am_slabs am) + Suc n \<le> 2 ^ 32"
    using assms(1) by (auto simp: arena_room_def)
  have n: "?n \<noteq> 0" "?n < 2 ^ 32" using assms(3) by (auto simp: arena_okv_def)
  note g = arena_grow [OF inv n, folded g_def]
  let ?off = "length (slab_bytes (am_cur g))"
  let ?cur = "(am_cur g)\<lparr>slab_bytes := slab_bytes (am_cur g) @ v\<rparr>"
  let ?i = "length (am_slabs g) - 1"
  let ?e = "\<lparr>ae_slab = of_nat ?i, ae_off = of_nat ?off, ae_ln = of_nat ?n\<rparr> :: arenaEntry"
  define am' where "am' = g\<lparr>am_cur := ?cur, am_slabs := (am_slabs g)[?i := ?cur],
    am_m := (am_m g)(k \<mapsto> ?e)\<rparr>"
  have run: "Arena_Set am k v = (Inr (), am')"
    using g(2) assms(2) by (simp add: Arena_Set_def Let_def g_def [symmetric] toFixedKey_def am'_def)
  have cur: "am_cur g = am_slabs g ! ?i" "?i < length (am_slabs g)"
    using g(1,2) by (auto simp: arena_inv_def last_conv_nth)
  have cap: "slab_cap (am_cur g) < 2 ^ 32"
    using g(1,2) cur by (auto simp: arena_inv_def)
  have i32: "?i < 2 ^ 32" and len': "length (am_slabs g) + n \<le> 2 ^ 32"
    using g(2,4) len by (auto simp: neq_Nil_conv)
  have e: "unat (ae_slab ?e) = ?i" "unat (ae_off ?e) = ?off" "unat (ae_ln ?e) = ?n"
    using i32 n g(3) cap by (auto simp: unat_of_nat)
  have new: "entry_ok (am_slabs am') ?e" "arena_value (am_slabs am') ?e = v"
    using cur(2) e by (simp_all add: entry_ok_def arena_value_def am'_def)
  have old: "entry_ok (am_slabs am') e' \<and> arena_value (am_slabs am') e' = arena_value (am_slabs g) e'"
    if "am_m g k' = Some e'" for k' e'
    using entry_extend_slab [OF arena_inv_entry [OF g(1) that], of ?cur ?i v] cur
    by (simp add: am'_def)
  have "arena_abs am' = (arena_abs g)(k \<mapsto> v)"
    using new old
    by (auto simp: arena_abs_def fun_eq_iff am'_def map_option_case split: option.splits)
  moreover have "arena_inv am'"
  proof -
    have "am_cur am' = last (am_slabs am')" "am_slabs am' \<noteq> []"
      using g(2) cur(2) by (simp_all add: am'_def last_list_update)
    moreover have "\<forall>s \<in> set (am_slabs am'). length (slab_bytes s) \<le> slab_cap s \<and> slab_cap s < 2 ^ 32"
      using g(1,3) cap by (auto simp: am'_def arena_inv_def dest: set_update_subset_insert [THEN subsetD])
    moreover have "\<forall>k' e'. am_m am' k' = Some e' \<longrightarrow> entry_ok (am_slabs am') e'"
      using new old by (auto simp: am'_def)
    moreover have "am_slabSize am' < 2 ^ 32" using g(1) by (simp add: am'_def arena_inv_def)
    ultimately show ?thesis by (simp add: arena_inv_def)
  qed
  ultimately show ?thesis
    using run g(6) len' by (auto simp: arena_room_def am'_def)
qed

lemma arena_del_law:
  assumes "arena_room n am" "length k = 32" "arena_abs am k \<noteq> None"
  shows "\<exists>am'. Arena_Delete am k = (Inr (), am') \<and> arena_abs am' = (arena_abs am)(k := None) \<and>
    arena_room n am'"
proof -
  obtain e where e: "am_m am k = Some e" using assms(3) by (auto simp: arena_abs_def)
  let ?am = "am\<lparr>am_m := (am_m am)(k := None)\<rparr>"
  have "Arena_Delete am k = (Inr (), ?am)"
    using assms(2) e by (simp add: Arena_Delete_def toFixedKey_def)
  moreover have "arena_abs ?am = (arena_abs am)(k := None)"
    by (simp add: arena_abs_def fun_eq_iff)
  moreover have "arena_room n ?am"
    using assms(1) by (simp add: arena_room_def arena_inv_def)
  ultimately show ?thesis by blast
qed

lemma arena_del_missing_law:
  "arena_room n am \<Longrightarrow> length k = 32 \<Longrightarrow> arena_abs am k = None \<Longrightarrow>
   Arena_Delete am k = (Inl (InvalidKeyError k), am)"
  by (simp add: Arena_Delete_def toFixedKey_def arena_abs_def)

lemma arena_room_mono: "arena_room n am \<Longrightarrow> m \<le> n \<Longrightarrow> arena_room m am"
  by (simp add: arena_room_def)

lemma Arena_map_store:
  "map_store Arena_store arena_abs arena_room (\<lambda>k. length k = 32) arena_okv"
  by unfold_locales
    (auto simp: Arena_store_def arena_get_law arena_del_missing_law
      intro: arena_set_law arena_del_law arena_room_mono)

interpretation arena: map_store Arena_store arena_abs arena_room "\<lambda>k. length k = 32" arena_okv
  by (rule Arena_map_store)

end
