(* ===== verification/SMTHistory.thy ===== *)
theory SMTHistory
  imports ProofsCorrect MapStoreFixed MapStoreArena
begin

text \<open>
  Histories of updates on the tree of \<open>src/smt.go\<close>, and the interpretation of the store interface
  on the repository's own MapStores. \<open>Updates\<close> is a client that calls Update for each pair of a
  list; \<open>final_map\<close> is what the list means as a map; \<open>tupdates\<close> the canonical tree it leads to.
  \<open>hist_preimages\<close> collects the byte strings that are hashed on the way: the theorems assume that
  the hash function has no collision on them, as the code does.
\<close>

section \<open>Histories\<close>

type_synonym history = "(bytes \<times> bytes) list"

fun Updates :: "'n MapStore \<Rightarrow> 'v MapStore \<Rightarrow> history \<Rightarrow> (('n, 'v) SparseMerkleTree, unit) op" where
  "Updates nI vI [] = returnS ()"
| "Updates nI vI ((key, value) # ops) = bindS (Update nI vI key value) (\<lambda>_. Updates nI vI ops)"

fun tupdates :: "treeHasher \<Rightarrow> history \<Rightarrow> mtree \<Rightarrow> mtree" where
  "tupdates th [] t = t"
| "tupdates th ((key, value) # ops) t = tupdates th ops (tupdate (H th key) value t)"

fun mupdates :: "treeHasher \<Rightarrow> history \<Rightarrow> (bytes \<rightharpoonup> bytes) \<Rightarrow> (bytes \<rightharpoonup> bytes)" where
  "mupdates th [] m = m"
| "mupdates th ((key, value) # ops) m = mupdates th ops (mupdate (H th key) value m)"

abbreviation final_map :: "treeHasher \<Rightarrow> history \<Rightarrow> (bytes \<rightharpoonup> bytes)" where
  "final_map th ops \<equiv> mupdates th ops Map.empty"

fun hist_preimages :: "treeHasher \<Rightarrow> history \<Rightarrow> mtree \<Rightarrow> bytes set" where
  "hist_preimages th [] t = preimages th t"
| "hist_preimages th ((key, value) # ops) t =
     preimages th t \<union> hist_preimages th ops (tupdate (H th key) value t)"

lemma hist_preimages_start: "preimages th t \<subseteq> hist_preimages th ops t"
  by (induction ops arbitrary: t) auto

lemma hist_preimages_end: "preimages th (tupdates th ops t) \<subseteq> hist_preimages th ops t"
  by (induction th ops t rule: tupdates.induct) auto

lemma hist_preimages_append:
  "hist_preimages th (xs @ ys) t = hist_preimages th xs t \<union> hist_preimages th ys (tupdates th xs t)"
proof (induction xs arbitrary: t)
  case Nil
  then show ?case using hist_preimages_start [of th t ys] by auto
next
  case (Cons x xs)
  then show ?case by (cases x) auto
qed

lemma tupdates_correct:
  assumes "wf_th th" "wf_tree (pathSize th) [] t"
  shows "wf_tree (pathSize th) [] (tupdates th ops t) \<and>
    tmap (tupdates th ops t) = mupdates th ops (tmap t)"
  using assms by (induction th ops t rule: tupdates.induct) (simp_all add: tupdate_correct)

lemma mupdates_append: "mupdates th (xs @ ys) m = mupdates th ys (mupdates th xs m)"
  by (induction th xs m rule: mupdates.induct) simp_all

lemma mupdates_Some:
  "mupdates th ops m p = Some v \<Longrightarrow> m p = Some v \<or> v \<noteq> [] \<and> (\<exists>key. (key, v) \<in> set ops \<and> p = H th key)"
  by (induction th ops m rule: mupdates.induct) (auto simp: mupdate_def split: if_splits)

text \<open>Two histories that Get cannot tell apart mean the same map.\<close>

lemma final_map_eqI:
  assumes "\<And>key. case_option defaultValue id (final_map th ops (H th key)) =
    case_option defaultValue id (final_map th ops' (H th key))"
  shows "final_map th ops = final_map th ops'"
proof (rule map_le_antisym)
  have "final_map th xs \<subseteq>\<^sub>m final_map th ys"
    if eq: "\<And>key. case_option [] id (final_map th xs (H th key)) = case_option [] id (final_map th ys (H th key))" for xs ys
    unfolding map_le_def
  proof
    fix p assume "p \<in> dom (final_map th xs)"
    then obtain v key where v: "final_map th xs p = Some v" "v \<noteq> []" "p = H th key"
      using mupdates_Some [of th xs Map.empty p] by auto
    then show "final_map th xs p = final_map th ys p"
      using eq [of key] by (auto split: option.splits)
  qed
  note le = this
  show "final_map th ops \<subseteq>\<^sub>m final_map th ops'" by (rule le) (rule assms [unfolded defaultValue_def])
  show "final_map th ops' \<subseteq>\<^sub>m final_map th ops" by (rule le) (rule assms [symmetric, unfolded defaultValue_def])
qed

context smt_stores
begin

lemma Updates_ok:
  assumes "rep smt t" "pathSize (smt_th smt) = n"
    and "roomn (b + length ops * (8 * n + 2)) (smt_nodes smt)" "roomv (bv + length ops) (smt_values smt)"
    and "\<forall>(k, v) \<in> set ops. v \<noteq> [] \<longrightarrow> okvv v"
    and "collision_free (smt_th smt) (hist_preimages (smt_th smt) ops t)"
  shows "\<exists>smt'. Updates nI vI ops smt = (Inr (), smt') \<and> rep smt' (tupdates (smt_th smt) ops t) \<and>
    smt_th smt' = smt_th smt \<and> roomn b (smt_nodes smt') \<and> roomv bv (smt_values smt')"
  using assms
proof (induction ops arbitrary: smt t)
  case (Cons op ops)
  obtain key v where op: "op = (key, v)" by (cases op)
  let ?t = "tupdate (H (smt_th smt) key) v t"
  have room: "roomn (b + length ops * (8 * n + 2) + 8 * n + 2) (smt_nodes smt)"
    "roomv (Suc (bv + length ops)) (smt_values smt)"
    using Cons.prems(3,4) by (simp_all add: add.commute add.left_commute)
  have S: "preimages (smt_th smt) t \<subseteq> hist_preimages (smt_th smt) (op # ops) t"
    "preimages (smt_th smt) ?t \<subseteq> hist_preimages (smt_th smt) (op # ops) t"
    using hist_preimages_start by (auto simp: op)
  obtain smt1 where smt1: "Update nI vI key v smt = (Inr (smt_root smt1), smt1)" "rep smt1 ?t"
    "smt_th smt1 = smt_th smt" "roomn (b + length ops * (8 * n + 2)) (smt_nodes smt1)"
    "roomv (bv + length ops) (smt_values smt1)"
    using Update_ok [OF Cons.prems(1,2) room _ refl Cons.prems(6) S] Cons.prems(5) op by auto
  obtain smt' where smt': "Updates nI vI ops smt1 = (Inr (), smt')"
    "rep smt' (tupdates (smt_th smt) ops ?t)"
    "smt_th smt' = smt_th smt" "roomn b (smt_nodes smt')" "roomv bv (smt_values smt')"
    using Cons.IH [OF smt1(2)] smt1 Cons.prems collision_free_subset [OF Cons.prems(6)] op by auto
  then show ?case using smt1(1) op by auto
qed auto

end

text \<open>A new tree represents the empty tree, over any stores that hold nothing yet.\<close>

lemma New_represents:
  assumes "wf_hash h" "absn nodes = Map.empty" "absv values = Map.empty"
  shows "represents absn absv (NewSparseMerkleTree nodes values h []) Empty"
    and "smt_th (NewSparseMerkleTree nodes values h []) = newTreeHasher h"
  using assms by (simp_all add: represents_def NewSparseMerkleTree_def SetRoot_def Let_def)

lemma cas_unique: "cas th m D \<Longrightarrow> cas th m' D \<Longrightarrow> m = m'"
proof
  fix h assume "cas th m D" "cas th m' D"
  then have "m h = Some d \<longleftrightarrow> m' h = Some d" for d by (simp add: cas_def)
  then show "m h = m' h" by (metis not_None_eq)
qed

section \<open>The stores of the repository\<close>

lemma smt_stores_simple:
  "smt_stores SimpleMap_store sm_m (\<lambda>n s. True) (\<lambda>k. True) (\<lambda>v. True)
     SimpleMap_store sm_m (\<lambda>n s. True) (\<lambda>k. True) (\<lambda>v. True) n"
  by (intro smt_stores.intro smt_stores_axioms.intro SimpleMap_map_store) simp_all

interpretation smts: smt_stores SimpleMap_store sm_m "\<lambda>n s. True" "\<lambda>k. True" "\<lambda>v. True"
    SimpleMap_store sm_m "\<lambda>n s. True" "\<lambda>k. True" "\<lambda>v. True" n for n
  by (rule smt_stores_simple)

interpretation smtf: smt_stores FixedSizeMap_store fm_m "\<lambda>n s. True" "\<lambda>k. length k = 32" "\<lambda>v. True"
    FixedSizeMap_store fm_m "\<lambda>n s. True" "\<lambda>k. length k = 32" "\<lambda>v. True" 32
  by (intro smt_stores.intro smt_stores_axioms.intro FixedSizeMap_map_store) simp_all

interpretation smta: smt_stores Arena_store arena_abs arena_room "\<lambda>k. length k = 32" arena_okv
    Arena_store arena_abs arena_room "\<lambda>k. length k = 32" arena_okv 32
  by (intro smt_stores.intro smt_stores_axioms.intro Arena_map_store) (auto simp: arena_okv_def)

text \<open>A history on a new tree over SimpleMaps succeeds and leads to the canonical tree.\<close>

lemma history_represents:
  assumes "wf_hash h" and "collision_free (newTreeHasher h) (hist_preimages (newTreeHasher h) ops Empty)"
  shows "\<exists>smt. Updates SimpleMap_store SimpleMap_store ops
      (NewSparseMerkleTree NewSimpleMap NewSimpleMap h []) = (Inr (), smt) \<and>
    represents sm_m sm_m smt (tupdates (newTreeHasher h) ops Empty) \<and> smt_th smt = newTreeHasher h"
proof -
  let ?th = "newTreeHasher h" and ?new = "NewSparseMerkleTree NewSimpleMap NewSimpleMap h []"
  have new: "represents sm_m sm_m ?new Empty" "smt_th ?new = ?th"
    using New_represents [of h sm_m NewSimpleMap sm_m NewSimpleMap] assms(1) by (simp_all add: NewSimpleMap_def)
  show ?thesis using smts.Updates_ok [OF new(1), of "pathSize ?th" ops] assms(2) new(2) by auto
qed

end
