(* ===== verification/ToyHash.thy ===== *)
theory ToyHash
  imports SMTHistory
begin

text \<open>
  A hash function with one-byte digests, for runs of the model on concrete inputs: trees then have
  depth eight and every evaluation is small. It has no collisions on the inputs of the witnesses,
  which is checked by evaluation where it is needed.
\<close>

definition toy_alg :: "bytes \<Rightarrow> bytes" where
  "toy_alg d = [foldl (\<lambda>a b. 3 * a + b + 19) 3 d]"

definition toy :: hash_Hash where
  "toy = \<lparr>hash_alg = toy_alg, hash_Size = 1, hash_buf = []\<rparr>"

lemma wf_toy [simp]: "wf_hash toy"
  by (simp add: wf_hash_def toy_def toy_alg_def)

abbreviation toy_th :: treeHasher where
  "toy_th \<equiv> newTreeHasher toy"

lemma pathSize_toy [simp]: "pathSize toy_th = 1"
  by (simp add: pathSize_def newTreeHasher_def toy_def Let_def)

abbreviation toy_smt :: "(SimpleMap, SimpleMap) SparseMerkleTree" where
  "toy_smt \<equiv> NewSparseMerkleTree NewSimpleMap NewSimpleMap toy []"

text \<open>The sets of the hypotheses, as lists.\<close>

fun preimage_list :: "treeHasher \<Rightarrow> mtree \<Rightarrow> bytes list" where
  "preimage_list th Empty = []"
| "preimage_list th (Leaf k v) = [v, leaf_data th k v]"
| "preimage_list th (Node l r) =
     node_data (thash th l) (thash th r) # preimage_list th l @ preimage_list th r"

lemma preimage_list [code]: "preimages th t = set (preimage_list th t)"
  by (induction t) auto

end
