(* ===== verification/SMTProps.thy ===== *)
theory SMTProps
  imports ToyHash
begin

text \<open>
  The properties of the tree of \<open>src/smt.go\<close> over the repository's own stores: refinement of the
  canonical tree by every call, the behaviour after any history, history independence, binding of
  the root, undoing an insertion, and what an error leaves behind.
\<close>

section \<open>Errors keep the root\<close>

definition keeps_root :: "(('n, 'v) SparseMerkleTree, 'a) op \<Rightarrow> bool" where
  "keeps_root m \<longleftrightarrow> (\<forall>smt r smt'. m smt = (r, smt') \<longrightarrow>
     smt_root smt' = smt_root smt \<and> smt_th smt' = smt_th smt)"

lemma keeps_rootD:
  "keeps_root m \<Longrightarrow> m smt = (r, smt') \<Longrightarrow> smt_root smt' = smt_root smt \<and> smt_th smt' = smt_th smt"
  by (auto simp: keeps_root_def)

named_theorems keeps \<open>operations that keep the root\<close>

lemma keeps_root_basic [keeps]:
  "keeps_root (returnS x)" "keeps_root (throwS e)" "keeps_root (liftS r)" "keeps_root (readS f)"
  "keeps_root (nodes_Set nI h d)" "keeps_root (nodes_Delete nI h)"
  "keeps_root (values_Set vI k v)" "keeps_root (values_Delete vI k)"
  by (auto simp: keeps_root_def nodes_Set_def nodes_Delete_def values_Set_def values_Delete_def
      split: prod.splits)

lemma keeps_root_bind [keeps]:
  assumes "keeps_root m" "\<And>x. keeps_root (f x)"
  shows "keeps_root (bindS m f)"
  unfolding keeps_root_def
proof (intro allI impI)
  fix smt r smt' assume "bindS m f smt = (r, smt')"
  then show "smt_root smt' = smt_root smt \<and> smt_th smt' = smt_th smt"
    by (cases rule: bindS_cases) (metis assms keeps_rootD)+
qed

lemma keeps_root_if [keeps]: "keeps_root a \<Longrightarrow> keeps_root b \<Longrightarrow> keeps_root (if c then a else b)"
  by simp

lemma keeps_root_case_prod [keeps]: "(\<And>a b. keeps_root (f a b)) \<Longrightarrow> keeps_root (case p of (a, b) \<Rightarrow> f a b)"
  by (cases p) simp

lemma keeps_root_case_option [keeps]:
  "keeps_root a \<Longrightarrow> (\<And>x. keeps_root (f x)) \<Longrightarrow> keeps_root (case p of None \<Rightarrow> a | Some x \<Rightarrow> f x)"
  by (cases p) simp_all

lemma keeps_root_delete_nodes [keeps]: "keeps_root (delete_nodes nI ns)"
  by (induction ns) (simp_all only: delete_nodes.simps keeps)

lemma keeps_root_delete_loop [keeps]:
  "keeps_root (delete_loop nI th sc path m i sns turn cH cd np)"
proof (induction sns arbitrary: i turn cH cd np)
  case (Cons sn sns)
  show ?case unfolding delete_loop.simps Let_def by (intro keeps Cons.IH)
qed (simp only: delete_loop.simps keeps)

lemma keeps_root_update_loop [keeps]:
  "keeps_root (update_loop nI th sc path D sns cpc is turn c)"
proof (induction "is" arbitrary: turn c)
  case (Cons i "is")
  show ?case unfolding update_loop.simps Let_def by (intro keeps Cons.IH)
qed (simp only: update_loop.simps keeps)

text \<open>The same for one run from a given state.\<close>

definition keeps_at :: "('n, 'v) SparseMerkleTree \<Rightarrow> 'a \<times> ('n, 'v) SparseMerkleTree \<Rightarrow> bool" where
  "keeps_at smt p \<longleftrightarrow> smt_root (snd p) = smt_root smt \<and> smt_th (snd p) = smt_th smt"

lemma keeps_rootI: "(\<And>smt. keeps_at smt (f smt)) \<Longrightarrow> keeps_root f"
  by (simp add: keeps_root_def keeps_at_def) (metis snd_conv)

lemma keeps_at_root: "keeps_root m \<Longrightarrow> keeps_at smt (m smt)"
  by (cases "m smt") (auto simp: keeps_at_def dest: keeps_rootD)

lemma keeps_at_bind [keeps]:
  "keeps_root m \<Longrightarrow> (\<And>x. keeps_root (f x)) \<Longrightarrow> keeps_at smt (bindS m f smt)"
  by (rule keeps_at_root) (rule keeps_root_bind)

lemma keeps_at_case_prod [keeps]:
  "(\<And>a b. keeps_at smt (f a b)) \<Longrightarrow> keeps_at smt (case p of (a, b) \<Rightarrow> f a b)"
  by (cases p) simp

lemma keeps_root_deleteWithSideNodes [keeps]:
  "keeps_root (deleteWithSideNodes nI sc path sns pns old)"
  unfolding deleteWithSideNodes_def Let_def by (rule keeps_rootI) (intro keeps)

lemma keeps_root_updateWithSideNodes [keeps]:
  "keeps_root (updateWithSideNodes nI vI sc path value sns pns old)"
  unfolding updateWithSideNodes_def Let_def by (rule keeps_rootI) (intro keeps)

lemma keeps_at_trans:
  "m smt = (r, smt1) \<Longrightarrow> keeps_root m \<Longrightarrow> keeps_at smt1 p \<Longrightarrow> keeps_at smt p"
  by (auto simp: keeps_at_def dest: keeps_rootD)

lemma keeps_root_UpdateForRoot:
  "keeps_root (UpdateForRoot nI vI key value root :: (('n, 'v) SparseMerkleTree, bytes) op)"
proof -
  have del: "keeps_root (\<lambda>smt :: ('n, 'v) SparseMerkleTree.
      case deleteWithSideNodes nI sc path sns pns old smt of
        (Inl ErrKeyAlreadyEmpty, smt) \<Rightarrow> (Inr root, smt)
      | (Inl (Panic msg), smt) \<Rightarrow> (Inl (Panic msg), smt)
      | (r, smt) \<Rightarrow> bindS (values_Delete vI path) (\<lambda>_. liftS r) smt)" for sc path sns pns old
  proof (rule keeps_rootI)
    fix smt :: "('n, 'v) SparseMerkleTree"
    obtain r smt1 where r: "deleteWithSideNodes nI sc path sns pns old smt = (r, smt1)" by fastforce
    note tr = keeps_at_trans [OF r keeps_root_deleteWithSideNodes]
    have "keeps_at smt1 (bindS (values_Delete vI path) (\<lambda>_. liftS r) smt1)"
      by (intro keeps)
    moreover have "keeps_at smt1 (x, smt1)" for x :: "bytes result" by (simp add: keeps_at_def)
    ultimately have "keeps_at smt (bindS (values_Delete vI path) (\<lambda>_. liftS r) smt1)"
      "\<And>x :: bytes result. keeps_at smt (x, smt1)" by (blast intro: tr)+
    then show "keeps_at smt (case deleteWithSideNodes nI sc path sns pns old smt of
        (Inl ErrKeyAlreadyEmpty, smt) \<Rightarrow> (Inr root, smt)
      | (Inl (Panic msg), smt) \<Rightarrow> (Inl (Panic msg), smt)
      | (r, smt) \<Rightarrow> bindS (values_Delete vI path) (\<lambda>_. liftS r) smt)"
      by (auto simp: r split: sum.split go_error.split)
  qed
  show ?thesis
    unfolding UpdateForRoot_def UpdateForRoot_with_def Let_def
    by (rule keeps_rootI) (intro keeps del)
qed

section \<open>Properties\<close>

lemma represents_unique:
  fixes smt1 smt2 :: "(SimpleMap, SimpleMap) SparseMerkleTree"
  assumes "represents sm_m sm_m smt1 t" "represents sm_m sm_m smt2 t" "smt_th smt1 = smt_th smt2"
  shows "smt1 = smt2"
proof -
  note r = representsD [OF assms(1)] and r' = representsD [OF assms(2)]
  have "sm_m (smt_nodes smt1) = sm_m (smt_nodes smt2)"
    using cas_unique [OF r(4)] r'(4) assms(3) by simp
  then show ?thesis
    using r(3,5) r'(3,5) assms(3) by (intro SparseMerkleTree.equality SimpleMap.equality) simp_all
qed

text \<open>
  C1. Refinement: Update on a tree over SimpleMaps that represents the canonical tree t returns the
  new root without error and the tree then represents \<open>tupdate\<close> of t: the root is its Merkle hash,
  the node store holds exactly its nodes and the value store exactly its map.
\<close>

theorem Update_refines:
  assumes "represents sm_m sm_m smt t"
    and "t' = tupdate (H (smt_th smt) key) value t"
    and "collision_free (smt_th smt) (preimages (smt_th smt) t \<union> preimages (smt_th smt) t')"
  shows "\<exists>smt'. Update SimpleMap_store SimpleMap_store key value smt = (Inr (Root smt'), smt') \<and>
    represents sm_m sm_m smt' t'"
  using smts.Update_ok [OF assms(1) refl TrueI TrueI TrueI assms(2,3)] by (auto simp: Root_def)

theorem Update_refines_witness:
  "\<exists>smt'. Update SimpleMap_store SimpleMap_store [1] [10] toy_smt = (Inr (Root smt'), smt') \<and>
    represents sm_m sm_m smt' (Leaf [29] [10])"
proof -
  have rep: "represents sm_m sm_m toy_smt Empty"
    by (rule New_represents) (simp_all add: NewSimpleMap_def)
  have th: "smt_th toy_smt = toy_th" by (rule New_represents) (simp_all add: NewSimpleMap_def)
  have t': "Leaf [29] [10] = tupdate (H toy_th [1]) [10] Empty" by code_simp
  have cf: "collision_free toy_th (preimages toy_th Empty \<union> preimages toy_th (Leaf [29] [10]))"
    by code_simp
  show ?thesis by (rule Update_refines [OF rep t' [folded th] cf [folded th]])
qed

text \<open>
  C2. After any sequence of updates and deletions on a new tree, no call has failed, Get returns the
  last value written under a key (the default value if there is none or it was deleted), and Has
  says whether there is one.
\<close>

theorem history_lookup:
  assumes "wf_hash h" and "collision_free (newTreeHasher h) (hist_preimages (newTreeHasher h) ops Empty)"
  shows "\<exists>smt'. Updates SimpleMap_store SimpleMap_store ops
      (NewSparseMerkleTree NewSimpleMap NewSimpleMap h []) = (Inr (), smt') \<and>
    (\<forall>key. let r = final_map (newTreeHasher h) ops (H (newTreeHasher h) key) in
       Get SimpleMap_store smt' key = Inr (case r of None \<Rightarrow> defaultValue | Some v \<Rightarrow> v) \<and>
       Has SimpleMap_store smt' key = Inr (r \<noteq> None))"
proof -
  let ?th = "newTreeHasher h" and ?t = "tupdates (newTreeHasher h) ops Empty"
  obtain smt' where smt': "Updates SimpleMap_store SimpleMap_store ops
      (NewSparseMerkleTree NewSimpleMap NewSimpleMap h []) = (Inr (), smt')"
    "represents sm_m sm_m smt' ?t" "smt_th smt' = ?th"
    using history_represents [OF assms] by blast
  have cf: "collision_free (smt_th smt') (preimages (smt_th smt') ?t)"
    using collision_free_subset [OF assms(2) hist_preimages_end] smt'(3) by simp
  have "tmap ?t = final_map ?th ops"
    using tupdates_correct [of ?th Empty ops] assms(1) by simp
  then show ?thesis
    using smt' smts.Get_ok [OF smt'(2) refl TrueI cf] smts.Has_ok [OF smt'(2) refl TrueI cf]
    unfolding Let_def defaultValue_def by auto
qed

theorem history_lookup_witness:
  "\<exists>smt'. Updates SimpleMap_store SimpleMap_store [([1], [10]), ([70], [20]), ([1], [])] toy_smt =
      (Inr (), smt') \<and>
    (\<forall>key. let r = final_map toy_th [([1], [10]), ([70], [20]), ([1], [])] (H toy_th key) in
       Get SimpleMap_store smt' key = Inr (case r of None \<Rightarrow> defaultValue | Some v \<Rightarrow> v) \<and>
       Has SimpleMap_store smt' key = Inr (r \<noteq> None))"
proof (rule history_lookup)
  show "collision_free toy_th (hist_preimages toy_th [([1], [10]), ([70], [20]), ([1], [])] Empty)"
    by code_simp
qed simp

text \<open>
  C3. History independence: two sequences of updates and deletions that mean the same map lead to
  the same tree state, root, node store (no orphaned node is left behind) and value store.
\<close>

theorem history_independence:
  assumes "wf_hash h" and "final_map (newTreeHasher h) ops = final_map (newTreeHasher h) ops'"
    and "collision_free (newTreeHasher h) (hist_preimages (newTreeHasher h) ops Empty)"
    and "collision_free (newTreeHasher h) (hist_preimages (newTreeHasher h) ops' Empty)"
  shows "Updates SimpleMap_store SimpleMap_store ops (NewSparseMerkleTree NewSimpleMap NewSimpleMap h []) =
    Updates SimpleMap_store SimpleMap_store ops' (NewSparseMerkleTree NewSimpleMap NewSimpleMap h [])"
proof -
  let ?th = "newTreeHasher h" and ?smt = "NewSparseMerkleTree NewSimpleMap NewSimpleMap h []"
  have "tupdates ?th ops Empty = tupdates ?th ops' Empty"
    using tupdates_correct [of ?th Empty ops] tupdates_correct [of ?th Empty ops'] assms(1,2)
    by (intro wf_tree_unique [of "pathSize ?th" "[]"]) simp_all
  then obtain smt1 smt2 where smt:
    "Updates SimpleMap_store SimpleMap_store ops ?smt = (Inr (), smt1)"
    "Updates SimpleMap_store SimpleMap_store ops' ?smt = (Inr (), smt2)"
    "represents sm_m sm_m smt1 (tupdates ?th ops Empty)" "smt_th smt1 = ?th"
    "represents sm_m sm_m smt2 (tupdates ?th ops Empty)" "smt_th smt2 = ?th"
    using history_represents [OF assms(1,3)] history_represents [OF assms(1,4)] by auto
  then show ?thesis using smt(1,2) represents_unique [OF smt(3,5)] smt(4,6) by simp
qed

theorem history_independence_witness:
  "Updates SimpleMap_store SimpleMap_store [([1], [10]), ([70], [20]), ([100], [30]), ([70], []), ([1], [11])]
      toy_smt =
   Updates SimpleMap_store SimpleMap_store [([100], [30]), ([1], [11])] toy_smt"
proof (rule history_independence)
  have H: "H toy_th [1] = [29]" "H toy_th [70] = [98]" "H toy_th [100] = [128]" by code_simp+
  show "final_map toy_th [([1], [10]), ([70], [20]), ([100], [30]), ([70], []), ([1], [11])] =
    final_map toy_th [([100], [30]), ([1], [11])]"
    by (simp add: H mupdate_def fun_eq_iff)
  show "collision_free toy_th (hist_preimages toy_th
      [([1], [10]), ([70], [20]), ([100], [30]), ([70], []), ([1], [11])] Empty)" by code_simp
  show "collision_free toy_th (hist_preimages toy_th [([100], [30]), ([1], [11])] Empty)" by code_simp
qed simp

text \<open>
  C4. Binding: the root that Update and Delete compute commits to the whole content of the tree. For
  any two histories on new trees, the roots they end in are equal exactly when Get answers every key
  alike, and then the whole states are equal, node and value stores included.
\<close>

theorem root_binds_map:
  assumes "wf_hash h"
    and "collision_free (newTreeHasher h)
      (hist_preimages (newTreeHasher h) ops Empty \<union> hist_preimages (newTreeHasher h) ops' Empty)"
  shows "\<exists>smt smt'.
    Updates SimpleMap_store SimpleMap_store ops (NewSparseMerkleTree NewSimpleMap NewSimpleMap h []) = (Inr (), smt) \<and>
    Updates SimpleMap_store SimpleMap_store ops' (NewSparseMerkleTree NewSimpleMap NewSimpleMap h []) = (Inr (), smt') \<and>
    (Root smt = Root smt' \<longleftrightarrow> (\<forall>key. Get SimpleMap_store smt key = Get SimpleMap_store smt' key)) \<and>
    (Root smt = Root smt' \<longleftrightarrow> smt = smt')"
proof -
  let ?th = "newTreeHasher h"
  let ?t = "tupdates ?th ops Empty" and ?t' = "tupdates ?th ops' Empty"
  note cf = collision_free_subset [OF assms(2) Un_upper1] collision_free_subset [OF assms(2) Un_upper2]
  obtain smt where smt: "Updates SimpleMap_store SimpleMap_store ops
      (NewSparseMerkleTree NewSimpleMap NewSimpleMap h []) = (Inr (), smt)"
    "represents sm_m sm_m smt ?t" "smt_th smt = ?th"
    using history_represents [OF assms(1) cf(1)] by blast
  obtain smt' where smt': "Updates SimpleMap_store SimpleMap_store ops'
      (NewSparseMerkleTree NewSimpleMap NewSimpleMap h []) = (Inr (), smt')"
    "represents sm_m sm_m smt' ?t'" "smt_th smt' = ?th"
    using history_represents [OF assms(1) cf(2)] by blast
  note r = representsD [OF smt(2), unfolded smt(3)] and r' = representsD [OF smt'(2), unfolded smt'(3)]
  have sub: "preimages ?th ?t \<subseteq> hist_preimages ?th ops Empty \<union> hist_preimages ?th ops' Empty"
    "preimages ?th ?t' \<subseteq> hist_preimages ?th ops Empty \<union> hist_preimages ?th ops' Empty"
    using hist_preimages_end by blast+
  have trees: "smt = smt'" if "?t = ?t'"
    using represents_unique [OF smt(2)] smt'(2,3) smt(3) that by simp
  have roots: "?t = ?t'" if "Root smt = Root smt'"
    using thash_inject [OF r(1) refl assms(2) r(2) r'(2) sub] that r(3) r'(3) by (simp add: Root_def)
  have maps: "tmap ?t = final_map ?th ops" "tmap ?t' = final_map ?th ops'"
    using tupdates_correct [of ?th Empty] assms(1) by simp_all
  have "?t = ?t'" if get: "\<forall>key. Get SimpleMap_store smt key = Get SimpleMap_store smt' key"
  proof (rule wf_tree_unique [OF r(2) r'(2)], unfold maps, rule final_map_eqI)
    fix key
    have "Get SimpleMap_store smt key = Inr (case_option defaultValue id (final_map ?th ops (H ?th key)))"
      "Get SimpleMap_store smt' key = Inr (case_option defaultValue id (final_map ?th ops' (H ?th key)))"
      using smts.Get_ok [OF smt(2) refl TrueI] smts.Get_ok [OF smt'(2) refl TrueI]
        collision_free_subset [OF assms(2)] sub maps smt(3) smt'(3)
      by (auto simp: defaultValue_def split: option.splits)
    then show "case_option defaultValue id (final_map ?th ops (H ?th key)) =
        case_option defaultValue id (final_map ?th ops' (H ?th key))" using get by simp
  qed
  then show ?thesis using smt(1) smt'(1) trees roots by blast
qed

theorem root_binds_map_witness:
  "\<exists>smt smt'.
    Updates SimpleMap_store SimpleMap_store [([1], [10]), ([70], [20])] toy_smt = (Inr (), smt) \<and>
    Updates SimpleMap_store SimpleMap_store [([70], [20]), ([1], [11])] toy_smt = (Inr (), smt') \<and>
    Root smt \<noteq> Root smt' \<and> (\<exists>key. Get SimpleMap_store smt key \<noteq> Get SimpleMap_store smt' key)"
proof -
  let ?ops = "[([1], [10]), ([70], [20])]" and ?ops' = "[([70], [20]), ([1], [11])]"
  have cf: "collision_free toy_th (hist_preimages toy_th ?ops Empty \<union> hist_preimages toy_th ?ops' Empty)"
    by code_simp
  obtain smt smt' where
    run: "Updates SimpleMap_store SimpleMap_store ?ops toy_smt = (Inr (), smt)"
      "Updates SimpleMap_store SimpleMap_store ?ops' toy_smt = (Inr (), smt')"
    and iff: "Root smt = Root smt' \<longleftrightarrow> (\<forall>key. Get SimpleMap_store smt key = Get SimpleMap_store smt' key)"
    using root_binds_map [OF wf_toy cf] by blast
  have "Root smt = thash toy_th (tupdates toy_th ?ops Empty)" "Root smt' = thash toy_th (tupdates toy_th ?ops' Empty)"
    using history_represents [OF wf_toy collision_free_subset [OF cf Un_upper1]] run(1)
      history_represents [OF wf_toy collision_free_subset [OF cf Un_upper2]] run(2)
    by (auto simp: Root_def dest: representsD(3))
  moreover have "thash toy_th (tupdates toy_th ?ops Empty) \<noteq> thash toy_th (tupdates toy_th ?ops' Empty)" by code_simp
  ultimately show ?thesis using run iff by auto
qed
text \<open>
  C5. Deleting a key that was just inserted restores the tree state exactly: root, nodes and values.
\<close>

theorem Delete_undoes_insert:
  assumes "represents sm_m sm_m smt t" and "tmap t (H (smt_th smt) key) = None" "value \<noteq> []"
    and "t' = tupdate (H (smt_th smt) key) value t"
    and "collision_free (smt_th smt) (preimages (smt_th smt) t \<union> preimages (smt_th smt) t')"
  shows "bindS (Update SimpleMap_store SimpleMap_store key value)
      (\<lambda>_. Delete SimpleMap_store SimpleMap_store key) smt = (Inr (Root smt), smt)"
proof -
  let ?th = "smt_th smt" and ?k = "H (smt_th smt) key"
  note r = representsD [OF assms(1)]
  obtain smt1 where smt1: "Update SimpleMap_store SimpleMap_store key value smt = (Inr (smt_root smt1), smt1)"
    "represents sm_m sm_m smt1 t'" "smt_th smt1 = ?th"
    using smts.Update_ok [OF assms(1) refl TrueI TrueI TrueI assms(4,5)] by auto
  have k: "length ?k = pathSize ?th" using r(1) by simp
  have "tmap t = mupdate ?k [] (tmap t')"
    using tupdate_correct(2) [OF r(2) k, of "value"] assms(2-4) by (simp add: mupdate_def fun_eq_iff)
  then have t: "t = tupdate ?k [] t'"
    using tupdate_unique [OF _ r(2) k] representsD(2) [OF smt1(2)] smt1(3) by simp
  obtain smt2 where smt2: "Update SimpleMap_store SimpleMap_store key [] smt1 = (Inr (smt_root smt2), smt2)"
    "represents sm_m sm_m smt2 t" "smt_th smt2 = ?th"
    using smts.Update_ok [OF smt1(2) refl TrueI TrueI TrueI t [folded smt1(3)],
        of "preimages ?th t \<union> preimages ?th t'"] assms(5) smt1(3) by auto
  have "smt2 = smt" using represents_unique [OF smt2(2) assms(1)] smt2(3) by simp
  then show ?thesis
    using smt1(1) smt2(1) by (simp add: Delete_def defaultValue_def Root_def)
qed

theorem Delete_undoes_insert_witness:
  "bindS (Update SimpleMap_store SimpleMap_store [1] [10])
      (\<lambda>_. Delete SimpleMap_store SimpleMap_store [1]) toy_smt = (Inr (Root toy_smt), toy_smt)"
proof -
  have rep: "represents sm_m sm_m toy_smt Empty" and th: "smt_th toy_smt = toy_th"
    by (rule New_represents; simp add: NewSimpleMap_def)+
  have cf: "collision_free toy_th (preimages toy_th Empty \<union> preimages toy_th (tupdate (H toy_th [1]) [10] Empty))"
    by code_simp
  show ?thesis by (rule Delete_undoes_insert [OF rep _ _ refl, unfolded th, OF _ _ cf]) simp_all
qed

text \<open>
  C6. An error of Update or Delete, from any MapStore implementation, leaves the root and the hasher of
  the tree as they were.
\<close>

theorem Update_error_keeps_root:
  assumes "Update nI vI key value smt = (Inl e, smt')"
  shows "Root smt' = Root smt \<and> smt_th smt' = smt_th smt"
  using assms unfolding Update_def
proof (cases rule: bindS_cases)
  case (err e')
  then show ?thesis using keeps_rootD [OF keeps_root_UpdateForRoot] by (simp add: Root_def)
qed simp

definition failing_store :: "unit MapStore" where
  "failing_store = \<lparr>ms_Get = (\<lambda>s k. Inl (StoreError ''down'')), ms_Set = (\<lambda>s k v. (Inl (StoreError ''down''), s)),
    ms_Delete = (\<lambda>s k. (Inl (StoreError ''down''), s))\<rparr>"

theorem Update_error_keeps_root_witness:
  "let smt = NewSparseMerkleTree () () toy [];
       smt' = snd (Update failing_store failing_store [1] [10] smt)
   in Update failing_store failing_store [1] [10] smt = (Inl (StoreError ''down''), smt') \<and>
      Root smt' = Root smt \<and> smt_th smt' = smt_th smt"
proof -
  let ?smt = "NewSparseMerkleTree () () toy []"
  have "fst (Update failing_store failing_store [1] [10] ?smt) = Inl (StoreError ''down'')" by code_simp
  then have run: "Update failing_store failing_store [1] [10] ?smt =
      (Inl (StoreError ''down''), snd (Update failing_store failing_store [1] [10] ?smt))"
    by (metis prod.collapse)
  show ?thesis unfolding Let_def using run Update_error_keeps_root [OF run] by blast
qed

end
