(* ===== verification/ProofsProps.thy ===== *)
theory ProofsProps
  imports ToyHash
begin

text \<open>
  The properties of Merkle proofs: verification is total, honest proofs verify, verified proofs are
  true of the tree, compaction loses nothing, and the one way in which a malformed compact proof
  still crashes the verifier.
\<close>

text \<open>
  C7. Soundness: if a proof verifies for a key and a value against the root of a tree, then the value
  is what Get returns for the key; the default value stands for an absent key. The proof may come
  from anyone: the only assumption is that the hash function has no collision on what the tree and
  the verifier hash.
\<close>

theorem VerifyProof_sound:
  fixes smt :: "(SimpleMap, SimpleMap) SparseMerkleTree"
  assumes "represents sm_m sm_m smt t"
    and "VerifyProof proof (Root smt) key value (hasher (smt_th smt)) = Inr True"
    and "collision_free (smt_th smt) (preimages (smt_th smt) t \<union>
      claim_preimages (smt_th smt) proof (H (smt_th smt) key) value)"
  shows "Get SimpleMap_store smt key = Inr value"
proof -
  note r = representsD [OF assms(1)]
  have new: "newTreeHasher (hasher (smt_th smt)) = smt_th smt" using wf_th_new r(1) by blast
  have h: "wf_hash (hasher (smt_th smt))" using r(1) by (simp add: wf_th_def)
  have "tmap t (H (smt_th smt) key) = (if value = [] then None else Some value)"
    using verify_sound [OF h, unfolded new, OF r(2)] assms(2,3) r(3) by (simp add: Root_def)
  moreover have "collision_free (smt_th smt) (preimages (smt_th smt) t)"
    using collision_free_subset [OF assms(3)] by simp
  ultimately show ?thesis
    using smts.Get_ok [OF assms(1) refl TrueI, of key] by (simp split: if_splits)
qed

definition toy2_tree :: mtree where
  "toy2_tree = tupdate (H toy_th [70]) [20] (tupdate (H toy_th [1]) [10] Empty)"

definition toy2 :: "(SimpleMap, SimpleMap) SparseMerkleTree" where
  "toy2 = snd (Updates SimpleMap_store SimpleMap_store [([1], [10]), ([70], [20])] toy_smt)"

lemma toy2_represents:
  "represents sm_m sm_m toy2 toy2_tree" "smt_th toy2 = toy_th" "hasher toy_th = toy"
proof -
  have rep: "represents sm_m sm_m toy_smt Empty" and th: "smt_th toy_smt = toy_th"
    by (rule New_represents; simp add: NewSimpleMap_def)+
  have cf: "collision_free toy_th (hist_preimages toy_th [([1], [10]), ([70], [20])] Empty)" by code_simp
  show "represents sm_m sm_m toy2 toy2_tree" "smt_th toy2 = toy_th"
    using smts.Updates_ok [OF rep, of 1 "[([1], [10]), ([70], [20])]"] th cf
    by (auto simp: toy2_def toy2_tree_def)
  show "hasher toy_th = toy" by (simp add: newTreeHasher_def Let_def)
qed

lemma toy2_tree_hash: "Root toy2 = thash toy_th toy2_tree"
  using representsD(3) [OF toy2_represents(1)] toy2_represents(2) by (simp add: Root_def)

theorem VerifyProof_sound_witness: "Get SimpleMap_store toy2 [70] = Inr [20]"
proof (rule VerifyProof_sound [OF toy2_represents(1), unfolded toy2_represents(2,3) toy2_tree_hash])
  show "VerifyProof (tree_proof toy_th toy2_tree [98] False) (thash toy_th toy2_tree) [70] [20] toy = Inr True"
    by code_simp
  show "collision_free toy_th (preimages toy_th toy2_tree \<union>
      claim_preimages toy_th (tree_proof toy_th toy2_tree [98] False) (H toy_th [70]) [20])"
    by code_simp
qed

text \<open>
  C8. Completeness: on a tree that represents t, Prove and ProveUpdatable succeed for every key, member
  or not, and their proofs verify against the root for the value Get returns.
\<close>

theorem Prove_complete:
  fixes smt :: "(SimpleMap, SimpleMap) SparseMerkleTree"
  assumes "represents sm_m sm_m smt t"
    and "collision_free (smt_th smt) (preimages (smt_th smt) t)"
  shows "\<exists>proof proof' value. Get SimpleMap_store smt key = Inr value \<and>
    Prove SimpleMap_store smt key = Inr proof \<and> ProveUpdatable SimpleMap_store smt key = Inr proof' \<and>
    VerifyProof proof (Root smt) key value (hasher (smt_th smt)) = Inr True \<and>
    VerifyProof proof' (Root smt) key value (hasher (smt_th smt)) = Inr True"
proof -
  note r = representsD [OF assms(1)]
  show ?thesis
    using smts.Get_ok [OF assms(1) refl TrueI assms(2), of key]
      smts.Prove_ok [OF assms(1) refl TrueI assms(2), of key] tree_proof_verifies [OF r(1,2), of key] r(3)
    by (simp add: Prove_def ProveForRoot_def ProveUpdatable_def ProveUpdatableForRoot_def Root_def)
qed

theorem Prove_complete_witness:
  "\<exists>proof proof' value. Get SimpleMap_store toy2 [1] = Inr value \<and>
    Prove SimpleMap_store toy2 [1] = Inr proof \<and> ProveUpdatable SimpleMap_store toy2 [1] = Inr proof' \<and>
    VerifyProof proof (Root toy2) [1] value toy = Inr True \<and>
    VerifyProof proof' (Root toy2) [1] value toy = Inr True"
proof -
  have "collision_free toy_th (preimages toy_th toy2_tree)" by code_simp
  then show ?thesis
    by (rule Prove_complete [OF toy2_represents(1), unfolded toy2_represents(2,3)])
qed

text \<open>
  C9. Compact proofs are complete too: ProveCompact succeeds and its proof verifies, through
  decompaction, for the value Get returns.
\<close>

theorem ProveCompact_complete:
  fixes smt :: "(SimpleMap, SimpleMap) SparseMerkleTree"
  assumes "represents sm_m sm_m smt t"
    and "collision_free (smt_th smt) (preimages (smt_th smt) t)"
  shows "\<exists>proof value. Get SimpleMap_store smt key = Inr value \<and>
    ProveCompact SimpleMap_store smt key = Inr proof \<and>
    VerifyCompactProof proof (Root smt) key value (hasher (smt_th smt)) = Inr True"
proof -
  note r = representsD [OF assms(1)]
  have h: "wf_hash (hasher (smt_th smt))" using r(1) by (simp add: wf_th_def)
  have k: "length (H (smt_th smt) key) = pathSize (smt_th smt)" using r(1) by simp
  obtain c where c: "CompactProof (tree_proof (smt_th smt) t (H (smt_th smt) key) False) (hasher (smt_th smt)) = Inr c"
    "DecompactProof c (hasher (smt_th smt)) = Inr (tree_proof (smt_th smt) t (H (smt_th smt) key) False)"
    using compact_roundtrip [OF h, unfolded wf_th_new [OF r(1)], OF tree_proof_sane [OF r(1,2) k]] by blast
  then show ?thesis
    using smts.Get_ok [OF assms(1) refl TrueI assms(2), of key]
      smts.Prove_ok [OF assms(1) refl TrueI assms(2), of key False] tree_proof_verifies [OF r(1,2), of key] r(3)
    by (simp add: ProveCompact_def ProveCompactForRoot_def ProveForRoot_def VerifyCompactProof_def Root_def)
qed

theorem ProveCompact_complete_witness:
  "\<exists>proof value. Get SimpleMap_store toy2 [1] = Inr value \<and>
    ProveCompact SimpleMap_store toy2 [1] = Inr proof \<and>
    VerifyCompactProof proof (Root toy2) [1] value toy = Inr True"
proof -
  have "collision_free toy_th (preimages toy_th toy2_tree)" by code_simp
  then show ?thesis
    by (rule ProveCompact_complete [OF toy2_represents(1), unfolded toy2_represents(2,3)])
qed

text \<open>
  C10. Round trip: a proof that passes the sanity check is compacted without error, the compact proof
  carries exactly the side nodes that are not placeholders, and decompaction gives the proof back.
\<close>

theorem CompactProof_roundtrip:
  assumes "wf_hash h" and "sanityCheck (newTreeHasher h) proof"
  shows "\<exists>c. CompactProof proof h = Inr c \<and> DecompactProof c h = Inr proof \<and>
    cSideNodes c = filter (\<lambda>s. s \<noteq> placeholder (newTreeHasher h)) (SideNodes proof)"
  by (rule compact_roundtrip [OF assms])

theorem CompactProof_roundtrip_witness:
  "\<exists>c. CompactProof \<lparr>SideNodes = [[5], [0], [7]], NonMembershipLeafData = None, SiblingData = None\<rparr> toy = Inr c \<and>
    DecompactProof c toy = Inr \<lparr>SideNodes = [[5], [0], [7]], NonMembershipLeafData = None, SiblingData = None\<rparr> \<and>
    cSideNodes c = [[5], [7]]"
proof -
  let ?p = "\<lparr>SideNodes = [[5], [0], [7]], NonMembershipLeafData = None, SiblingData = None\<rparr>"
  have "sanityCheck toy_th ?p" "filter (\<lambda>s. s \<noteq> placeholder toy_th) (SideNodes ?p) = [[5], [7]]"
    by code_simp+
  then show ?thesis using CompactProof_roundtrip [OF wf_toy, of ?p] by simp
qed

text \<open>
  C11. No proof makes VerifyProof panic: whatever its side nodes, leaf data and sibling data are, the
  sanity check keeps every index of the verification in range and the answer is true or false.
\<close>

theorem VerifyProof_total:
  assumes "wf_hash h"
  shows "VerifyProof proof root key value h = Inr True \<or> VerifyProof proof root key value h = Inr False"
  using VerifyProof_eq [OF assms, of "proof" root key "value"] by auto

theorem VerifyProof_total_witness:
  "VerifyProof \<lparr>SideNodes = [[], [1, 2]], NonMembershipLeafData = Some [], SiblingData = Some []\<rparr> [] [] [] toy = Inr True \<or>
   VerifyProof \<lparr>SideNodes = [[], [1, 2]], NonMembershipLeafData = Some [], SiblingData = Some []\<rparr> [] [] [] toy = Inr False"
  by (rule VerifyProof_total [OF wf_toy])

text \<open>
  C12. The compact sanity check is too weak: it counts the set bits of the whole mask, also those
  beyond NumSideNodes. This compact proof passes the check, and verifying it indexes SideNodes out
  of range: the verifier panics.
\<close>

theorem VerifyCompactProof_can_panic:
  "let proof = \<lparr>cSideNodes = [[5]], cNonMembershipLeafData = None, cBitMask = [32], cNumSideNodes = 2,
         cSiblingData = None\<rparr>
   in compactSanityCheck toy_th proof = Inr True \<and>
      VerifyCompactProof proof root key value toy = Inl index_panic"
proof -
  let ?p = "\<lparr>cSideNodes = [[5]], cNonMembershipLeafData = None, cBitMask = [32], cNumSideNodes = 2,
         cSiblingData = None\<rparr>"
  have "DecompactProof ?p toy = Inl index_panic" by code_simp
  moreover have "is_panic index_panic" by code_simp
  moreover have "compactSanityCheck toy_th ?p = Inr True" by code_simp
  ultimately show ?thesis unfolding Let_def VerifyCompactProof_def by simp
qed

end
