(* ===== verification/Bulk.thy ===== *)
theory Bulk
  imports SMTModel "HOL-Library.List_Lexorder"
begin

text \<open>
  Model of \<open>src/bulk.go\<close>: a batch of updates applied in one recursive walk. \<open>sort.Search\<close> is its
  binary search with a predicate that may panic; \<open>slices.SortStableFunc\<close> with \<open>bytes.Compare\<close> is the
  stable \<open>sort_key\<close> under the lexicographic order of byte lists. The two recursions have no bound
  of their own in the code: they end because a bit beyond the end of a path is an index panic, and
  that is their termination proof here.
\<close>

section \<open>Data and library functions\<close>

record bulkKV =
  kv_path :: bytes
  kv_value :: bytes

text \<open>The loop of \<open>sort.Search\<close>: the invariant is \<open>f(i-1) == false, f(j) == true\<close>.\<close>

function search_loop :: "(nat \<Rightarrow> bool result) \<Rightarrow> nat \<Rightarrow> nat \<Rightarrow> nat result" where
  "search_loop f i j =
     (if i < j then
        let h = (i + j) div 2 in
        bindR (f h) (\<lambda>b. if \<not> b then search_loop f (h + 1) j else search_loop f i h)
      else Inr i)"
  by pat_completeness auto
termination
  by (relation "measure (\<lambda>(f, i, j). j - i)") auto

declare search_loop.simps [simp del]

definition sort_Search :: "nat \<Rightarrow> (nat \<Rightarrow> bool result) \<Rightarrow> nat result" where
  "sort_Search n f = search_loop f 0 n"

definition partitionByBit :: "bulkKV list \<Rightarrow> nat \<Rightarrow> nat result" where
  "partitionByBit kvs d =
     (if length kvs = 0 then Inr 0
      else sort_Search (length kvs) (\<lambda>i.
             bindR (go_index kvs i) (\<lambda>kv.
             bindR (getBitAtFromMSB (kv_path kv) d) (\<lambda>b. Inr (b = right)))))"

text \<open>The in-place de-duplication: \<open>w\<close> is the write index, \<open>r\<close> the read index.\<close>

function dedup_loop :: "bulkKV list \<Rightarrow> nat \<Rightarrow> nat \<Rightarrow> bulkKV list" where
  "dedup_loop kvs w r =
     (if r < length kvs then
        if r + 1 < length kvs \<and> kv_path (kvs ! r) = kv_path (kvs ! (r + 1))
        then dedup_loop kvs w (r + 1)
        else dedup_loop (if w \<noteq> r then kvs[w := kvs ! r] else kvs) (w + 1) (r + 1)
      else take w kvs)"
  by pat_completeness auto
termination
  by (relation "measure (\<lambda>(kvs, w, r). length kvs - r)") auto

declare dedup_loop.simps [simp del]

section \<open>A probed partition has a path that is long enough\<close>

definition max_bits :: "bulkKV list \<Rightarrow> nat" where
  "max_bits kvs = Max (insert 0 ((\<lambda>kv. 8 * length (kv_path kv)) ` set kvs))"

lemma search_loop_probe:
  "search_loop f i j = Inr s \<Longrightarrow> i < j \<Longrightarrow> \<exists>h b. i \<le> h \<and> h < j \<and> f h = Inr b"
  by (subst (asm) search_loop.simps)
    (auto simp: Let_def bindR_Inr_iff intro!: exI [of _ "(i + j) div 2"])

lemma search_loop_bound: "search_loop f i j = Inr s \<Longrightarrow> i \<le> j \<Longrightarrow> s \<le> j"
proof (induction f i j rule: search_loop.induct)
  case (1 f i j)
  show ?case
  proof (cases "i < j")
    case True
    let ?h = "(i + j) div 2"
    obtain b where b: "f ?h = Inr b" "(if \<not> b then search_loop f (?h + 1) j else search_loop f i ?h) = Inr s"
      using "1.prems"(1) True by (subst (asm) search_loop.simps) (auto simp: Let_def bindR_Inr_iff)
    have "?h < j" "i \<le> ?h" using True by simp_all
    then show ?thesis using "1.IH" [OF True refl b(1)] b(2) by (cases b) auto
  qed (use 1 in \<open>simp add: search_loop.simps\<close>)
qed

lemma partition_probe:
  assumes "partitionByBit kvs d = Inr s" "kvs \<noteq> []"
  shows "d < max_bits kvs" "s \<le> length kvs"
proof -
  define f where "f = (\<lambda>i. bindR (go_index kvs i) (\<lambda>kv.
      bindR (getBitAtFromMSB (kv_path kv) d) (\<lambda>b. Inr (b = right))))"
  have s: "search_loop f 0 (length kvs) = Inr s"
    using assms by (simp add: partitionByBit_def sort_Search_def f_def)
  obtain h b where h: "h < length kvs" "f h = Inr b" using search_loop_probe [OF s] assms(2) by auto
  then obtain b' where "getBitAtFromMSB (kv_path (kvs ! h)) d = Inr b'"
    by (cases "getBitAtFromMSB (kv_path (kvs ! h)) d") (simp_all add: f_def)
  then have "d < 8 * length (kv_path (kvs ! h))"
    using getBitAtFromMSB_panic [of "kv_path (kvs ! h)" d] by (cases "8 * length (kv_path (kvs ! h)) \<le> d") auto
  also have "\<dots> \<le> max_bits kvs"
    unfolding max_bits_def using h(1) by (intro Max_ge) auto
  finally show "d < max_bits kvs" .
  show "s \<le> length kvs" using search_loop_bound [OF s] by simp
qed

lemma max_bits_mono: "set xs \<subseteq> set ys \<Longrightarrow> max_bits xs \<le> max_bits ys"
  unfolding max_bits_def by (intro Max_mono) auto

lemma partition_decreases:
  assumes "partitionByBit kvs d = Inr s" "kvs \<noteq> []"
  shows "max_bits (take s kvs) - Suc d < max_bits kvs - d"
    and "max_bits (drop s kvs) - Suc d < max_bits kvs - d"
proof -
  have "max_bits (take s kvs) \<le> max_bits kvs" "max_bits (drop s kvs) \<le> max_bits kvs"
    by (intro max_bits_mono set_take_subset set_drop_subset)+
  then show "max_bits (take s kvs) - Suc d < max_bits kvs - d"
    and "max_bits (drop s kvs) - Suc d < max_bits kvs - d"
    using partition_probe(1) [OF assms] by auto
qed

section \<open>buildSubtree\<close>

text \<open>\<open>kvs[:splitIdx]\<close> and \<open>kvs[splitIdx:]\<close> are in range: \<open>sort.Search\<close> returns at most its length.\<close>

function buildSubtree :: "'n MapStore \<Rightarrow> 'v MapStore \<Rightarrow> updateScratch \<Rightarrow> nat \<Rightarrow> bulkKV list \<Rightarrow>
    ('n, 'v) SparseMerkleTree \<Rightarrow> bytes result \<times> ('n, 'v) SparseMerkleTree" where
  "buildSubtree nI vI sc d kvs smt =
     (let th = smt_th smt in
      if length kvs = 0 then (Inr (placeholder th), smt)
      else if length kvs = 1 then
        let kv = kvs ! 0;
            valueHash = digestInto th (valueHashBuf sc) (kv_value kv);
            (leafHash, leafData) = digestLeaf th (kv_path kv) valueHash
        in bindS (nodes_Set nI leafHash leafData) (\<lambda>_.
           bindS (values_Set vI (kv_path kv) (kv_value kv)) (\<lambda>_.
             returnS leafHash)) smt
      else
        bindS (liftS (partitionByBit kvs d)) (\<lambda>splitIdx.
          let leftKVs = take splitIdx kvs; rightKVs = drop splitIdx kvs in
          bindS (if length leftKVs = 0 then returnS (placeholder th)
                 else (\<lambda>smt. buildSubtree nI vI sc (d + 1) leftKVs smt)) (\<lambda>leftHash.
          bindS (if length rightKVs = 0 then returnS (placeholder th)
                 else (\<lambda>smt. buildSubtree nI vI sc (d + 1) rightKVs smt)) (\<lambda>rightHash.
            let (nodeHash, nodeData) = digestNode th leftHash rightHash in
            bindS (nodes_Set nI nodeHash nodeData) (\<lambda>_. returnS nodeHash)))) smt)"
  by pat_completeness auto
termination
  by (relation "measure (\<lambda>(nI, vI, sc, d, kvs, smt). max_bits kvs - d)")
    (auto intro: partition_decreases)

declare buildSubtree.simps [simp del]

section \<open>mergeLeafWithKVs\<close>

definition mergeLeafWithKVs :: "'n MapStore \<Rightarrow> 'v MapStore \<Rightarrow> updateScratch \<Rightarrow> bytes \<Rightarrow> bytes \<Rightarrow> nat \<Rightarrow>
    bulkKV list \<Rightarrow> (('n, 'v) SparseMerkleTree, bytes) op" where
  "mergeLeafWithKVs nI vI sc currentHash leafData d kvs smt =
     (let th = smt_th smt in
      bindS (liftS (parseLeaf th leafData)) (\<lambda>(leafPath, existingValueHash).
        let shadowed = (\<exists>kv \<in> set kvs. kv_path kv = leafPath) in
        if shadowed \<and> length kvs = 1 \<and>
           existingValueHash = digestInto th (valueHashBuf sc) (kv_value (kvs ! 0))
        then returnS currentHash
        else
          bindS (nodes_Delete nI currentHash) (\<lambda>_.
          bindS (if shadowed then returnS kvs
                 else
                   bindS (readS (\<lambda>smt. values_Get vI smt leafPath)) (\<lambda>oldValue.
                   bindS (liftS (sort_Search (length kvs) (\<lambda>i.
                            bindR (go_index kvs i) (\<lambda>kv. Inr (kv_path kv \<ge> leafPath))))) (\<lambda>insertIdx.
                     returnS (take insertIdx kvs @
                              [\<lparr>kv_path = leafPath, kv_value = oldValue\<rparr>] @ drop insertIdx kvs))))
            (\<lambda>merged. buildSubtree nI vI sc d merged))) smt)"

section \<open>bulkApplyAtRoot\<close>

function bulkApplyAtRoot :: "'n MapStore \<Rightarrow> 'v MapStore \<Rightarrow> updateScratch \<Rightarrow> bytes \<Rightarrow> nat \<Rightarrow>
    bulkKV list \<Rightarrow> ('n, 'v) SparseMerkleTree \<Rightarrow> bytes result \<times> ('n, 'v) SparseMerkleTree" where
  "bulkApplyAtRoot nI vI sc currentHash d kvs smt =
     (let th = smt_th smt in
      if length kvs = 0 then (Inr currentHash, smt)
      else if currentHash = placeholder th then buildSubtree nI vI sc d kvs smt
      else
        bindS (readS (\<lambda>smt. nodes_Get nI smt currentHash)) (\<lambda>nodeData.
        bindS (liftS (isLeaf th nodeData)) (\<lambda>leaf.
          if leaf then mergeLeafWithKVs nI vI sc currentHash nodeData d kvs
          else
            bindS (liftS (parseNode th nodeData)) (\<lambda>(leftHash, rightHash).
            bindS (liftS (partitionByBit kvs d)) (\<lambda>splitIdx.
            bindS (\<lambda>smt. bulkApplyAtRoot nI vI sc leftHash (d + 1) (take splitIdx kvs) smt) (\<lambda>newLeft.
            bindS (\<lambda>smt. bulkApplyAtRoot nI vI sc rightHash (d + 1) (drop splitIdx kvs) smt) (\<lambda>newRight.
              if newLeft = leftHash \<and> newRight = rightHash then returnS currentHash
              else
                bindS (nodes_Delete nI currentHash) (\<lambda>_.
                  let (newHash, newData) = digestNode th newLeft newRight in
                  bindS (nodes_Set nI newHash newData) (\<lambda>_. returnS newHash)))))))) smt)"
  by pat_completeness auto
termination
  by (relation "measure (\<lambda>(nI, vI, sc, h, d, kvs, smt). max_bits kvs - d)")
    (auto intro: partition_decreases)

declare bulkApplyAtRoot.simps [simp del]

section \<open>BulkUpdate\<close>

fun bulk_deletes :: "'n MapStore \<Rightarrow> 'v MapStore \<Rightarrow> (bytes \<times> bytes) list \<Rightarrow>
    (('n, 'v) SparseMerkleTree, unit) op" where
  "bulk_deletes nI vI [] = returnS ()"
| "bulk_deletes nI vI ((key, value) # kvs) =
     (if value = defaultValue
      then bindS (Delete nI vI key) (\<lambda>_. bulk_deletes nI vI kvs)
      else bulk_deletes nI vI kvs)"

definition bulk_kvs :: "treeHasher \<Rightarrow> (bytes \<times> bytes) list \<Rightarrow> bulkKV list" where
  "bulk_kvs th kvs =
     map (\<lambda>(key, value). \<lparr>kv_path = th_path th key, kv_value = value\<rparr>)
       (filter (\<lambda>(key, value). value \<noteq> defaultValue) kvs)"

definition BulkUpdate :: "'n MapStore \<Rightarrow> 'v MapStore \<Rightarrow> bytes list \<Rightarrow> bytes list \<Rightarrow>
    (('n, 'v) SparseMerkleTree, bytes) op" where
  "BulkUpdate nI vI keys vals =
     (if length keys \<noteq> length vals then throwS ErrBulkInputMismatch
      else if length keys = 0 then readS (\<lambda>smt. Inr (Root smt))
      else
        bindS (bulk_deletes nI vI (zip keys vals)) (\<lambda>_ smt.
          let kvs = bulk_kvs (smt_th smt) (zip keys vals) in
          if length kvs = 0 then (Inr (Root smt), smt)
          else
            let kvs = dedup_loop (sort_key kv_path kvs) 0 0 in
            bindS (bulkApplyAtRoot nI vI (fst (getUpdateScratch [] 0)) (Root smt) 0 kvs)
              (\<lambda>newRoot smt. (Inr newRoot, SetRoot newRoot smt)) smt))"

end
