(* ===== verification/BulkLists.thy ===== *)
theory BulkLists
  imports Bulk MerkleTree
begin

text \<open>
  The list side of \<open>src/bulk.go\<close>: binary search finds the boundary of a monotone predicate; sorted
  paths that share a prefix split at one index by their next bit; sorting and in-place
  de-duplication keep the last value of every path. \<open>kvmap\<close> is the map a batch means.
\<close>

section \<open>Binary search\<close>

lemma search_loop_correct:
  assumes "\<And>x. x < n \<Longrightarrow> f x = Inr (P x)" "\<And>x y. P x \<Longrightarrow> x \<le> y \<Longrightarrow> y < n \<Longrightarrow> P y"
    and "i \<le> j" "j \<le> n" "\<forall>x < i. \<not> P x" "\<forall>x. j \<le> x \<and> x < n \<longrightarrow> P x"
  shows "\<exists>s \<le> n. search_loop f i j = Inr s \<and> (\<forall>x < s. \<not> P x) \<and> (\<forall>x. s \<le> x \<and> x < n \<longrightarrow> P x)"
  using assms
proof (induction f i j rule: search_loop.induct)
  case (1 f i j)
  show ?case
  proof (cases "i < j")
    case False
    then have "i = j" using "1.prems"(3) by simp
    then show ?thesis using "1.prems"(4-6) by (intro exI [of _ i]) (simp add: search_loop.simps)
  next
    case True
    let ?h = "(i + j) div 2"
    have h: "i \<le> ?h" "?h < j" using True by simp_all
    have fh: "f ?h = Inr (P ?h)" using "1.prems"(1,4) h by simp
    have lo: "\<forall>x < ?h + 1. \<not> P x" if "\<not> P ?h"
      using that "1.prems"(2,4) h by (metis Suc_eq_plus1 less_Suc_eq_le less_le_trans)
    have hi: "\<forall>x. ?h \<le> x \<and> x < n \<longrightarrow> P x" if "P ?h" using that "1.prems"(2) by blast
    have unf: "search_loop f i j = (if P ?h then search_loop f i ?h else search_loop f (?h + 1) j)"
      using True fh by (subst search_loop.simps) (simp add: Let_def)
    show ?thesis
    proof (cases "P ?h")
      case ph: True
      have "?h \<le> n" using h "1.prems"(4) by simp
      then show ?thesis
        using "1.IH"(2) [OF True refl fh _ "1.prems"(1,2) h(1) _ "1.prems"(5) hi [OF ph]] ph unf by simp
    next
      case ph: False
      have "?h + 1 \<le> j" using h by simp
      then show ?thesis
        using "1.IH"(1) [OF True refl fh _ "1.prems"(1,2) _ "1.prems"(4) lo [OF ph] "1.prems"(6)] ph unf
        by simp
    qed
  qed
qed

lemma sort_Search_correct:
  assumes "\<forall>x < n. f x = Inr (P x)" "\<forall>x y. P x \<and> x \<le> y \<and> y < n \<longrightarrow> P y"
  shows "\<exists>s \<le> n. sort_Search n f = Inr s \<and> (\<forall>x < s. \<not> P x) \<and> (\<forall>x. s \<le> x \<and> x < n \<longrightarrow> P x)"
  unfolding sort_Search_def by (rule search_loop_correct) (use assms in auto)

section \<open>Byte order and bit order\<close>

lemma byte_less:
  assumes "\<And>j. m < j \<Longrightarrow> j < 8 \<Longrightarrow> bit x j = bit y j" "bit x m" "\<not> bit y m"
  shows "(y :: byte) < x"
proof -
  have "drop_bit (Suc m) x = drop_bit (Suc m) y"
  proof (rule bit_eqI)
    fix j assume "possible_bit TYPE(byte) j"
    show "bit (drop_bit (Suc m) x) j = bit (drop_bit (Suc m) y) j"
      using assms(1) [of "Suc m + j"] bit_byte_lt [of x "Suc m + j"] bit_byte_lt [of y "Suc m + j"]
      by (auto simp: bit_drop_bit_eq)
  qed
  then have eq: "unat x div 2 ^ Suc m = unat y div 2 ^ Suc m"
    by (metis unat_drop_bit_eq drop_bit_eq_div)
  have "bit (unat x) m" "\<not> bit (unat y) m" using assms(2,3) by (simp_all add: bit_unsigned_iff)
  then have odd: "odd (unat x div 2 ^ m)" "even (unat y div 2 ^ m)" by (simp_all add: bit_iff_odd)
  have half: "u div 2 ^ Suc m = (u div 2 ^ m) div 2" for u :: nat
    by (metis div_mult2_eq mult.commute power_Suc)
  have "unat y div 2 ^ m < unat x div 2 ^ m"
    using odd eq unfolding half by (metis even_two_times_div_two less_add_same_cancel1 less_numeral_extra(1) odd_two_times_div_two_succ)
  then have "unat y < unat x" by (meson div_le_mono leD leI)
  then show ?thesis by (simp add: word_less_nat_alt)
qed

lemma list_less_at:
  fixes a b :: bytes
  assumes "take q a = take q b" "q < length a" "q < length b" "b ! q < a ! q"
  shows "b < a"
proof -
  have "a = take q a @ a ! q # drop (Suc q) a" "b = take q a @ b ! q # drop (Suc q) b"
    using id_take_nth_drop [OF assms(2)] id_take_nth_drop [OF assms(3)] assms(1) by simp_all
  moreover have "p @ b ! q # v < p @ a ! q # u" for p u v
    using assms(4) by (induction p) simp_all
  ultimately show ?thesis by metis
qed

lemma byte_index:
  assumes "j < (8 :: nat)"
  shows "(8 * i + (7 - j)) div 8 = i" "7 - (8 * i + (7 - j)) mod 8 = j"
proof -
  define r where "r = 7 - j"
  have "r < 8" "7 - r = j" using assms by (auto simp: r_def)
  then show "(8 * i + (7 - j)) div 8 = i" "7 - (8 * i + (7 - j)) mod 8 = j"
    unfolding r_def [symmetric] by simp_all
qed

lemma path_order_bit:
  fixes a b :: bytes
  assumes "a \<le> b" "length a = length b" "d < 8 * length a"
    and "\<And>j. j < d \<Longrightarrow> bit_at a j = bit_at b j" "bit_at a d"
  shows "bit_at b d"
proof (rule ccontr)
  assume nb: "\<not> bit_at b d"
  let ?q = "d div 8" and ?m = "7 - d mod 8"
  have q: "?q < length a" "?q < length b" using assms(2,3) by (simp_all add: div8_less)
  have "a ! i = b ! i" if "i < ?q" for i
  proof (rule bit_eqI)
    fix j assume j: "possible_bit TYPE(byte) j"
    then have j8: "j < 8" by simp
    then have "8 * i + (7 - j) < d" using that by linarith
    moreover have "(8 * i + (7 - j)) div 8 = i" "7 - (8 * i + (7 - j)) mod 8 = j"
      using byte_index j8 by blast+
    ultimately show "bit (a ! i) j = bit (b ! i) j"
      using assms(4) [of "8 * i + (7 - j)"] by (metis bit_at_def)
  qed
  then have "take ?q a = take ?q b" using q by (intro nth_equalityI) auto
  moreover have "b ! ?q < a ! ?q"
  proof (rule byte_less)
    fix j assume j: "?m < j" "j < 8"
    then have "8 * ?q + (7 - j) < d" using mod_mult_div_eq [of d 8] by linarith
    moreover have "(8 * ?q + (7 - j)) div 8 = ?q" "7 - (8 * ?q + (7 - j)) mod 8 = j"
      using byte_index j by blast+
    ultimately show "bit (a ! ?q) j = bit (b ! ?q) j"
      using assms(4) [of "8 * ?q + (7 - j)"] by (metis bit_at_def)
  qed (use assms(5) nb in \<open>simp_all add: bit_at_def\<close>)
  ultimately have "b < a" using q by (intro list_less_at)
  then show False using assms(1) by simp
qed

section \<open>Partitioning\<close>

definition kvmap :: "bulkKV list \<Rightarrow> (bytes \<rightharpoonup> bytes)" where
  "kvmap kvs = map_of (map (\<lambda>kv. (kv_path kv, kv_value kv)) kvs)"

text \<open>The batches the recursion works on: strictly sorted, full-length paths under a prefix,
  non-empty values.\<close>

definition batch_ok :: "nat \<Rightarrow> bool list \<Rightarrow> bulkKV list \<Rightarrow> bool" where
  "batch_ok n p kvs \<longleftrightarrow> sorted_wrt (<) (map kv_path kvs) \<and>
     (\<forall>kv\<in>set kvs. length (kv_path kv) = n \<and> prefix p (bits (kv_path kv)) \<and> kv_value kv \<noteq> [])"

lemma kvmap_simps [simp]:
  "kvmap [] = Map.empty" "kvmap (kv # kvs) = (kvmap kvs)(kv_path kv \<mapsto> kv_value kv)"
  by (simp_all add: kvmap_def)

lemma kvmap_append: "kvmap (xs @ ys) = kvmap ys ++ kvmap xs"
  by (simp add: kvmap_def)

lemma dom_kvmap: "dom (kvmap kvs) = kv_path ` set kvs"
  by (simp add: kvmap_def dom_map_of_conv_image_fst image_image)

lemma kvmap_value: "kvmap kvs k = Some v \<Longrightarrow> \<exists>kv\<in>set kvs. kv_path kv = k \<and> kv_value kv = v"
  by (induction kvs) (auto split: if_splits)

lemma batch_prefix_bit:
  assumes "batch_ok n p kvs" "kv \<in> set kvs" "j < length p"
  shows "bit_at (kv_path kv) j = p ! j"
proof -
  have "prefix p (bits (kv_path kv))" using assms(1,2) by (simp add: batch_ok_def)
  then obtain zs where zs: "bits (kv_path kv) = p @ zs" by (auto simp: prefix_def)
  then have "j < 8 * length (kv_path kv)" using assms(3) length_bits [of "kv_path kv"] by simp
  then show ?thesis using zs assms(3) nth_bits [of j "kv_path kv"] by (simp add: nth_append)
qed

lemma batch_ok_sub:
  assumes "batch_ok n p kvs" "kvs = xs @ ys"
  shows "batch_ok n p xs" "batch_ok n p ys"
  using assms by (auto simp: batch_ok_def sorted_wrt_append)

lemma batch_ok_bit:
  assumes "batch_ok n p kvs" "length p < 8 * n" "\<forall>kv\<in>set kvs. bits (kv_path kv) ! length p = b"
  shows "batch_ok n (p @ [b]) kvs"
  using assms by (simp add: batch_ok_def prefix_snoc_bits)

lemma partition_correct:
  assumes "batch_ok n p kvs" "length p = d" "d < 8 * n"
  obtains s where "partitionByBit kvs d = Inr s" "s \<le> length kvs"
    "\<forall>kv\<in>set (take s kvs). \<not> bits (kv_path kv) ! d" "\<forall>kv\<in>set (drop s kvs). bits (kv_path kv) ! d"
proof (cases "kvs = []")
  case True
  then show thesis using that [of 0] by (simp add: partitionByBit_def)
next
  case False
  let ?f = "\<lambda>i. bindR (go_index kvs i) (\<lambda>kv.
      bindR (getBitAtFromMSB (kv_path kv) d) (\<lambda>b. Inr (b = right)))"
  let ?P = "\<lambda>i. bit_at (kv_path (kvs ! i)) d"
  have len: "length (kv_path (kvs ! i)) = n" if "i < length kvs" for i
    using assms(1) that by (simp add: batch_ok_def)
  have f: "?f i = Inr (?P i)" if "i < length kvs" for i
    using that len [OF that] assms(3) by (simp add: getBitAtFromMSB_bit right_def)
  have mono: "?P y" if "?P x" "x \<le> y" "y < length kvs" for x y
  proof (cases "x = y")
    case False
    have "kv_path (kvs ! x) < kv_path (kvs ! y)"
      using assms(1) that False by (simp add: batch_ok_def sorted_wrt_iff_nth_less)
    then have le: "kv_path (kvs ! x) \<le> kv_path (kvs ! y)" by simp
    have ln: "length (kv_path (kvs ! x)) = length (kv_path (kvs ! y))" "d < 8 * length (kv_path (kvs ! x))"
      using len [of x] len [of y] that assms(3) by simp_all
    have "bit_at (kv_path (kvs ! x)) j = bit_at (kv_path (kvs ! y)) j" if "j < d" for j
      using batch_prefix_bit [OF assms(1), of "kvs ! x" j] batch_prefix_bit [OF assms(1), of "kvs ! y" j]
        that \<open>x \<le> y\<close> \<open>y < length kvs\<close> assms(2) by simp
    from path_order_bit [OF le ln this that(1)] show ?thesis .
  qed (use that in simp)
  obtain s where s: "s \<le> length kvs" "sort_Search (length kvs) ?f = Inr s" "\<forall>x < s. \<not> ?P x"
    "\<forall>x. s \<le> x \<and> x < length kvs \<longrightarrow> ?P x"
    using sort_Search_correct [of "length kvs" ?f ?P] f mono by blast
  have bit: "bits (kv_path kv) ! d = bit_at (kv_path kv) d" if "kv \<in> set kvs" for kv
    using that assms(1,3) by (simp add: batch_ok_def)
  have "\<not> bits (kv_path kv) ! d" if "kv \<in> set (take s kvs)" for kv
  proof -
    obtain i where i: "i < s" "i < length kvs" "kv = kvs ! i" using \<open>kv \<in> set (take s kvs)\<close> by (auto simp: in_set_conv_nth)
    then show ?thesis using s(3) bit [of kv] by simp
  qed
  moreover have "bits (kv_path kv) ! d" if "kv \<in> set (drop s kvs)" for kv
  proof -
    obtain i where i: "s + i < length kvs" "kv = kvs ! (s + i)"
      using \<open>kv \<in> set (drop s kvs)\<close> s(1)
      by (metis in_set_conv_nth length_drop nth_drop less_diff_conv add.commute)
    then show ?thesis using s(4) bit [of kv] by simp
  qed
  ultimately show thesis using that [of s] s(1,2) False by (simp add: partitionByBit_def)
qed

text \<open>The insertion of an old leaf into a batch that does not mention it.\<close>

lemma insert_sorted:
  assumes "batch_ok n p kvs" "\<forall>kv\<in>set kvs. kv_path kv \<noteq> k" "length k = n" "prefix p (bits k)" "v \<noteq> []"
  shows "\<exists>i. sort_Search (length kvs) (\<lambda>i. bindR (go_index kvs i) (\<lambda>kv. Inr (kv_path kv \<ge> k))) = Inr i \<and>
    batch_ok n p (take i kvs @ \<lparr>kv_path = k, kv_value = v\<rparr> # drop i kvs) \<and>
    kvmap (take i kvs @ \<lparr>kv_path = k, kv_value = v\<rparr> # drop i kvs) = [k \<mapsto> v] ++ kvmap kvs"
proof -
  let ?f = "\<lambda>i. bindR (go_index kvs i) (\<lambda>kv. Inr (kv_path kv \<ge> k))" and ?P = "\<lambda>i. k \<le> kv_path (kvs ! i)"
  have srt: "sorted_wrt (<) (map kv_path kvs)" using assms(1) by (simp add: batch_ok_def)
  have lt: "kv_path (kvs ! x) < kv_path (kvs ! y)" if "x < y" "y < length kvs" for x y
    using srt that by (simp add: sorted_wrt_iff_nth_less)
  have mono: "\<forall>x y. ?P x \<and> x \<le> y \<and> y < length kvs \<longrightarrow> ?P y"
  proof (intro allI impI)
    fix x y assume xy: "?P x \<and> x \<le> y \<and> y < length kvs"
    then show "?P y" using lt [of x y] by (cases "x = y") auto
  qed
  obtain i where i: "i \<le> length kvs" "sort_Search (length kvs) ?f = Inr i" "\<forall>x < i. \<not> ?P x"
    "\<forall>x. i \<le> x \<and> x < length kvs \<longrightarrow> ?P x"
    using sort_Search_correct [of "length kvs" ?f ?P] mono by auto
  have lo: "kv_path kv < k" if "kv \<in> set (take i kvs)" for kv
    using that i(3) by (auto simp: in_set_conv_nth not_le)
  have hi: "k < kv_path kv" if "kv \<in> set (drop i kvs)" for kv
  proof -
    have "k \<le> kv_path kv" using that i(1,4) by (auto simp: in_set_conv_nth less_diff_conv add.commute)
    moreover have "kv_path kv \<noteq> k" using that assms(2) by (auto dest: in_set_dropD)
    ultimately show ?thesis by simp
  qed
  have parts: "sorted_wrt (<) (map kv_path (take i kvs))" "sorted_wrt (<) (map kv_path (drop i kvs))"
    using srt by (simp_all add: take_map [symmetric] drop_map [symmetric] sorted_wrt_take sorted_wrt_drop)
  have "batch_ok n p (take i kvs @ \<lparr>kv_path = k, kv_value = v\<rparr> # drop i kvs)"
  proof -
    have "kv_path x < kv_path y" if "x \<in> set (take i kvs)" "y \<in> set (drop i kvs)" for x y
      using lo [OF that(1)] hi [OF that(2)] by (rule less_trans)
    then have "sorted_wrt (<) (map kv_path (take i kvs @ \<lparr>kv_path = k, kv_value = v\<rparr> # drop i kvs))"
      using parts lo hi by (simp add: sorted_wrt_append)
    moreover have "set (take i kvs @ \<lparr>kv_path = k, kv_value = v\<rparr> # drop i kvs) \<subseteq> insert \<lparr>kv_path = k, kv_value = v\<rparr> (set kvs)"
      by (auto dest: in_set_takeD in_set_dropD)
    ultimately show ?thesis using assms unfolding batch_ok_def by auto
  qed
  moreover have "kvmap (take i kvs @ \<lparr>kv_path = k, kv_value = v\<rparr> # drop i kvs) = [k \<mapsto> v] ++ kvmap kvs"
  proof -
    have "k \<notin> dom (kvmap (take i kvs))" "k \<notin> dom (kvmap (drop i kvs))"
      using assms(2) by (auto simp: dom_kvmap dest: in_set_takeD in_set_dropD)
    then have "(kvmap (drop i kvs))(k \<mapsto> v) ++ kvmap (take i kvs) =
        [k \<mapsto> v] ++ (kvmap (drop i kvs) ++ kvmap (take i kvs))"
      by (auto simp: fun_eq_iff map_add_def split: option.splits)
    moreover have "kvmap kvs = kvmap (drop i kvs) ++ kvmap (take i kvs)"
      by (metis append_take_drop_id kvmap_append)
    ultimately show ?thesis by (simp add: kvmap_append)
  qed
  ultimately show ?thesis using i(2) by blast
qed

section \<open>Sorting and de-duplication\<close>

fun dedup_last :: "bulkKV list \<Rightarrow> bulkKV list" where
  "dedup_last [] = []"
| "dedup_last [x] = [x]"
| "dedup_last (x # y # xs) =
     (if kv_path x = kv_path y then dedup_last (y # xs) else x # dedup_last (y # xs))"

lemma dedup_loop_eq:
  "w \<le> r \<Longrightarrow> dedup_loop kvs w r = take w kvs @ dedup_last (drop r kvs)"
proof (induction kvs w r rule: dedup_loop.induct)
  case (1 kvs w r)
  show ?case
  proof (cases "r < length kvs")
    case False
    then show ?thesis by (subst dedup_loop.simps) simp
  next
    case r: True
    have dr: "drop r kvs = kvs ! r # drop (Suc r) kvs" using r by (simp add: Cons_nth_drop_Suc)
    have w: "w < length kvs" using r "1.prems" by simp
    show ?thesis
    proof (cases "r + 1 < length kvs \<and> kv_path (kvs ! r) = kv_path (kvs ! (r + 1))")
      case True
      then have "drop (Suc r) kvs = kvs ! (r + 1) # drop (Suc (Suc r)) kvs"
        by (simp add: Cons_nth_drop_Suc)
      then have "dedup_last (drop r kvs) = dedup_last (drop (Suc r) kvs)" using True dr by simp
      then show ?thesis using "1.IH"(1) [OF r True] "1.prems" r True by (subst dedup_loop.simps) simp
    next
      case False
      let ?k = "if w \<noteq> r then kvs[w := kvs ! r] else kvs"
      have "dedup_last (drop r kvs) = kvs ! r # dedup_last (drop (Suc r) kvs)"
      proof (cases "drop (Suc r) kvs")
        case (Cons y ys)
        then have "r + 1 < length kvs" "y = kvs ! (r + 1)"
          by (metis Cons_nth_drop_Suc Suc_eq_plus1 drop_all leI list.distinct(1) list.inject)+
        then show ?thesis using False dr Cons by simp
      qed (simp add: dr)
      moreover have "take (w + 1) ?k = take w kvs @ [kvs ! r]"
        using w by (simp add: take_Suc_conv_app_nth)
      moreover have "drop (r + 1) ?k = drop (Suc r) kvs" using "1.prems" by simp
      moreover have "dedup_loop ?k (w + 1) (r + 1) = take (w + 1) ?k @ dedup_last (drop (r + 1) ?k)"
        using "1.IH"(2) [OF r False] "1.prems" by simp
      ultimately have "dedup_loop ?k (w + 1) (r + 1) = take w kvs @ dedup_last (drop r kvs)" by simp
      moreover have "dedup_loop kvs w r = dedup_loop ?k (w + 1) (r + 1)"
        using r False by (subst dedup_loop.simps) (simp only: if_True if_False)
      ultimately show ?thesis by simp
    qed
  qed
qed

lemma set_dedup_last: "set (dedup_last kvs) \<subseteq> set kvs"
  by (induction kvs rule: dedup_last.induct) auto

lemma dedup_last_Cons: "xs \<noteq> [] \<Longrightarrow> dedup_last xs \<noteq> []"
  by (induction xs rule: dedup_last.induct) auto

lemma dedup_last_sorted:
  "sorted (map kv_path kvs) \<Longrightarrow> sorted_wrt (<) (map kv_path (dedup_last kvs))"
proof (induction kvs rule: dedup_last.induct)
  case (3 x y xs)
  have "kv_path x < kv_path z" if "kv_path x \<noteq> kv_path y" "z \<in> set (dedup_last (y # xs))" for z
    using that 3(3) set_dedup_last [of "y # xs"] by fastforce
  then show ?case using 3 by auto
qed auto

lemma kvmap_dedup_last: "sorted (map kv_path kvs) \<Longrightarrow> kvmap (dedup_last kvs) = kvmap (rev kvs)"
proof (induction kvs rule: dedup_last.induct)
  case (3 x y xs)
  have rv: "kvmap (rev (x # y # xs)) = [kv_path x \<mapsto> kv_value x] ++ kvmap (rev (y # xs))"
    by (simp only: rev.simps(2) [of x] kvmap_append) simp
  show ?case
  proof (cases "kv_path x = kv_path y")
    case True
    have "kv_path x \<in> dom (kvmap (rev (y # xs)))" using True by (simp add: dom_kvmap)
    then have "[kv_path x \<mapsto> kv_value x] ++ kvmap (rev (y # xs)) = kvmap (rev (y # xs))"
      by (auto simp: fun_eq_iff map_add_def split: option.splits)
    then show ?thesis using 3(1,3) True rv by simp
  next
    case False
    then have "kv_path x \<notin> dom (kvmap (rev (y # xs)))"
      using 3(3) by (auto simp: dom_kvmap)
    then have "[kv_path x \<mapsto> kv_value x] ++ kvmap (rev (y # xs)) = (kvmap (rev (y # xs)))(kv_path x \<mapsto> kv_value x)"
      by (auto simp: fun_eq_iff map_add_def split: option.splits)
    then show ?thesis using 3(2,3) False rv by simp
  qed
qed auto

lemma kvmap_rev_filter: "kvmap (rev kvs) k = kvmap (rev (filter (\<lambda>kv. kv_path kv = k) kvs)) k"
  by (induction kvs) (auto simp: kvmap_append map_add_def split: option.splits)

lemma kvmap_rev_sort: "kvmap (rev (sort_key kv_path kvs)) = kvmap (rev kvs)"
proof
  fix k
  show "kvmap (rev (sort_key kv_path kvs)) k = kvmap (rev kvs) k"
    using kvmap_rev_filter [of kvs k] kvmap_rev_filter [of "sort_key kv_path kvs" k]
      sort_key_stable [of kv_path k kvs] by simp
qed

lemma bulk_prepare:
  assumes "\<forall>kv\<in>set kvs. length (kv_path kv) = n \<and> kv_value kv \<noteq> []"
  defines "kvs' \<equiv> dedup_loop (sort_key kv_path kvs) 0 0"
  shows "batch_ok n [] kvs'" "kvmap kvs' = kvmap (rev kvs)" "set kvs' \<subseteq> set kvs"
    "kvs \<noteq> [] \<Longrightarrow> kvs' \<noteq> []"
proof -
  have eq: "kvs' = dedup_last (sort_key kv_path kvs)" by (simp add: kvs'_def dedup_loop_eq)
  show sub: "set kvs' \<subseteq> set kvs" using set_dedup_last [of "sort_key kv_path kvs"] eq by simp
  show "batch_ok n [] kvs'"
    using assms(1) sub dedup_last_sorted [of "sort_key kv_path kvs"] eq by (auto simp: batch_ok_def)
  show "kvmap kvs' = kvmap (rev kvs)" using kvmap_dedup_last [of "sort_key kv_path kvs"] kvmap_rev_sort eq by simp
  show "kvs \<noteq> [] \<Longrightarrow> kvs' \<noteq> []"
    using dedup_last_Cons [of "sort_key kv_path kvs"] eq by (metis set_empty set_sort)
qed

end
