(* ===== verification/BulkCorrect.thy ===== *)
theory BulkCorrect
  imports BulkLists SMTHistory
begin

text \<open>
  Correctness of the recursive walk of \<open>src/bulk.go\<close>: \<open>buildSubtree\<close> stores exactly the canonical
  tree of its batch, \<open>bulkApplyAtRoot\<close> turns a stored canonical tree into the canonical tree of the
  merged map, deleting every node that is no longer in it, and \<open>BulkUpdate\<close> is the sequence of its
  deletions followed by its insertions.
\<close>

section \<open>Trees and batches\<close>

fun tsize :: "mtree \<Rightarrow> nat" where
  "tsize Empty = 0"
| "tsize (Leaf k v) = 1"
| "tsize (Node l r) = Suc (tsize l + tsize r)"

lemma wf_Node_depth_unique:
  "wf_tree n p t \<Longrightarrow> wf_tree n q t \<Longrightarrow> is_Node t \<Longrightarrow> length p = length q"
proof (induction t arbitrary: p q)
  case (Node l r)
  have wf: "wf_tree n (p @ [False]) l" "wf_tree n (p @ [True]) r" "wf_tree n (q @ [False]) l"
    "wf_tree n (q @ [True]) r" "branching l r"
    using Node.prems by auto
  show ?case
  proof (cases "l = Empty \<or> r = Empty")
    case True
    then have "is_Node l \<or> is_Node r" using wf(5) by (auto simp: branching_def)
    then show ?thesis using Node.IH(1) [OF wf(1,3)] Node.IH(2) [OF wf(2,4)] by auto
  next
    case False
    obtain a v b w where ab: "tmap l a = Some v" "tmap r b = Some w"
      using wf_tree_nonempty [OF wf(1)] wf_tree_nonempty [OF wf(2)] False by blast
    have split: "bits a ! length p' = False" "bits b ! length p' = True"
      "\<And>j. j < length p' \<Longrightarrow> bits a ! j = bits b ! j"
      if "wf_tree n (p' @ [False]) l" "wf_tree n (p' @ [True]) r" for p'
      using wf_tree_child_key [OF that(1) ab(1)] wf_tree_child_key [OF that(2) ab(2)]
      by (auto simp: prefix_def nth_append simp del: nth_bits)
    show ?thesis
      using split [OF wf(1,2)] split [OF wf(3,4)] by (metis nat_neq_iff)
  qed
qed auto

lemma merge_exists:
  assumes "wf_tree n p t"
    and "\<forall>kv\<in>set kvs. length (kv_path kv) = n \<and> prefix p (bits (kv_path kv)) \<and> kv_value kv \<noteq> []"
  shows "\<exists>t'. wf_tree n p t' \<and> tmap t' = tmap t ++ kvmap kvs"
  using assms(2)
proof (induction kvs)
  case Nil
  then show ?case using assms(1) by auto
next
  case (Cons kv kvs)
  then obtain t' where t': "wf_tree n p t'" "tmap t' = tmap t ++ kvmap kvs" by auto
  obtain bs where "bits (kv_path kv) = p @ bs" using Cons.prems by (auto simp: prefix_def)
  then show ?case
    using tinsert_correct [OF t'(1), of "kv_path kv" bs "kv_value kv"] t'(2) Cons.prems
    by (intro exI [of _ "tinsert bs (kv_path kv) (kv_value kv) t'"])
       (simp add: map_add_upd del: fun_upd_apply)
qed

lemma wf_tree_Empty_iff: "wf_tree n p t \<Longrightarrow> tmap t = Map.empty \<longleftrightarrow> t = Empty"
  by (metis option.distinct(1) tmap.simps(1) wf_tree_nonempty)

text \<open>Splitting a merged map at the root of its tree.\<close>

lemma merge_children:
  assumes "wf_tree n p (Node l' r')" "tmap (Node l' r') = m ++ kvmap (xs @ ys)"
    and "\<forall>kv\<in>set xs. \<not> bits (kv_path kv) ! length p" "\<forall>kv\<in>set ys. bits (kv_path kv) ! length p"
  shows "tmap l' = (\<lambda>k. if bits k ! length p then None else m k) ++ kvmap xs"
    and "tmap r' = (\<lambda>k. if bits k ! length p then m k else None) ++ kvmap ys"
proof -
  have x: "kvmap xs k = None" if "bits k ! length p" for k
    using that assms(3) dom_kvmap [of xs] by (metis domIff imageE)
  have y: "kvmap ys k = None" if "\<not> bits k ! length p" for k
    using that assms(4) dom_kvmap [of ys] by (metis domIff imageE)
  show "tmap l' = (\<lambda>k. if bits k ! length p then None else m k) ++ kvmap xs"
    unfolding tmap_child(1) [OF assms(1)] assms(2) using x y
    by (auto simp: kvmap_append map_add_def fun_eq_iff split: option.splits)
  show "tmap r' = (\<lambda>k. if bits k ! length p then m k else None) ++ kvmap ys"
    unfolding tmap_child(2) [OF assms(1)] assms(2) using x y
    by (auto simp: kvmap_append map_add_def fun_eq_iff split: option.splits)
qed

lemma kvmap_disjoint_add:
  assumes "\<forall>kv\<in>set xs. \<not> bits (kv_path kv) ! d" "\<forall>kv\<in>set ys. bits (kv_path kv) ! d"
  shows "(m ++ kvmap xs) ++ kvmap ys = m ++ kvmap (xs @ ys)"
proof -
  have "dom (kvmap xs) \<inter> dom (kvmap ys) = {}" using assms by (auto simp: dom_kvmap)
  then show ?thesis by (metis kvmap_append map_add_assoc map_add_comm)
qed

text \<open>What the partition of a batch gives for the two children of the merged tree.\<close>

lemma batch_split:
  assumes wf: "wf_tree n p (Node l' r')" and tm: "tmap (Node l' r') = m ++ kvmap kvs"
    and ok: "batch_ok n p kvs" and d: "length p = d"
  obtains i where "partitionByBit kvs d = Inr i"
    "batch_ok n (p @ [False]) (take i kvs)" "batch_ok n (p @ [True]) (drop i kvs)"
    "tmap l' = (\<lambda>k. if bits k ! d then None else m k) ++ kvmap (take i kvs)"
    "tmap r' = (\<lambda>k. if bits k ! d then m k else None) ++ kvmap (drop i kvs)"
    "\<forall>m'. (m' ++ kvmap (take i kvs)) ++ kvmap (drop i kvs) = m' ++ kvmap kvs"
    "\<forall>kv\<in>set (take i kvs). \<not> bits (kv_path kv) ! d"
proof -
  have lt: "d < 8 * n" using wf_tree_Node_depth [OF wf] d by simp
  obtain i where i: "partitionByBit kvs d = Inr i" "i \<le> length kvs"
    "\<forall>kv\<in>set (take i kvs). \<not> bits (kv_path kv) ! d" "\<forall>kv\<in>set (drop i kvs). bits (kv_path kv) ! d"
    using partition_correct [OF ok d lt] by blast
  note kvs = append_take_drop_id [of i kvs, symmetric]
  have ok': "batch_ok n (p @ [False]) (take i kvs)" "batch_ok n (p @ [True]) (drop i kvs)"
    using batch_ok_bit [OF batch_ok_sub(1) [OF ok kvs], of False]
      batch_ok_bit [OF batch_ok_sub(2) [OF ok kvs], of True] i(3,4) lt d by auto
  have "tmap (Node l' r') = m ++ kvmap (take i kvs @ drop i kvs)"
    using tm by (simp only: append_take_drop_id)
  note ch = merge_children [OF wf this i(3,4) [folded d], unfolded d]
  have "(m' ++ kvmap (take i kvs)) ++ kvmap (drop i kvs) = m' ++ kvmap kvs" for m'
    using kvmap_disjoint_add [OF i(3,4)] by simp
  then show thesis using that i(1,3) ok' ch by blast
qed

lemma is_Node_mono:
  assumes "wf_tree n p t" "is_Node t" "dom (tmap t) \<subseteq> dom (tmap t')"
  shows "is_Node t'"
proof -
  obtain a b where "a \<noteq> b" "a \<in> dom (tmap t')" "b \<in> dom (tmap t')"
    using wf_tree_two [OF assms(1,2)] assms(3) by (meson domIff subsetD)
  then show ?thesis by (cases t') (auto split: if_splits)
qed

text \<open>A batch applied to an inner node: the merged tree is an inner node, and each half of the batch is for one child.\<close>

lemma bulk_split:
  assumes "wf_tree n p (Node l r)" "wf_tree n p t'" "tmap t' = tmap (Node l r) ++ kvmap kvs" "batch_ok n p kvs"
  obtains l' r' i where "t' = Node l' r'" "partitionByBit kvs (length p) = Inr i"
    "batch_ok n (p @ [False]) (take i kvs)" "batch_ok n (p @ [True]) (drop i kvs)"
    "tmap l' = tmap l ++ kvmap (take i kvs)" "tmap r' = tmap r ++ kvmap (drop i kvs)"
    "\<forall>m'. (m' ++ kvmap (take i kvs)) ++ kvmap (drop i kvs) = m' ++ kvmap kvs"
    "\<forall>kv\<in>set (take i kvs). \<not> bits (kv_path kv) ! length p"
proof -
  have "dom (tmap (Node l r)) \<subseteq> dom (tmap t')"
    unfolding assms(3) dom_map_add by (rule Un_upper2)
  then have "is_Node t'" using is_Node_mono [OF assms(1)] by simp
  then obtain l' r' where t': "t' = Node l' r'" by (cases t') auto
  show thesis
    by (rule batch_split [OF assms(2,3) [unfolded t'] assms(4) refl], rule that [OF t'])
      (simp_all add: tmap_child [OF assms(1)])
qed

lemma node_data_notin_deeper:
  assumes "wf_th th" "pathSize th = n" "collision_free th S"
    "wf_tree n p (Node l r)" "wf_tree n q u" "length p < length q"
    "preimages th (Node l r) \<subseteq> S" "preimages th u \<subseteq> S"
  shows "tdata th (Node l r) \<notin> node_set th u"
proof
  assume "tdata th (Node l r) \<in> node_set th u"
  then obtain s where s: "s \<in> subs u" "tdata th (Node l r) = tdata th s" by (auto simp: node_set_subs)
  obtain q' where q': "prefix q q'" "wf_tree n q' s" using subs_wf [OF s(1) assms(5)] by blast
  have "Node l r = s"
    using tdata_inject [OF assms(1-4) q'(2) assms(7)] subs_preimages [OF s(1), of th] assms(8)
      subs_nonempty [OF s(1)] s(2) by blast
  then have "length p = length q'"
    using wf_Node_depth_unique [OF assms(4), of q'] q'(2) by auto
  then show False using prefix_length_le [OF q'(1)] assms(6) by simp
qed

section \<open>Unfolding\<close>

lemma build_nil: "buildSubtree nI vI sc d [] smt = (Inr (placeholder (smt_th smt)), smt)"
  by (subst buildSubtree.simps) simp

lemma build_one:
  "wf_th (smt_th smt) \<Longrightarrow> buildSubtree nI vI sc d [kv] smt =
   bindS (nodes_Set nI (H (smt_th smt) (leaf_data (smt_th smt) (kv_path kv) (kv_value kv)))
            (leaf_data (smt_th smt) (kv_path kv) (kv_value kv))) (\<lambda>_.
   bindS (values_Set vI (kv_path kv) (kv_value kv)) (\<lambda>_.
     returnS (H (smt_th smt) (leaf_data (smt_th smt) (kv_path kv) (kv_value kv))))) smt"
  by (subst buildSubtree.simps) (simp add: leaf_data_def Let_def)

lemma build_many:
  assumes "wf_th (smt_th smt)" "2 \<le> length kvs" "partitionByBit kvs d = Inr s"
    and "buildSubtree nI vI sc (d + 1) (take s kvs) smt = (Inr lh, smt1)" "smt_th smt1 = smt_th smt"
    and "buildSubtree nI vI sc (d + 1) (drop s kvs) smt1 = (Inr rh, smt2)"
  shows "buildSubtree nI vI sc d kvs smt =
    bindS (nodes_Set nI (H (smt_th smt) (node_data lh rh)) (node_data lh rh))
      (\<lambda>_. returnS (H (smt_th smt) (node_data lh rh))) smt2"
proof -
  let ?part = "\<lambda>xs. if length xs = 0 then returnS (placeholder (smt_th smt))
    else (\<lambda>smt. buildSubtree nI vI sc (d + 1) xs smt)"
  have one: "?part xs smt' = buildSubtree nI vI sc (d + 1) xs smt'" if "smt_th smt' = smt_th smt" for xs and smt'
    using that by (simp add: build_nil)
  have "buildSubtree nI vI sc d kvs smt =
      bindS (?part (take s kvs)) (\<lambda>leftHash. bindS (?part (drop s kvs)) (\<lambda>rightHash.
        bindS (nodes_Set nI (H (smt_th smt) (node_data leftHash rightHash)) (node_data leftHash rightHash))
          (\<lambda>_. returnS (H (smt_th smt) (node_data leftHash rightHash))))) smt"
    using assms(1-3) by (subst buildSubtree.simps) (auto simp: Let_def)
  also have "\<dots> = bindS (nodes_Set nI (H (smt_th smt) (node_data lh rh)) (node_data lh rh))
      (\<lambda>_. returnS (H (smt_th smt) (node_data lh rh))) smt2"
    using one [of smt "take s kvs"] one [of smt1 "drop s kvs"] assms(4-6) by (simp only: bindS_ok)
  finally show ?thesis .
qed

lemma bulk_nil: "bulkApplyAtRoot nI vI sc h d [] smt = (Inr h, smt)"
  by (subst bulkApplyAtRoot.simps) simp

lemma bulk_placeholder:
  "bulkApplyAtRoot nI vI sc (placeholder (smt_th smt)) d kvs smt = buildSubtree nI vI sc d kvs smt"
  by (cases kvs; subst bulkApplyAtRoot.simps) (simp_all add: build_nil)

lemma bulk_leaf:
  assumes "kvs \<noteq> []" "h \<noteq> placeholder (smt_th smt)" "nodes_Get nI smt h = Inr d0" "isLeaf (smt_th smt) d0 = Inr True"
  shows "bulkApplyAtRoot nI vI sc h d kvs smt = mergeLeafWithKVs nI vI sc h d0 d kvs smt"
  using assms by (subst bulkApplyAtRoot.simps) simp

lemma bulk_inner:
  assumes "wf_th (smt_th smt)" "kvs \<noteq> []" "h \<noteq> placeholder (smt_th smt)"
    "nodes_Get nI smt h = Inr (node_data lh rh)" "length lh = pathSize (smt_th smt)"
    "partitionByBit kvs d = Inr i"
    "bulkApplyAtRoot nI vI sc lh (d + 1) (take i kvs) smt = (Inr nl, smt1)"
    "bulkApplyAtRoot nI vI sc rh (d + 1) (drop i kvs) smt1 = (Inr nr, smt2)"
  shows "bulkApplyAtRoot nI vI sc h d kvs smt =
    (if nl = lh \<and> nr = rh then (Inr h, smt2)
     else bindS (nodes_Delete nI h) (\<lambda>_.
       bindS (nodes_Set nI (H (smt_th smt) (node_data nl nr)) (node_data nl nr)) (\<lambda>_.
         returnS (H (smt_th smt) (node_data nl nr)))) smt2)"
  using assms by (subst bulkApplyAtRoot.simps) (simp add: Let_def)

section \<open>buildSubtree\<close>

lemma batch_tree_cases:
  assumes "wf_tree n p t" "batch_ok n p kvs" "tmap t = kvmap kvs"
  shows "t = Empty \<Longrightarrow> kvs = []"
    and "t = Leaf k v \<Longrightarrow> kvs = [\<lparr>kv_path = k, kv_value = v\<rparr>]"
    and "is_Node t \<Longrightarrow> 2 \<le> length kvs"
proof -
  have dom: "dom (tmap t) = kv_path ` set kvs" using assms(3) by (simp add: dom_kvmap)
  have dist: "distinct (map kv_path kvs)"
    using assms(2) by (simp add: batch_ok_def strict_sorted_iff)
  have card: "card (dom (tmap t)) = length kvs"
    using dom dist by (metis distinct_card length_map list.set_map)
  show "kvs = []" if "t = Empty" using card that by simp
  show "kvs = [\<lparr>kv_path = k, kv_value = v\<rparr>]" if "t = Leaf k v"
  proof -
    have "length kvs = 1" using card that by simp
    then obtain kv where kv: "kvs = [kv]" by (auto simp: length_Suc_conv)
    then have "[kv_path kv \<mapsto> kv_value kv] = [k \<mapsto> v]" using assms(3) that by simp
    then have "kv_path kv = k" "kv_value kv = v" by (metis fun_upd_apply option.distinct(1) option.inject)+
    then show ?thesis using kv by simp
  qed
  show "2 \<le> length kvs" if node: "is_Node t"
  proof -
    obtain a b where ab: "a \<noteq> b" "{a, b} \<subseteq> dom (tmap t)"
      using wf_tree_two [OF assms(1) node] by (auto simp: dom_def)
    have "finite (dom (tmap t))" using dom by simp
    then have "card {a, b} \<le> card (dom (tmap t))" using ab(2) by (intro card_mono)
    then show ?thesis using ab(1) card by simp
  qed
qed

lemma tmap_preimages: "tmap t k = Some v \<Longrightarrow> v \<in> preimages th t"
  by (induction t) (auto split: if_splits)

lemma subs_le:
  assumes "wf_tree n p (Node l r)"
  shows "tmap l \<subseteq>\<^sub>m tmap (Node l r)" "tmap r \<subseteq>\<^sub>m tmap (Node l r)"
  using tmap_child_Some [OF assms] by (auto simp: map_le_def simp del: tmap.simps)

lemma right_le:
  assumes "wf_tree n (p @ [True]) r" "tmap r \<subseteq>\<^sub>m m" "\<forall>kv\<in>set kvs. \<not> bits (kv_path kv) ! length p"
  shows "tmap r \<subseteq>\<^sub>m m ++ kvmap kvs"
proof -
  have "kvmap kvs k = None" if "tmap r k = Some v" for k v
    using wf_tree_child_key(3) [OF assms(1) that] assms(3) dom_kvmap [of kvs] by (metis domIff imageE)
  then show ?thesis using assms(2) by (auto simp: map_le_def map_add_def dom_def split: option.splits)
qed

lemma smt_upd_swap:
  "smt\<lparr>smt_values := w, smt_nodes := s\<rparr> = smt\<lparr>smt_nodes := s, smt_values := w\<rparr>"
  by simp

context smt_stores
begin

abbreviation built :: "('n, 'v) SparseMerkleTree \<Rightarrow> nat \<Rightarrow> nat \<Rightarrow> bytes set \<Rightarrow> (bytes \<rightharpoonup> bytes) \<Rightarrow> mtree \<Rightarrow>
    bytes result \<times> ('n, 'v) SparseMerkleTree \<Rightarrow> bool" where
  "built smt b bv D m t r \<equiv> \<exists>s w.
     r = (Inr (thash (smt_th smt) t), smt\<lparr>smt_nodes := s, smt_values := w\<rparr>) \<and> roomn b s \<and>
     cas (smt_th smt) (absn s) (D \<union> node_set (smt_th smt) t) \<and> roomv bv w \<and>
     absv w = absv (smt_values smt) ++ m"

lemma buildSubtree_ok:
  assumes th: "wf_th (smt_th smt)" "pathSize (smt_th smt) = n"
    and t: "wf_tree n p t" "batch_ok n p kvs" "tmap t = kvmap kvs" "length p = d"
    and v: "\<forall>kv\<in>set kvs. okvv (kv_value kv)"
    and room: "roomn (b + tsize t) (smt_nodes smt)" "roomv (bv + tsize t) (smt_values smt)"
    and st: "cas (smt_th smt) (absn (smt_nodes smt)) D"
    and S: "collision_free (smt_th smt) S" "D \<subseteq> S" "preimages (smt_th smt) t \<subseteq> S"
  shows "built smt b bv D (kvmap kvs) t (buildSubtree nI vI sc d kvs smt)"
  using assms
proof (induction t arbitrary: p d kvs smt D b bv)
  case Empty
  then have "kvs = []" using batch_tree_cases(1) [of n p Empty kvs] by simp
  then show ?case
    using Empty.prems by (intro exI [of _ "smt_nodes smt"] exI [of _ "smt_values smt"]) (simp add: build_nil)
next
  case (Leaf k v)
  let ?L = "leaf_data (smt_th smt) k v"
  have kvs: "kvs = [\<lparr>kv_path = k, kv_value = v\<rparr>]"
    using batch_tree_cases(2) [OF Leaf.prems(3-5) refl] .
  have k: "length k = n" using Leaf.prems(3) by simp
  obtain s where s: "nodes_Set nI (H (smt_th smt) ?L) ?L smt = (Inr (), smt\<lparr>smt_nodes := s\<rparr>)"
    "roomn b s" "cas (smt_th smt) (absn s) (insert ?L D)"
    using nodes_Set_ok [OF Leaf.prems(1,2) _ Leaf.prems(10,11,12), of b ?L] Leaf.prems(1,2,8,13) k by auto
  obtain w where w: "values_Set vI k v (smt\<lparr>smt_nodes := s\<rparr>) = (Inr (), smt\<lparr>smt_nodes := s, smt_values := w\<rparr>)"
    "absv w = (absv (smt_values smt))(k \<mapsto> v)" "roomv bv w"
    using V.set_law [of bv "smt_values smt" k v] value_key [OF k] Leaf.prems(7,9) kvs
    by (auto simp: values_Set_def)
  show ?case
    using s w Leaf.prems(1) kvs by (intro exI [of _ s] exI [of _ w]) (simp add: build_one map_add_upd del: fun_upd_apply)
next
  case (Node l r)
  let ?th = "smt_th smt"
  have len: "2 \<le> length kvs" using batch_tree_cases(3) [OF Node.prems(3-5)] by simp
  have wf: "wf_tree n (p @ [False]) l" "wf_tree n (p @ [True]) r" using Node.prems(3) by auto
  have "tmap (Node l r) = Map.empty ++ kvmap kvs" using Node.prems(5) by (simp only: empty_map_add)
  then obtain i where i: "partitionByBit kvs d = Inr i"
    and ok: "batch_ok n (p @ [False]) (take i kvs)" "batch_ok n (p @ [True]) (drop i kvs)"
    and ch: "tmap l = (\<lambda>k. if bits k ! d then None else None) ++ kvmap (take i kvs)"
      "tmap r = (\<lambda>k. if bits k ! d then None else None) ++ kvmap (drop i kvs)"
    and add: "\<forall>m'. (m' ++ kvmap (take i kvs)) ++ kvmap (drop i kvs) = m' ++ kvmap kvs"
    by (rule batch_split [OF Node.prems(3) _ Node.prems(4,6)])
  have tm: "tmap l = kvmap (take i kvs)" "tmap r = kvmap (drop i kvs)"
    using ch by (simp_all only: if_cancel empty_map_add)
  have v: "\<forall>kv\<in>set (take i kvs). okvv (kv_value kv)" "\<forall>kv\<in>set (drop i kvs). okvv (kv_value kv)"
    using Node.prems(7) by (auto dest: in_set_takeD in_set_dropD)
  have S: "preimages ?th l \<subseteq> S" "preimages ?th r \<subseteq> S" "node_data (thash ?th l) (thash ?th r) \<in> S"
    using Node.prems(13) by auto
  have nl: "node_set ?th l \<subseteq> S" "node_set ?th r \<subseteq> S" using S node_set_preimages by blast+
  have "built smt (Suc (b + tsize r)) (Suc (bv + tsize r)) D (kvmap (take i kvs)) l
      (buildSubtree nI vI sc (d + 1) (take i kvs) smt)"
    using Node.prems(1,2,6,8-12) S(1) v(1)
    by (intro Node.IH(1) [OF _ _ wf(1) ok(1) tm(1)]) (simp_all add: add.assoc add.commute add.left_commute)
  then obtain s1 w1 where l: "buildSubtree nI vI sc (d + 1) (take i kvs) smt =
      (Inr (thash ?th l), smt\<lparr>smt_nodes := s1, smt_values := w1\<rparr>)" "roomn (Suc b + tsize r) s1"
    "cas ?th (absn s1) (D \<union> node_set ?th l)" "roomv (Suc bv + tsize r) w1"
    "absv w1 = absv (smt_values smt) ++ kvmap (take i kvs)" by auto
  let ?smt1 = "smt\<lparr>smt_nodes := s1, smt_values := w1\<rparr>"
  have "built ?smt1 (Suc b) (Suc bv) (D \<union> node_set ?th l) (kvmap (drop i kvs)) r
      (buildSubtree nI vI sc (d + 1) (drop i kvs) ?smt1)"
    using Node.prems(1,2,6,11,12) l(2-4) S(2) v(2) nl(1)
    by (intro Node.IH(2) [OF _ _ wf(2) ok(2) tm(2)]) simp_all
  then obtain s2 w2 where r: "buildSubtree nI vI sc (d + 1) (drop i kvs) ?smt1 =
      (Inr (thash ?th r), smt\<lparr>smt_nodes := s2, smt_values := w2\<rparr>)" "roomn (Suc b) s2"
    "cas ?th (absn s2) (D \<union> node_set ?th l \<union> node_set ?th r)" "roomv (Suc bv) w2"
    "absv w2 = (absv (smt_values smt) ++ kvmap (take i kvs)) ++ kvmap (drop i kvs)"
    using l(5) by auto
  let ?d = "node_data (thash ?th l) (thash ?th r)"
  have len_d: "length ?d = 2 * n + 1" using Node.prems(1,2) by (simp add: node_data_def)
  obtain s3 where s3: "nodes_Set nI (H ?th ?d) ?d (smt\<lparr>smt_nodes := s2, smt_values := w2\<rparr>) =
      (Inr (), smt\<lparr>smt_nodes := s3, smt_values := w2\<rparr>)" "roomn b s3"
    "cas ?th (absn s3) (insert ?d (D \<union> node_set ?th l \<union> node_set ?th r))"
    using nodes_Set_ok [OF Node.prems(1,2), of b "smt\<lparr>smt_nodes := s2, smt_values := w2\<rparr>"
        "D \<union> node_set ?th l \<union> node_set ?th r" S ?d] r(2,3) Node.prems(11,12) nl S(3) len_d
    by (auto simp: smt_upd_swap)
  have m: "absv w2 = absv (smt_values smt) ++ kvmap kvs"
    using r(5) add by simp
  have "buildSubtree nI vI sc d kvs smt = (Inr (thash ?th (Node l r)), smt\<lparr>smt_nodes := s3, smt_values := w2\<rparr>)"
    using build_many [OF Node.prems(1) len i l(1) _ r(1)] s3(1) by simp
  then show ?case using s3(2,3) m V.room_mono [OF r(4), of bv] by (auto simp: Un_assoc)
qed

section \<open>mergeLeafWithKVs\<close>

text \<open>The batch that is built in place of a leaf: the leaf's own pair is added unless it is overwritten.\<close>

lemma mergeLeaf_merged:
  assumes th: "wf_th (smt_th smt)" "pathSize (smt_th smt) = n"
    and t: "wf_tree n p (Leaf k v)" and kvs: "batch_ok n p kvs"
    and v: "\<forall>kv\<in>set kvs. okvv (kv_value kv)" "okvv v"
    and st: "roomv bv (smt_values smt)" "absv (smt_values smt) k = Some v"
      "nodes_Delete nI h smt = (Inr (), smt\<lparr>smt_nodes := s\<rparr>)"
    and differs: "\<not> ((\<exists>kv\<in>set kvs. kv_path kv = k) \<and> length kvs = 1 \<and> H (smt_th smt) v = H (smt_th smt) (kv_value (kvs ! 0)))"
  obtains merged where
    "mergeLeafWithKVs nI vI sc h (leaf_data (smt_th smt) k v) d kvs smt = buildSubtree nI vI sc d merged (smt\<lparr>smt_nodes := s\<rparr>)"
    "batch_ok n p merged" "kvmap merged = [k \<mapsto> v] ++ kvmap kvs" "\<forall>kv\<in>set merged. okvv (kv_value kv)"
    "absv (smt_values smt) ++ kvmap merged = absv (smt_values smt) ++ kvmap kvs"
proof -
  let ?th = "smt_th smt" and ?smt1 = "smt\<lparr>smt_nodes := s\<rparr>"
  have k: "length k = n" "prefix p (bits k)" "v \<noteq> []" using t by simp_all
  have parse: "parseLeaf ?th (leaf_data ?th k v) = Inr (k, H ?th v)" using k(1) th(2) by simp
  show thesis
  proof (cases "\<exists>kv\<in>set kvs. kv_path kv = k")
    case True
    then have "k \<in> dom (kvmap kvs)" by (auto simp: dom_kvmap)
    then have "[k \<mapsto> v] ++ kvmap kvs = kvmap kvs" by (auto simp: fun_eq_iff map_add_def split: option.splits)
    moreover have "mergeLeafWithKVs nI vI sc h (leaf_data ?th k v) d kvs smt = buildSubtree nI vI sc d kvs ?smt1"
      using differs True parse st(3) th(1) by (auto simp: mergeLeafWithKVs_def Let_def)
    ultimately show thesis using that [of kvs] kvs v(1) by auto
  next
    case sh: False
    let ?kv = "\<lparr>kv_path = k, kv_value = v\<rparr>"
    obtain i where i: "sort_Search (length kvs) (\<lambda>i. bindR (go_index kvs i) (\<lambda>kv. Inr (kv_path kv \<ge> k))) = Inr i"
      "batch_ok n p (take i kvs @ ?kv # drop i kvs)" "kvmap (take i kvs @ ?kv # drop i kvs) = [k \<mapsto> v] ++ kvmap kvs"
      using insert_sorted [OF kvs _ k] sh by blast
    have get: "values_Get vI ?smt1 k = Inr v"
      using V.get_Some [OF st(1) value_key [OF k(1)] st(2)] by (simp add: values_Get_def)
    have "mergeLeafWithKVs nI vI sc h (leaf_data ?th k v) d kvs smt =
        buildSubtree nI vI sc d (take i kvs @ ?kv # drop i kvs) ?smt1"
      using sh parse st(3) i(1) get by (simp add: mergeLeafWithKVs_def Let_def)
    moreover have "absv (smt_values smt) ++ ([k \<mapsto> v] ++ kvmap kvs) = absv (smt_values smt) ++ kvmap kvs"
      using st(2) by (auto simp: fun_eq_iff map_add_def split: option.splits)
    moreover have "\<forall>kv\<in>set (take i kvs @ ?kv # drop i kvs). okvv (kv_value kv)"
      using v by (auto dest: in_set_takeD in_set_dropD)
    ultimately show thesis using that i(2,3) by auto
  qed
qed

lemma mergeLeaf_ok:
  assumes th: "wf_th (smt_th smt)" "pathSize (smt_th smt) = n"
    and t: "wf_tree n p (Leaf k v)" "wf_tree n p t'" "tmap t' = [k \<mapsto> v] ++ kvmap kvs"
    and kvs: "batch_ok n p kvs" "length p = d" "kvs \<noteq> []"
    and v: "\<forall>kv\<in>set kvs. okvv (kv_value kv)" "okvv v"
    and room: "roomn (b + tsize t') (smt_nodes smt)" "roomv (bv + tsize t') (smt_values smt)"
    and st: "cas (smt_th smt) (absn (smt_nodes smt)) (insert (leaf_data (smt_th smt) k v) R)"
      "leaf_data (smt_th smt) k v \<notin> R" "absv (smt_values smt) k = Some v"
    and S: "collision_free (smt_th smt) S" "R \<subseteq> S" "preimages (smt_th smt) (Leaf k v) \<subseteq> S"
      "preimages (smt_th smt) t' \<subseteq> S"
  shows "built smt b bv R (kvmap kvs) t' (mergeLeafWithKVs nI vI sc (H (smt_th smt) (leaf_data (smt_th smt) k v))
    (leaf_data (smt_th smt) k v) d kvs smt)"
proof -
  let ?th = "smt_th smt" and ?L = "leaf_data (smt_th smt) k v"
  let ?sh = "\<exists>kv\<in>set kvs. kv_path kv = k"
  have k: "length k = n" "prefix p (bits k)" "v \<noteq> []" using t(1) by simp_all
  have parse: "parseLeaf ?th ?L = Inr (k, H ?th v)" using k(1) th(2) by simp
  show ?thesis
  proof (cases "?sh \<and> length kvs = 1 \<and> H ?th v = H ?th (kv_value (kvs ! 0))")
    case True
    then obtain kv where kv: "kvs = [kv]" "kv_path kv = k" "H ?th v = H ?th (kv_value kv)"
      by (auto simp: length_Suc_conv)
    have "kv_value kv \<in> S" using tmap_preimages [of t' k "kv_value kv" ?th] t(3) kv S(4) by auto
    then have v: "kv_value kv = v" using collision_freeD [OF S(1)] S(3) kv(3) by force
    then have "tmap t' = tmap (Leaf k v)" using t(3) kv by simp
    then have "t' = Leaf k v" using wf_tree_unique [OF t(2,1)] by simp
    moreover have "absv (smt_values smt) ++ kvmap kvs = absv (smt_values smt)"
      using st(3) kv v by (auto simp: fun_eq_iff map_add_def)
    ultimately show ?thesis
      using True parse st(1) room th(1) N.room_mono V.room_mono
      by (intro exI [of _ "smt_nodes smt"] exI [of _ "smt_values smt"]) (auto simp: mergeLeafWithKVs_def Let_def)
  next
    case False
    obtain s1 where s1: "nodes_Delete nI (H ?th ?L) smt = (Inr (), smt\<lparr>smt_nodes := s1\<rparr>)"
      "roomn (b + tsize t') s1" "cas ?th (absn s1) R"
      using nodes_Delete_ok [OF th room(1) st(1), of ?L] st(2) by auto
    let ?smt1 = "smt\<lparr>smt_nodes := s1\<rparr>"
    obtain merged where m: "mergeLeafWithKVs nI vI sc (H ?th ?L) ?L d kvs smt = buildSubtree nI vI sc d merged ?smt1"
      "batch_ok n p merged" "kvmap merged = [k \<mapsto> v] ++ kvmap kvs" "\<forall>kv\<in>set merged. okvv (kv_value kv)"
      "absv (smt_values smt) ++ kvmap merged = absv (smt_values smt) ++ kvmap kvs"
      by (rule mergeLeaf_merged [OF th t(1) kvs(1) v room(2) st(3) s1(1) False])
    have "built ?smt1 b bv R (kvmap merged) t' (buildSubtree nI vI sc d merged ?smt1)"
      using th s1(2,3) room(2) S(1,2,4) m(4) kvs(2) t(2,3) m(2,3)
      by (intro buildSubtree_ok) simp_all
    then show ?thesis using m(1,5) by auto
  qed
qed

section \<open>bulkApplyAtRoot\<close>

text \<open>The two children are done: replace the old node by the new one, or keep it.\<close>

lemma bulk_finish:
  assumes th: "wf_th th" "pathSize th = n"
    and wf: "wf_tree n p (Node l r)" "wf_tree n p (Node l' r')"
    and st: "cas th (absn (smt_nodes smt))
        (insert (tdata th (Node l r)) (R \<union> node_set th l' \<union> node_set th r'))"
      "tdata th (Node l r) \<notin> R" "roomn (Suc b) (smt_nodes smt)"
    and S: "collision_free th S" "R \<subseteq> S" "preimages th (Node l r) \<subseteq> S"
      "preimages th (Node l' r') \<subseteq> S"
  defines "nd \<equiv> node_data (thash th l') (thash th r')"
  shows "\<exists>s. (if thash th l' = thash th l \<and> thash th r' = thash th r
      then (Inr (thash th (Node l r)), smt)
      else bindS (nodes_Delete nI (thash th (Node l r))) (\<lambda>_.
       bindS (nodes_Set nI (H th nd) nd) (\<lambda>_. returnS (H th nd))) smt) =
      (Inr (thash th (Node l' r')), smt\<lparr>smt_nodes := s\<rparr>) \<and> roomn b s \<and>
    cas th (absn s) (R \<union> node_set th (Node l' r'))"
proof -
  let ?D = "tdata th (Node l r)"
  have wfs: "wf_tree n (p @ [False]) l" "wf_tree n (p @ [False]) l'" "wf_tree n (p @ [True]) r"
    "wf_tree n (p @ [True]) r'" using wf by auto
  have pS: "preimages th l \<subseteq> S" "preimages th l' \<subseteq> S" "preimages th r \<subseteq> S" "preimages th r' \<subseteq> S" "nd \<in> S" "?D \<in> S"
    using S(3,4) by (auto simp: nd_def)
  show ?thesis
  proof (cases "thash th l' = thash th l \<and> thash th r' = thash th r")
    case True
    then have "l' = l" "r' = r"
      using thash_inject [OF th S(1) wfs(2,1) pS(2,1)] thash_inject [OF th S(1) wfs(4,3) pS(4,3)] by auto
    then show ?thesis
      using st(1) N.room_mono [OF st(3), of b] by (intro exI [of _ "smt_nodes smt"]) (simp add: Un_assoc)
  next
    case False
    have notin: "?D \<notin> node_set th l'" "?D \<notin> node_set th r'"
      using node_data_notin_deeper [OF th S(1) wf(1) wfs(2)] node_data_notin_deeper [OF th S(1) wf(1) wfs(4)]
        S(3) pS by auto
    let ?N = "R \<union> node_set th l' \<union> node_set th r'"
    obtain s1 where s1: "nodes_Delete nI (H th ?D) smt = (Inr (), smt\<lparr>smt_nodes := s1\<rparr>)" "roomn (Suc b) s1"
      "cas th (absn s1) ?N"
      using nodes_Delete_ok [OF th st(3,1), of ?D] notin st(2) by auto
    have NS: "?N \<subseteq> S" using S(2) pS(2,4) node_set_preimages [of th l'] node_set_preimages [of th r'] by blast
    have len: "length nd = 2 * n + 1" using th by (simp add: nd_def node_data_def)
    obtain s2 where s2: "nodes_Set nI (H th nd) nd (smt\<lparr>smt_nodes := s1\<rparr>) = (Inr (), smt\<lparr>smt_nodes := s2\<rparr>)"
      "roomn b s2" "cas th (absn s2) (insert nd ?N)"
      using nodes_Set_ok [OF th, of b "smt\<lparr>smt_nodes := s1\<rparr>" ?N S nd] s1(2,3) S(1) NS pS(5) len by auto
    have "bindS (nodes_Delete nI (thash th (Node l r))) (\<lambda>_.
       bindS (nodes_Set nI (H th nd) nd) (\<lambda>_. returnS (H th nd))) smt = (Inr (H th nd), smt\<lparr>smt_nodes := s2\<rparr>)"
      using s1(1) s2(1) by simp
    moreover have "thash th (Node l' r') = H th nd" "R \<union> node_set th (Node l' r') = insert nd ?N"
      by (auto simp: nd_def)
    ultimately show ?thesis using False s2(2,3) by (auto simp del: thash.simps node_set.simps)
  qed
qed

text \<open>
  What a call of \<open>bulkApplyAtRoot\<close> needs: \<open>t\<close> is the stored tree at path \<open>p\<close>, \<open>t'\<close> the tree of the merged
  map, \<open>R\<close> the rest of the node store; everything hashed is in \<open>S\<close>.
\<close>

definition bulk_pre :: "bytes set \<Rightarrow> ('n, 'v) SparseMerkleTree \<Rightarrow> bool list \<Rightarrow> mtree \<Rightarrow> mtree \<Rightarrow> bulkKV list \<Rightarrow>
    bytes set \<Rightarrow> nat \<Rightarrow> nat \<Rightarrow> bool" where
  "bulk_pre S smt p t t' kvs R b bv \<longleftrightarrow>
     (wf_th (smt_th smt) \<and> pathSize (smt_th smt) = n) \<and>
     (wf_tree n p t \<and> wf_tree n p t' \<and> tmap t' = tmap t ++ kvmap kvs \<and> batch_ok n p kvs) \<and>
     ((\<forall>kv\<in>set kvs. okvv (kv_value kv)) \<and> (\<forall>k v. tmap t k = Some v \<longrightarrow> okvv v)) \<and>
     (roomn (b + tsize t') (smt_nodes smt) \<and> roomv (bv + tsize t') (smt_values smt)) \<and>
     (cas (smt_th smt) (absn (smt_nodes smt)) (R \<union> node_set (smt_th smt) t) \<and>
       R \<inter> node_set (smt_th smt) t = {} \<and> tmap t \<subseteq>\<^sub>m absv (smt_values smt)) \<and>
     (collision_free (smt_th smt) S \<and> R \<subseteq> S \<and> preimages (smt_th smt) t \<subseteq> S \<and> preimages (smt_th smt) t' \<subseteq> S)"

lemma bulk_preD:
  assumes "bulk_pre S smt p t t' kvs R b bv"
  shows "wf_th (smt_th smt)" "pathSize (smt_th smt) = n"
    "wf_tree n p t" "wf_tree n p t'" "tmap t' = tmap t ++ kvmap kvs" "batch_ok n p kvs"
    "\<forall>kv\<in>set kvs. okvv (kv_value kv)" "\<forall>k v. tmap t k = Some v \<longrightarrow> okvv v"
    "roomn (b + tsize t') (smt_nodes smt)" "roomv (bv + tsize t') (smt_values smt)"
    "cas (smt_th smt) (absn (smt_nodes smt)) (R \<union> node_set (smt_th smt) t)"
    "R \<inter> node_set (smt_th smt) t = {}" "tmap t \<subseteq>\<^sub>m absv (smt_values smt)"
    "collision_free (smt_th smt) S" "R \<subseteq> S" "preimages (smt_th smt) t \<subseteq> S" "preimages (smt_th smt) t' \<subseteq> S"
  using assms unfolding bulk_pre_def by blast+

lemma bulkApply_nil:
  assumes "bulk_pre S smt p t t' kvs R b bv" "kvs = []"
  shows "built smt b bv R (kvmap kvs) t' (bulkApplyAtRoot nI vI sc (thash (smt_th smt) t) d kvs smt)"
proof -
  note pre = bulk_preD [OF assms(1)]
  have "t' = t" using wf_tree_unique [OF pre(4,3)] pre(5) assms(2) by simp
  then show ?thesis
    using assms(2) pre(11) N.room_mono [OF pre(9), of b] V.room_mono [OF pre(10), of bv]
    by (intro exI [of _ "smt_nodes smt"] exI [of _ "smt_values smt"]) (simp add: bulk_nil)
qed

lemma bulkApply_Leaf:
  assumes "bulk_pre S smt p (Leaf k v) t' kvs R b bv" "kvs \<noteq> []" "length p = d"
  shows "built smt b bv R (kvmap kvs) t' (bulkApplyAtRoot nI vI sc (thash (smt_th smt) (Leaf k v)) d kvs smt)"
proof -
  let ?th = "smt_th smt" and ?L = "leaf_data (smt_th smt) k v"
  note pre = bulk_preD [OF assms(1)]
  have L: "?L \<in> S" using pre(16) by simp
  have get: "nodes_Get nI smt (H ?th ?L) = Inr ?L" "H ?th ?L \<noteq> placeholder ?th"
    using nodes_Get_Some [OF pre(9), of "H ?th ?L" ?L] cas_get [OF pre(11), of ?L]
      pre(1,2) collision_free_placeholder [OF pre(14) L] by auto
  have "absv (smt_values smt) k = Some v"
    using pre(13) unfolding map_le_def by (metis domI fun_upd_same tmap.simps(2))
  moreover have "tmap t' = [k \<mapsto> v] ++ kvmap kvs" "okvv v"
    using pre(5,8) by (simp_all only: tmap.simps) (metis fun_upd_same)
  moreover have "cas ?th (absn (smt_nodes smt)) (insert ?L R)" "?L \<notin> R" using pre(11,12) by simp_all
  ultimately show ?thesis
    unfolding thash.simps bulk_leaf [OF assms(2) get(2,1) leaf_data_parse(2)]
    using pre(1-4,6,7,9,10,14-17) assms(2,3) by (intro mergeLeaf_ok) simp_all
qed

lemma bulk_pre_left:
  assumes "bulk_pre S smt p (Node l r) (Node l' r') kvs R b bv"
    and "batch_ok n (p @ [False]) (take i kvs)" "tmap l' = tmap l ++ kvmap (take i kvs)"
  shows "bulk_pre S smt (p @ [False]) l l' (take i kvs)
    (insert (tdata (smt_th smt) (Node l r)) (R \<union> node_set (smt_th smt) r)) (Suc (b + tsize r')) (Suc (bv + tsize r'))"
proof -
  let ?th = "smt_th smt" and ?D = "tdata (smt_th smt) (Node l r)"
  note pre = bulk_preD [OF assms(1)]
  have pS: "preimages ?th l \<subseteq> S" "preimages ?th r \<subseteq> S" "preimages ?th l' \<subseteq> S" "?D \<in> S" using pre(16,17) by auto
  have wfs: "wf_tree n (p @ [False]) l" "wf_tree n (p @ [True]) r" "wf_tree n (p @ [False]) l'" using pre(3,4) by auto
  have "?D \<notin> node_set ?th l" using node_set_root_notin [OF pre(1,2,14,3,16)] by auto
  moreover have "node_set ?th l \<inter> node_set ?th r = {}"
    using node_set_children_disjoint [OF pre(1,2,14), of p False l r] wfs pS by auto
  moreover have "node_set ?th r \<subseteq> S" using pS node_set_preimages by blast
  moreover have "cas ?th (absn (smt_nodes smt)) (insert ?D (R \<union> node_set ?th r) \<union> node_set ?th l)"
    using pre(11) by (simp add: Un_assoc Un_commute Un_left_commute)
  moreover have "roomn (Suc (b + tsize r') + tsize l') (smt_nodes smt)" "roomv (Suc (bv + tsize r') + tsize l') (smt_values smt)"
    using pre(9,10) by (simp_all add: add.assoc add.commute add.left_commute)
  moreover have "\<forall>kv\<in>set (take i kvs). okvv (kv_value kv)" using pre(7) by (auto dest: in_set_takeD)
  moreover have "\<forall>k v. tmap l k = Some v \<longrightarrow> okvv v" using pre(8) tmap_child_Some [OF pre(3)] by blast
  moreover have "tmap l \<subseteq>\<^sub>m absv (smt_values smt)" using subs_le [OF pre(3)] pre(13) map_le_trans by blast
  ultimately show ?thesis
    using pre(1,2,12,14,15) wfs assms(2,3) pS unfolding bulk_pre_def by auto
qed

lemma bulk_pre_right:
  assumes "bulk_pre S smt p (Node l r) (Node l' r') kvs R b bv"
    and "batch_ok n (p @ [True]) (drop i kvs)" "tmap r' = tmap r ++ kvmap (drop i kvs)"
      "\<forall>kv\<in>set (take i kvs). \<not> bits (kv_path kv) ! length p"
    and s: "roomn (Suc (b + tsize r')) s" "roomv (Suc (bv + tsize r')) w"
      "cas (smt_th smt) (absn s)
        (insert (tdata (smt_th smt) (Node l r)) (R \<union> node_set (smt_th smt) r) \<union> node_set (smt_th smt) l')"
      "absv w = absv (smt_values smt) ++ kvmap (take i kvs)"
  shows "bulk_pre S (smt\<lparr>smt_nodes := s, smt_values := w\<rparr>) (p @ [True]) r r' (drop i kvs)
    (insert (tdata (smt_th smt) (Node l r)) (R \<union> node_set (smt_th smt) l')) (Suc b) (Suc bv)"
proof -
  let ?th = "smt_th smt" and ?D = "tdata (smt_th smt) (Node l r)"
  note pre = bulk_preD [OF assms(1)]
  have pS: "preimages ?th l' \<subseteq> S" "preimages ?th r \<subseteq> S" "preimages ?th r' \<subseteq> S" "?D \<in> S" using pre(16,17) by auto
  have wfs: "wf_tree n (p @ [False]) l'" "wf_tree n (p @ [True]) r" "wf_tree n (p @ [True]) r'" using pre(3,4) by auto
  have "?D \<notin> node_set ?th r" using node_set_root_notin [OF pre(1,2,14,3,16)] by auto
  moreover have "node_set ?th l' \<inter> node_set ?th r = {}"
    using node_set_children_disjoint [OF pre(1,2,14), of p False l' r] wfs pS by auto
  moreover have "node_set ?th l' \<subseteq> S" using pS node_set_preimages by blast
  moreover have "cas ?th (absn s) (insert ?D (R \<union> node_set ?th l') \<union> node_set ?th r)"
    using s(3) by (simp add: Un_assoc Un_commute Un_left_commute)
  moreover have "\<forall>kv\<in>set (drop i kvs). okvv (kv_value kv)" using pre(7) by (auto dest: in_set_dropD)
  moreover have "\<forall>k v. tmap r k = Some v \<longrightarrow> okvv v" using pre(8) tmap_child_Some [OF pre(3)] by blast
  moreover have "tmap r \<subseteq>\<^sub>m absv w"
    using right_le [OF wfs(2) _ assms(4)] subs_le(2) [OF pre(3)] pre(13) map_le_trans s(4) by metis
  ultimately show ?thesis
    using pre(1,2,12,14,15) wfs assms(2,3) s(1,2) pS unfolding bulk_pre_def by auto
qed

text \<open>An inner node, from what the calls on its two children do.\<close>

lemma bulkApply_Node:
  assumes pre: "bulk_pre S smt p (Node l r) (Node l' r') kvs R b bv" and kvs: "kvs \<noteq> []"
    and i: "partitionByBit kvs (length p) = Inr i"
      "\<forall>m'. (m' ++ kvmap (take i kvs)) ++ kvmap (drop i kvs) = m' ++ kvmap kvs"
    and l: "bulkApplyAtRoot nI vI sc (thash (smt_th smt) l) (length p + 1) (take i kvs) smt =
        (Inr (thash (smt_th smt) l'), smt\<lparr>smt_nodes := s, smt_values := w\<rparr>)"
      "absv w = absv (smt_values smt) ++ kvmap (take i kvs)"
    and r: "built (smt\<lparr>smt_nodes := s, smt_values := w\<rparr>) (Suc b) (Suc bv)
        (insert (tdata (smt_th smt) (Node l r)) (R \<union> node_set (smt_th smt) l')) (kvmap (drop i kvs)) r'
        (bulkApplyAtRoot nI vI sc (thash (smt_th smt) r) (length p + 1) (drop i kvs)
          (smt\<lparr>smt_nodes := s, smt_values := w\<rparr>))"
  shows "built smt b bv R (kvmap kvs) (Node l' r')
    (bulkApplyAtRoot nI vI sc (thash (smt_th smt) (Node l r)) (length p) kvs smt)"
proof -
  let ?th = "smt_th smt" and ?D = "tdata (smt_th smt) (Node l r)"
  note P = bulk_preD [OF pre]
  obtain s2 w2 where r: "bulkApplyAtRoot nI vI sc (thash ?th r) (length p + 1) (drop i kvs) (smt\<lparr>smt_nodes := s, smt_values := w\<rparr>) =
      (Inr (thash ?th r'), smt\<lparr>smt_nodes := s2, smt_values := w2\<rparr>)" "roomn (Suc b) s2"
    "cas ?th (absn s2) (insert ?D (R \<union> node_set ?th l' \<union> node_set ?th r'))" "roomv (Suc bv) w2"
    "absv w2 = (absv (smt_values smt) ++ kvmap (take i kvs)) ++ kvmap (drop i kvs)"
    using r l(2) by auto
  let ?smt2 = "smt\<lparr>smt_nodes := s2, smt_values := w2\<rparr>"
  have D: "?D \<in> S" "?D \<notin> R" using P(12,16) by auto
  have get: "nodes_Get nI smt (thash ?th (Node l r)) = Inr ?D" "thash ?th (Node l r) \<noteq> placeholder ?th"
    using nodes_Get_Some [OF P(9), of "H ?th ?D" ?D] cas_get [OF P(11), of ?D]
      P(1,2) collision_free_placeholder [OF P(14) D(1)] by auto
  have fin: "cas ?th (absn (smt_nodes ?smt2)) (insert ?D (R \<union> node_set ?th l' \<union> node_set ?th r'))"
    "roomn (Suc b) (smt_nodes ?smt2)" using r(2,3) by simp_all
  obtain s3 where s3: "(if thash ?th l' = thash ?th l \<and> thash ?th r' = thash ?th r
      then (Inr (thash ?th (Node l r)), ?smt2)
      else bindS (nodes_Delete nI (thash ?th (Node l r))) (\<lambda>_.
        bindS (nodes_Set nI (H ?th (node_data (thash ?th l') (thash ?th r'))) (node_data (thash ?th l') (thash ?th r')))
          (\<lambda>_. returnS (H ?th (node_data (thash ?th l') (thash ?th r'))))) ?smt2) =
      (Inr (thash ?th (Node l' r')), ?smt2\<lparr>smt_nodes := s3\<rparr>)" "roomn b s3" "cas ?th (absn s3) (R \<union> node_set ?th (Node l' r'))"
    using bulk_finish [OF P(1-4) fin(1) D(2) fin(2) P(14-17)] by blast
  have "bulkApplyAtRoot nI vI sc (thash ?th (Node l r)) (length p) kvs smt =
      (Inr (thash ?th (Node l' r')), smt\<lparr>smt_nodes := s3, smt_values := w2\<rparr>)"
    using bulk_inner [OF P(1) kvs get(2) get(1) [unfolded tdata.simps] _ i(1) l(1) r(1)] s3(1) P(1)
    by (simp add: smt_upd_swap del: thash.simps)
  then show ?thesis using s3(2,3) r(5) i(2) V.room_mono [OF r(4), of bv] by auto
qed

lemma bulkApply_ok:
  assumes "bulk_pre S smt p t t' kvs R b bv" "length p = d"
  shows "built smt b bv R (kvmap kvs) t' (bulkApplyAtRoot nI vI sc (thash (smt_th smt) t) d kvs smt)"
  using assms
proof (induction t arbitrary: p d kvs smt R b bv t')
  case Empty
  note pre = bulk_preD [OF Empty.prems(1)]
  show ?case
    using buildSubtree_ok [OF pre(1,2,4,6) _ Empty.prems(2) pre(7,9,10) _ pre(14,15,17), of sc] pre(5,11)
    by (simp add: bulk_placeholder)
next
  case (Leaf k v)
  then show ?case
    using bulkApply_nil [OF Leaf.prems(1)] bulkApply_Leaf [OF Leaf.prems(1)] by (cases "kvs = []") blast+
next
  case (Node l r)
  note pre = bulk_preD [OF Node.prems(1)] and d = Node.prems(2)
  show ?case
  proof (cases "kvs = []")
    case True
    then show ?thesis using bulkApply_nil [OF Node.prems(1)] by blast
  next
    case False
    obtain l' r' i where t': "t' = Node l' r'" and i: "partitionByBit kvs (length p) = Inr i"
        "batch_ok n (p @ [False]) (take i kvs)" "batch_ok n (p @ [True]) (drop i kvs)"
        "tmap l' = tmap l ++ kvmap (take i kvs)" "tmap r' = tmap r ++ kvmap (drop i kvs)"
        "\<forall>m'. (m' ++ kvmap (take i kvs)) ++ kvmap (drop i kvs) = m' ++ kvmap kvs"
        "\<forall>kv\<in>set (take i kvs). \<not> bits (kv_path kv) ! length p"
      by (rule bulk_split [OF pre(3-6)])
    note P = Node.prems(1) [unfolded t']
    obtain s w where l: "bulkApplyAtRoot nI vI sc (thash (smt_th smt) l) (length p + 1) (take i kvs) smt =
        (Inr (thash (smt_th smt) l'), smt\<lparr>smt_nodes := s, smt_values := w\<rparr>)"
      "roomn (Suc (b + tsize r')) s" "roomv (Suc (bv + tsize r')) w"
      "cas (smt_th smt) (absn s)
        (insert (tdata (smt_th smt) (Node l r)) (R \<union> node_set (smt_th smt) r) \<union> node_set (smt_th smt) l')"
      "absv w = absv (smt_values smt) ++ kvmap (take i kvs)"
      using Node.IH(1) [OF bulk_pre_left [OF P i(2,4)], of "length p + 1"] by auto
    have "built (smt\<lparr>smt_nodes := s, smt_values := w\<rparr>) (Suc b) (Suc bv)
        (insert (tdata (smt_th smt) (Node l r)) (R \<union> node_set (smt_th smt) l')) (kvmap (drop i kvs)) r'
        (bulkApplyAtRoot nI vI sc (thash (smt_th smt) r) (length p + 1) (drop i kvs)
          (smt\<lparr>smt_nodes := s, smt_values := w\<rparr>))"
      using Node.IH(2) [OF bulk_pre_right [OF P i(3,5,7) l(2-5)], of "length p + 1"] by simp
    then show ?thesis using bulkApply_Node [OF P False i(1,6) l(1,5)] t' d by blast
  qed
qed

end

section \<open>BulkUpdate\<close>

text \<open>The order in which a batch is applied: first its deletions, then its insertions.\<close>

definition batch_dels :: "history \<Rightarrow> history" where
  "batch_dels ops = filter (\<lambda>(k, v). v = []) ops"

definition batch_ins :: "history \<Rightarrow> history" where
  "batch_ins ops = filter (\<lambda>(k, v). v \<noteq> []) ops"

lemma bulk_deletes_Updates: "bulk_deletes nI vI ops = Updates nI vI (batch_dels ops)"
  by (induction nI vI ops rule: bulk_deletes.induct)
    (simp_all add: batch_dels_def defaultValue_def Delete_def)

lemma mupdates_batch:
  assumes "wf_th th" "\<forall>(k, v)\<in>set ops. v \<noteq> []"
  shows "mupdates th ops m = m ++ kvmap (rev (bulk_kvs th ops))"
  using assms(2)
proof (induction ops arbitrary: m)
  case (Cons op ops)
  obtain k v where op: "op = (k, v)" by (cases op)
  have kv: "bulk_kvs th (op # ops) = \<lparr>kv_path = H th k, kv_value = v\<rparr> # bulk_kvs th ops"
    using Cons.prems assms(1) by (simp add: op bulk_kvs_def defaultValue_def)
  have "m(H th k \<mapsto> v) ++ x = m ++ ([H th k \<mapsto> v] ++ x)" for x by simp
  then show ?case using Cons kv by (simp add: op mupdate_def kvmap_append del: map_add_assoc)
qed (simp add: bulk_kvs_def)

lemma bulk_kvs_ins: "bulk_kvs th ops = bulk_kvs th (batch_ins ops)"
  by (simp add: bulk_kvs_def batch_ins_def defaultValue_def case_prod_beta')

lemma bulk_kvs_ok:
  "wf_th th \<Longrightarrow> kv \<in> set (bulk_kvs th ops) \<Longrightarrow>
   length (kv_path kv) = pathSize th \<and> kv_value kv \<noteq> [] \<and> kv_value kv \<in> snd ` set ops"
  by (auto simp: bulk_kvs_def defaultValue_def image_iff) (metis snd_conv)

lemma mupdates_dels_le: "\<forall>(k, v)\<in>set ops. v = [] \<Longrightarrow> mupdates th ops m k = Some v \<Longrightarrow> m k = Some v"
  by (induction th ops m rule: mupdates.induct) (auto simp: mupdate_def split: if_splits)

lemma bulk_kvs_empty: "bulk_kvs th ops = [] \<longleftrightarrow> batch_ins ops = []"
  by (simp add: bulk_kvs_def batch_ins_def defaultValue_def)

context smt_stores
begin

lemma bulk_walk_ok:
  assumes rep: "rep smt t" and n: "pathSize (smt_th smt) = n"
    and kvs: "batch_ok n [] kvs" "\<forall>kv\<in>set kvs. okvv (kv_value kv)" "\<forall>k v. tmap t k = Some v \<longrightarrow> okvv v"
    and t': "wf_tree n [] t'" "tmap t' = tmap t ++ kvmap kvs"
    and room: "roomn (b + tsize t') (smt_nodes smt)" "roomv (bv + tsize t') (smt_values smt)"
    and cf: "collision_free (smt_th smt) S" "preimages (smt_th smt) t \<subseteq> S" "preimages (smt_th smt) t' \<subseteq> S"
  shows "\<exists>smt'. bindS (bulkApplyAtRoot nI vI sc (Root smt) 0 kvs) (\<lambda>newRoot smt. (Inr newRoot, SetRoot newRoot smt)) smt =
      (Inr (smt_root smt'), smt') \<and> rep smt' t' \<and> smt_th smt' = smt_th smt \<and>
    roomn b (smt_nodes smt') \<and> roomv bv (smt_values smt')"
proof -
  note r = representsD [OF rep]
  have pre: "bulk_pre S smt [] t t' kvs {} b bv"
    using r n kvs t' room cf unfolding bulk_pre_def by simp
  obtain s w where b: "bulkApplyAtRoot nI vI sc (thash (smt_th smt) t) 0 kvs smt =
      (Inr (thash (smt_th smt) t'), smt\<lparr>smt_nodes := s, smt_values := w\<rparr>)" "roomn b s"
    "cas (smt_th smt) (absn s) ({} \<union> node_set (smt_th smt) t')" "roomv bv w"
    "absv w = absv (smt_values smt) ++ kvmap kvs"
    using bulkApply_ok [OF pre, of 0 sc] by auto
  let ?smt = "smt\<lparr>smt_nodes := s, smt_values := w, smt_root := thash (smt_th smt) t'\<rparr>"
  have "rep ?smt t'" using b r n t' by (simp add: represents_def)
  moreover have "bindS (bulkApplyAtRoot nI vI sc (Root smt) 0 kvs) (\<lambda>newRoot smt. (Inr newRoot, SetRoot newRoot smt)) smt =
      (Inr (smt_root ?smt), ?smt)"
    using b(1) r(3) by (simp add: Root_def SetRoot_def)
  ultimately show ?thesis using b by (intro exI [of _ ?smt]) simp
qed

lemma BulkUpdate_ok:
  assumes rep: "rep smt t" and n: "pathSize (smt_th smt) = n" and len: "length keys = length vals"
    and v: "\<forall>(k, v)\<in>set (zip keys vals). v \<noteq> [] \<longrightarrow> okvv v" "\<forall>k v. tmap t k = Some v \<longrightarrow> okvv v"
  defines "th \<equiv> smt_th smt" and "ops \<equiv> zip keys vals"
  defines "t1 \<equiv> tupdates th (batch_dels ops) t"
  defines "t2 \<equiv> tupdates th (batch_ins ops) t1"
  assumes room: "roomn (b + tsize t2 + length (batch_dels ops) * (8 * n + 2)) (smt_nodes smt)"
      "roomv (bv + tsize t2 + length (batch_dels ops)) (smt_values smt)"
    and cf: "collision_free th S" "hist_preimages th (batch_dels ops) t \<subseteq> S" "preimages th t2 \<subseteq> S"
  shows "\<exists>smt'. BulkUpdate nI vI keys vals smt = (Inr (smt_root smt'), smt') \<and> rep smt' t2 \<and>
    smt_th smt' = smt_th smt \<and> roomn b (smt_nodes smt') \<and> roomv bv (smt_values smt')"
proof (cases "keys = []")
  case True
  then have "t2 = t" by (simp add: t2_def t1_def ops_def batch_dels_def batch_ins_def)
  then show ?thesis
    using True len rep N.room_mono [OF room(1), of b] V.room_mono [OF room(2), of bv]
    by (intro exI [of _ smt]) (simp add: BulkUpdate_def Root_def)
next
  case False
  note r = representsD [OF rep, folded th_def]
  let ?kvs = "bulk_kvs th ops" and ?k' = "dedup_loop (sort_key kv_path (bulk_kvs th ops)) 0 0"
  have dels: "\<forall>(k, v)\<in>set (batch_dels ops). v \<noteq> [] \<longrightarrow> okvv v" "\<forall>(k, v)\<in>set (batch_dels ops). v = []"
    by (auto simp: batch_dels_def)
  obtain smt1 where d: "Updates nI vI (batch_dels ops) smt = (Inr (), smt1)" "rep smt1 t1"
    "smt_th smt1 = th" "roomn (b + tsize t2) (smt_nodes smt1)" "roomv (bv + tsize t2) (smt_values smt1)"
    using Updates_ok [OF rep n room(1,2) dels(1)] collision_free_subset [OF cf(1,2)]
    by (auto simp: t1_def th_def)
  have t1: "wf_tree (pathSize th) [] t1" "tmap t1 = mupdates th (batch_dels ops) (tmap t)"
    using tupdates_correct [OF r(1,2)] by (simp_all add: t1_def)
  have t2: "wf_tree (pathSize th) [] t2" "tmap t2 = tmap t1 ++ kvmap (rev ?kvs)"
    using tupdates_correct [OF r(1) t1(1), of "batch_ins ops"] mupdates_batch [OF r(1), of "batch_ins ops"]
      bulk_kvs_ins [of th ops] by (auto simp: t2_def batch_ins_def)
  have start: "BulkUpdate nI vI keys vals smt =
      (if ?kvs = [] then (Inr (Root smt1), smt1)
       else bindS (bulkApplyAtRoot nI vI (fst (getUpdateScratch [] 0)) (Root smt1) 0 ?k')
         (\<lambda>newRoot smt. (Inr newRoot, SetRoot newRoot smt)) smt1)"
    using False len d(1,3) by (auto simp: BulkUpdate_def ops_def bulk_deletes_Updates Let_def)
  show ?thesis
  proof (cases "?kvs = []")
    case True
    then have "t2 = t1" by (simp add: t2_def bulk_kvs_empty)
    then show ?thesis
      using True start d N.room_mono [OF d(4), of b] V.room_mono [OF d(5), of bv]
      by (intro exI [of _ smt1]) (simp add: Root_def th_def)
  next
    case False
    have "\<forall>kv\<in>set ?kvs. length (kv_path kv) = n \<and> kv_value kv \<noteq> []"
      using bulk_kvs_ok [OF r(1)] n by (auto simp: th_def)
    note prep = bulk_prepare [OF this]
    have vk: "\<forall>kv\<in>set ?k'. okvv (kv_value kv)"
      using prep(3) bulk_kvs_ok [OF r(1)] v(1) by (fastforce simp: ops_def)
    have vt: "\<forall>k v. tmap t1 k = Some v \<longrightarrow> okvv v"
      using mupdates_dels_le [OF dels(2)] v(2) t1(2) by metis
    have "preimages th t1 \<subseteq> S" using hist_preimages_end [of th "batch_dels ops" t] cf(2) by (simp add: t1_def)
    then show ?thesis
      using bulk_walk_ok [OF d(2) _ prep(1) vk vt, of t2 b bv S "fst (getUpdateScratch [] 0)"]
        False start d(3-5) t2 prep(2) n cf(1,3) by (simp add: th_def)
  qed
qed

end

end
