(* ===== verification/BulkProps.thy ===== *)
theory BulkProps
  imports BulkCorrect SMTProps
begin

text \<open>
  The properties of BulkUpdate: it is equivalent to iterating Update over the deletions and then
  the insertions of the batch, hence to plain iteration for a batch without deletions; the
  batches on which the order matters; the binary search of a partition, sorting and de-duplication.
\<close>

lemma bulk_equiv:
  fixes smt :: "(SimpleMap, SimpleMap) SparseMerkleTree"
  assumes rep: "represents sm_m sm_m smt t" and len: "length keys = length vals"
    and cf: "collision_free (smt_th smt)
      (hist_preimages (smt_th smt) (batch_dels (zip keys vals) @ batch_ins (zip keys vals)) t)"
  shows "\<exists>smt'. Updates SimpleMap_store SimpleMap_store (batch_dels (zip keys vals) @ batch_ins (zip keys vals)) smt =
      (Inr (), smt') \<and>
    BulkUpdate SimpleMap_store SimpleMap_store keys vals smt = (Inr (Root smt'), smt')"
proof -
  let ?th = "smt_th smt" and ?ops = "zip keys vals"
  let ?t = "tupdates ?th (batch_ins ?ops) (tupdates ?th (batch_dels ?ops) t)"
  have app: "tupdates ?th (xs @ ys) u = tupdates ?th ys (tupdates ?th xs u)" for xs ys u
    by (induction xs arbitrary: u) auto
  obtain smt1 where smt1: "Updates SimpleMap_store SimpleMap_store (batch_dels ?ops @ batch_ins ?ops) smt = (Inr (), smt1)"
    "represents sm_m sm_m smt1 ?t" "smt_th smt1 = ?th"
    using smts.Updates_ok [OF rep refl, where ops = "batch_dels ?ops @ batch_ins ?ops"] cf by (auto simp: app)
  have S: "hist_preimages ?th (batch_dels ?ops) t \<subseteq> hist_preimages ?th (batch_dels ?ops @ batch_ins ?ops) t"
    "preimages ?th ?t \<subseteq> hist_preimages ?th (batch_dels ?ops @ batch_ins ?ops) t"
    using hist_preimages_append [of ?th "batch_dels ?ops" "batch_ins ?ops" t]
      hist_preimages_end [of ?th "batch_ins ?ops" "tupdates ?th (batch_dels ?ops) t"] by auto
  obtain smt2 where smt2: "BulkUpdate SimpleMap_store SimpleMap_store keys vals smt = (Inr (smt_root smt2), smt2)"
    "represents sm_m sm_m smt2 ?t" "smt_th smt2 = ?th"
    using smts.BulkUpdate_ok [OF rep refl len _ _ _ _ cf S] by auto
  have "smt1 = smt2" using represents_unique [OF smt1(2) smt2(2)] smt1(3) smt2(3) by simp
  then show ?thesis using smt1(1) smt2(1) by (simp add: Root_def)
qed

section \<open>The order of a batch\<close>

text \<open>
  When the order matters: \<open>writes_survive\<close> says that the last operation on every key that the batch
  writes is a write. Exactly then the batch means the same in its own order and with the deletions first.
\<close>

definition writes_survive :: "treeHasher \<Rightarrow> history \<Rightarrow> bool" where
  "writes_survive th ops \<longleftrightarrow> (\<forall>(key, value) \<in> set ops. value \<noteq> [] \<longrightarrow> final_map th ops (H th key) \<noteq> None)"

abbreviation at_path :: "treeHasher \<Rightarrow> bytes \<Rightarrow> history \<Rightarrow> history" where
  "at_path th p \<equiv> filter (\<lambda>(key, value). H th key = p)"

lemma mupdates_at_path:
  "mupdates th ops m p =
    (if at_path th p ops = [] then m p
     else let v = snd (last (at_path th p ops)) in if v = [] then None else Some v)"
proof (induction ops rule: rev_induct)
  case (snoc op ops)
  then show ?case by (cases op) (auto simp: mupdates_append mupdate_def Let_def)
qed simp

lemma batch_ins_simps:
  "batch_ins [] = []" "batch_ins (xs @ [(key, value)]) = (if value = [] then batch_ins xs else batch_ins xs @ [(key, value)])"
  by (simp_all add: batch_ins_def)

lemma mupdates_batch_at_path:
  "mupdates th (batch_dels ops @ batch_ins ops) m p =
    (let xs = at_path th p ops in
     if xs = [] then m p else if batch_ins xs = [] then None else Some (snd (last (batch_ins xs))))"
proof -
  let ?xs = "at_path th p ops"
  have parts: "at_path th p (batch_dels ops) = batch_dels ?xs" "at_path th p (batch_ins ops) = batch_ins ?xs"
    by (auto simp: batch_dels_def batch_ins_def conj_commute intro!: filter_cong)
  have dels: "snd (last (batch_dels ?xs)) = []" if "batch_dels ?xs \<noteq> []"
    using last_in_set [OF that] by (auto simp: batch_dels_def)
  have ins: "snd (last (batch_ins ?xs)) \<noteq> []" if "batch_ins ?xs \<noteq> []"
    using last_in_set [OF that] by (auto simp: batch_ins_def)
  have split: "?xs = [] \<longleftrightarrow> batch_dels ?xs = [] \<and> batch_ins ?xs = []"
    by (auto simp: batch_dels_def batch_ins_def filter_empty_conv)
  show ?thesis
    using dels ins split by (auto simp: mupdates_append mupdates_at_path [of th "batch_ins ops"]
        mupdates_at_path [of th "batch_dels ops"] parts Let_def)
qed

lemma batch_order:
  "mupdates th (batch_dels ops @ batch_ins ops) m = mupdates th ops m \<longleftrightarrow> writes_survive th ops"
proof -
  let ?xs = "\<lambda>p. at_path th p ops"
  have step: "mupdates th (batch_dels ops @ batch_ins ops) m p = mupdates th ops m p \<longleftrightarrow>
      (batch_ins (?xs p) \<noteq> [] \<longrightarrow> snd (last (?xs p)) \<noteq> [])" for p
  proof (cases "?xs p = []")
    case False
    then show ?thesis
      by (cases "?xs p" rule: rev_cases)
        (auto simp: mupdates_batch_at_path mupdates_at_path [of th ops] Let_def batch_ins_simps split: if_splits)
  qed (simp add: mupdates_batch_at_path mupdates_at_path [of th ops] batch_ins_simps)
  have written: "batch_ins (?xs p) \<noteq> [] \<longleftrightarrow> (\<exists>(key, value) \<in> set ops. value \<noteq> [] \<and> H th key = p)" for p
    by (auto simp: batch_ins_def filter_empty_conv)
  have "snd (last (?xs p)) \<noteq> [] \<longleftrightarrow> final_map th ops p \<noteq> None" if "batch_ins (?xs p) \<noteq> []" for p
    using that by (cases "?xs p = []") (auto simp: mupdates_at_path [of th ops] Let_def batch_ins_simps)
  then show ?thesis
    unfolding fun_eq_iff step writes_survive_def using written by fastforce
qed


section \<open>Properties\<close>

text \<open>
  C13. Equivalence with the reference: BulkUpdate on a batch of keys and values ends in exactly the
  tree state (root, node store, value store) that iterating Update over the deletions of the batch
  and then over its insertions ends in, and it returns the root of that state.
\<close>

theorem BulkUpdate_equiv:
  fixes smt :: "(SimpleMap, SimpleMap) SparseMerkleTree"
  assumes "represents sm_m sm_m smt t" and "length keys = length vals"
    and "collision_free (smt_th smt)
      (hist_preimages (smt_th smt) (batch_dels (zip keys vals) @ batch_ins (zip keys vals)) t)"
  shows "\<exists>smt'. Updates SimpleMap_store SimpleMap_store (batch_dels (zip keys vals) @ batch_ins (zip keys vals)) smt =
      (Inr (), smt') \<and>
    BulkUpdate SimpleMap_store SimpleMap_store keys vals smt = (Inr (Root smt'), smt')"
  by (rule bulk_equiv [OF assms])

lemma toy_smt_represents: "represents sm_m sm_m toy_smt Empty" "smt_th toy_smt = toy_th"
  by (rule New_represents; simp add: NewSimpleMap_def)+

theorem BulkUpdate_equiv_witness:
  "\<exists>smt'. Updates SimpleMap_store SimpleMap_store
      [([1], []), ([100], [30]), ([70], [20]), ([70], [60])] toy_smt = (Inr (), smt') \<and>
    BulkUpdate SimpleMap_store SimpleMap_store [[100], [1], [70], [70]] [[30], [], [20], [60]] toy_smt =
      (Inr (Root smt'), smt')"
proof -
  let ?ops = "[([100], [30]), ([1], []), ([70], [20]), ([70], [60])] :: history"
  have ops: "zip [[100], [1], [70], [70]] [[30], [], [20], [60]] = ?ops"
    "batch_dels ?ops @ batch_ins ?ops = [([1], []), ([100], [30]), ([70], [20]), ([70], [60])]"
    by (simp_all add: batch_dels_def batch_ins_def)
  have cf: "collision_free toy_th (hist_preimages toy_th [([1], []), ([100], [30]), ([70], [20]), ([70], [60])] Empty)"
    by code_simp
  show ?thesis
    using BulkUpdate_equiv [OF toy_smt_represents(1), of "[[100], [1], [70], [70]]" "[[30], [], [20], [60]]"] cf
    unfolding ops toy_smt_represents(2) by simp
qed

text \<open>
  C14. A batch without deletions has exactly the effect of calling Update for its pairs in order; when
  a path occurs several times the last pair wins.
\<close>

theorem BulkUpdate_inserts:
  fixes smt :: "(SimpleMap, SimpleMap) SparseMerkleTree"
  assumes "represents sm_m sm_m smt t" and "length keys = length vals" and "[] \<notin> set vals"
    and "collision_free (smt_th smt) (hist_preimages (smt_th smt) (zip keys vals) t)"
  shows "\<exists>smt'. Updates SimpleMap_store SimpleMap_store (zip keys vals) smt = (Inr (), smt') \<and>
    BulkUpdate SimpleMap_store SimpleMap_store keys vals smt = (Inr (Root smt'), smt')"
proof -
  have "v \<noteq> []" if "(k, v) \<in> set (zip keys vals)" for k v
    using that assms(3) by (auto dest: set_zip_rightD)
  then have "batch_dels (zip keys vals) = []" "batch_ins (zip keys vals) = zip keys vals"
    by (auto simp: batch_dels_def batch_ins_def filter_empty_conv filter_id_conv)
  then show ?thesis using bulk_equiv [OF assms(1,2)] assms(4) by simp
qed

theorem BulkUpdate_inserts_witness:
  "\<exists>smt'. Updates SimpleMap_store SimpleMap_store [([100], [30]), ([1], [10])] toy_smt = (Inr (), smt') \<and>
    BulkUpdate SimpleMap_store SimpleMap_store [[100], [1]] [[30], [10]] toy_smt = (Inr (Root smt'), smt')"
proof -
  have "collision_free toy_th (hist_preimages toy_th [([100], [30]), ([1], [10])] Empty)" by code_simp
  then show ?thesis
    using BulkUpdate_inserts [OF toy_smt_represents(1), of "[[100], [1]]" "[[30], [10]]"]
    unfolding toy_smt_represents(2) by simp
qed

text \<open>
  C15. Deletions run before insertions: the batch that first writes a key and then deletes it leaves
  the key with its value, whereas the same calls of Update in order leave it deleted. The comment
  of BulkUpdate promises that the last pair wins as in the iteration.
\<close>

theorem BulkUpdate_write_then_delete:
  fixes smt :: "(SimpleMap, SimpleMap) SparseMerkleTree"
  assumes "represents sm_m sm_m smt t" and "v \<noteq> []"
    and "collision_free (smt_th smt) (hist_preimages (smt_th smt) [(key, []), (key, v)] t)"
    and "collision_free (smt_th smt) (hist_preimages (smt_th smt) [(key, v), (key, [])] t)"
  shows "Get SimpleMap_store (snd (BulkUpdate SimpleMap_store SimpleMap_store [key, key] [v, []] smt)) key = Inr v \<and>
    Get SimpleMap_store (snd (Updates SimpleMap_store SimpleMap_store [(key, v), (key, [])] smt)) key = Inr []"
proof -
  let ?th = "smt_th smt" and ?U = "Updates SimpleMap_store SimpleMap_store"
  note r = representsD [OF assms(1)]
  have get: "Get SimpleMap_store smt' key = Inr (case mupdates ?th ops (tmap t) (H ?th key) of None \<Rightarrow> [] | Some v \<Rightarrow> v)"
    if "?U ops smt = (Inr (), smt')" "collision_free ?th (hist_preimages ?th ops t)" for ops smt'
  proof -
    have "represents sm_m sm_m smt' (tupdates ?th ops t)" "smt_th smt' = ?th"
      using smts.Updates_ok [OF assms(1) refl, where ops = ops] that by auto
    then show ?thesis
      using smts.Get_ok [where smt = smt' and t = "tupdates ?th ops t" and key = key]
        tupdates_correct [OF r(1,2), of ops] collision_free_subset [OF that(2) hist_preimages_end] by simp
  qed
  have "batch_dels [(key, v), (key, [])] @ batch_ins [(key, v), (key, [])] = [(key, []), (key, v)]"
    using assms(2) by (simp add: batch_dels_def batch_ins_def)
  then obtain smt1 where "?U [(key, []), (key, v)] smt = (Inr (), smt1)"
    "BulkUpdate SimpleMap_store SimpleMap_store [key, key] [v, []] smt = (Inr (Root smt1), smt1)"
    using bulk_equiv [OF assms(1), of "[key, key]" "[v, []]"] assms(3) by auto
  then have "Get SimpleMap_store (snd (BulkUpdate SimpleMap_store SimpleMap_store [key, key] [v, []] smt)) key = Inr v"
    using get [OF _ assms(3)] assms(2) by (simp add: mupdate_def)
  moreover obtain smt2 where "?U [(key, v), (key, [])] smt = (Inr (), smt2)"
    using smts.Updates_ok [OF assms(1) refl, where ops = "[(key, v), (key, [])]"] assms(4) by auto
  then have "Get SimpleMap_store (snd (?U [(key, v), (key, [])] smt)) key = Inr []"
    using get [OF _ assms(4)] assms(2) by (simp add: mupdate_def)
  ultimately show ?thesis by simp
qed

theorem BulkUpdate_write_then_delete_witness:
  "Get SimpleMap_store (snd (BulkUpdate SimpleMap_store SimpleMap_store [[1], [1]] [[10], []] toy_smt)) [1] = Inr [10] \<and>
   Get SimpleMap_store (snd (Updates SimpleMap_store SimpleMap_store [([1], [10]), ([1], [])] toy_smt)) [1] = Inr []"
proof -
  have "collision_free toy_th (hist_preimages toy_th [([1], []), ([1], [10])] Empty)"
    "collision_free toy_th (hist_preimages toy_th [([1], [10]), ([1], [])] Empty)" by code_simp+
  then show ?thesis
    using BulkUpdate_write_then_delete [OF toy_smt_represents(1), of "[10]" "[1]"]
    unfolding toy_smt_represents(2) by simp
qed

text \<open>
  C16. partitionByBit on a batch that is strictly sorted by path, with full-length paths that share
  the first \<open>length p\<close> bits, never panics and returns the index where the next bit turns from 0 to 1.
\<close>

theorem partitionByBit_boundary:
  assumes "batch_ok n p kvs" "length p < 8 * n"
  shows "\<exists>s. partitionByBit kvs (length p) = Inr s \<and>
    take s kvs = filter (\<lambda>kv. \<not> bit_at (kv_path kv) (length p)) kvs \<and>
    drop s kvs = filter (\<lambda>kv. bit_at (kv_path kv) (length p)) kvs"
proof -
  obtain s where s: "partitionByBit kvs (length p) = Inr s"
    "\<forall>kv\<in>set (take s kvs). \<not> bits (kv_path kv) ! length p" "\<forall>kv\<in>set (drop s kvs). bits (kv_path kv) ! length p"
    using partition_correct [OF assms(1) refl assms(2)] by blast
  have bit: "bits (kv_path kv) ! length p = bit_at (kv_path kv) (length p)" if "kv \<in> set kvs" for kv
    using that assms by (simp add: batch_ok_def)
  have lo: "\<forall>kv\<in>set (take s kvs). \<not> bit_at (kv_path kv) (length p)"
    and hi: "\<forall>kv\<in>set (drop s kvs). bit_at (kv_path kv) (length p)"
    using s(2,3) bit by (auto dest: in_set_takeD in_set_dropD)
  have split: "filter P kvs = filter P (take s kvs) @ filter P (drop s kvs)" for P
    by (metis append_take_drop_id filter_append)
  have "take s kvs = filter (\<lambda>kv. \<not> bit_at (kv_path kv) (length p)) kvs"
    unfolding split using lo hi by (simp add: filter_False)
  moreover have "drop s kvs = filter (\<lambda>kv. bit_at (kv_path kv) (length p)) kvs"
    unfolding split using lo hi by (simp add: filter_False)
  ultimately show ?thesis using s(1) by blast
qed

theorem partitionByBit_boundary_witness:
  "\<exists>s. partitionByBit [\<lparr>kv_path = [29], kv_value = [1]\<rparr>, \<lparr>kv_path = [98], kv_value = [2]\<rparr>, \<lparr>kv_path = [128], kv_value = [3]\<rparr>] 0 = Inr s \<and>
    drop s [\<lparr>kv_path = [29], kv_value = [1]\<rparr>, \<lparr>kv_path = [98], kv_value = [2]\<rparr>, \<lparr>kv_path = [128], kv_value = [3]\<rparr>] =
      [\<lparr>kv_path = [128], kv_value = [3]\<rparr>]"
proof -
  let ?kvs = "[\<lparr>kv_path = [29], kv_value = [1]\<rparr>, \<lparr>kv_path = [98], kv_value = [2]\<rparr>, \<lparr>kv_path = [128], kv_value = [3]\<rparr>] :: bulkKV list"
  have "batch_ok 1 [] ?kvs" by (simp add: batch_ok_def)
  moreover have "filter (\<lambda>kv. bit_at (kv_path kv) 0) ?kvs = [\<lparr>kv_path = [128], kv_value = [3]\<rparr>]" by code_simp
  ultimately show ?thesis using partitionByBit_boundary [of 1 "[]" ?kvs] by auto
qed

text \<open>
  C17. Preparing a batch: sorting and the in-place de-duplication leave a strictly sorted batch in
  which every path has the value of its last occurrence in the input.
\<close>

theorem bulk_sort_dedup:
  "let kvs' = dedup_loop (sort_key kv_path kvs) 0 0 in
   sorted_wrt (<) (map kv_path kvs') \<and> kvmap kvs' = kvmap (rev kvs)"
  using dedup_last_sorted [of "sort_key kv_path kvs"] kvmap_dedup_last [of "sort_key kv_path kvs"]
    kvmap_rev_sort [of kvs] by (simp add: dedup_loop_eq Let_def)

end
