(* ===== verification/DeepSubTree.thy ===== *)
theory DeepSubTree
  imports SMTModel
begin

text \<open>
  Model of \<open>src/deepsubtree.go\<close>: a sparse Merkle tree whose stores hold only the branches that were
  added with proofs. The Go struct embeds the tree, so its state is a tree and it inherits Update,
  Delete, Get and the provers. \<open>GetDescend\<close> and \<open>HasDescend\<close> read by walking down the node store.
\<close>

type_synonym ('n, 'v) DeepSparseMerkleSubTree = "('n, 'v) SparseMerkleTree"

definition NewDeepSparseMerkleSubTree ::
    "'n \<Rightarrow> 'v \<Rightarrow> hash_Hash \<Rightarrow> bytes \<Rightarrow> ('n, 'v) DeepSparseMerkleSubTree" where
  "NewDeepSparseMerkleSubTree nodes values h root = ImportSparseMerkleTree nodes values h root"

section \<open>Adding branches\<close>

fun set_updates :: "'n MapStore \<Rightarrow> (bytes \<times> bytes) list \<Rightarrow> (('n, 'v) DeepSparseMerkleSubTree, unit) op" where
  "set_updates nI [] = returnS ()"
| "set_updates nI ((h, d) # updates) = bindS (nodes_Set nI h d) (\<lambda>_. set_updates nI updates)"

definition set_sibling :: "'n MapStore \<Rightarrow> SparseMerkleProof \<Rightarrow> (('n, 'v) DeepSparseMerkleSubTree, unit) op" where
  "set_sibling nI proof =
     (case SiblingData proof of
        None \<Rightarrow> returnS ()
      | Some d \<Rightarrow>
          if length (SideNodes proof) > 0 then nodes_Set nI (SideNodes proof ! 0) d else returnS ())"

definition AddBranch :: "'n MapStore \<Rightarrow> 'v MapStore \<Rightarrow> SparseMerkleProof \<Rightarrow> bytes \<Rightarrow> bytes \<Rightarrow>
    (('n, 'v) DeepSparseMerkleSubTree, unit) op" where
  "AddBranch nI vI proof key value dsmst =
     (let th = smt_th dsmst in
      bindS (liftS (verifyProofWithUpdates proof (Root dsmst) key value (hasher th)))
        (\<lambda>(result, updates).
          if \<not> result then throwS ErrBadProof
          else
            bindS (if value \<noteq> defaultValue then values_Set vI (th_path th key) value else returnS ())
              (\<lambda>_. bindS (set_updates nI updates) (\<lambda>_. set_sibling nI proof))) dsmst)"

section \<open>Reading by descent\<close>

text \<open>The loop runs over the remaining levels; after the last level the value store decides.\<close>

fun descend_loop :: "'n MapStore \<Rightarrow> 'v MapStore \<Rightarrow> ('n, 'v) SparseMerkleTree \<Rightarrow> bytes \<Rightarrow> nat list \<Rightarrow>
    bytes \<Rightarrow> bytes result" where
  "descend_loop nI vI smt path [] currentHash = values_Get vI smt path"
| "descend_loop nI vI smt path (i # is) currentHash =
     bindR (nodes_Get nI smt currentHash) (\<lambda>currentData.
     bindR (isLeaf (smt_th smt) currentData) (\<lambda>leaf.
       if leaf then
         bindR (parseLeaf (smt_th smt) currentData) (\<lambda>(p, _).
           if path \<noteq> p then Inr defaultValue else values_Get vI smt path)
       else
         bindR (parseNode (smt_th smt) currentData) (\<lambda>(leftNode, rightNode).
         bindR (getBitAtFromMSB path i) (\<lambda>b.
           let currentHash = (if b = right then rightNode else leftNode) in
           if currentHash = placeholder (smt_th smt) then Inr defaultValue
           else descend_loop nI vI smt path is currentHash))))"

definition GetDescend :: "'n MapStore \<Rightarrow> 'v MapStore \<Rightarrow> ('n, 'v) SparseMerkleTree \<Rightarrow> bytes \<Rightarrow> bytes result"
  where
  "GetDescend nI vI smt key =
     (let root = Root smt in
      if root = placeholder (smt_th smt) then Inr defaultValue
      else
        let path = th_path (smt_th smt) key
        in descend_loop nI vI smt path [0..<depth smt] root)"

definition HasDescend :: "'n MapStore \<Rightarrow> 'v MapStore \<Rightarrow> ('n, 'v) SparseMerkleTree \<Rightarrow> bytes \<Rightarrow> bool result"
  where
  "HasDescend nI vI smt key = bindR (GetDescend nI vI smt key) (\<lambda>val. Inr (defaultValue \<noteq> val))"

end
