(* ===== verification/DeepCorrect.thy ===== *)
theory DeepCorrect
  imports DeepSubTree SMTHistory
begin

text \<open>
  Correctness of \<open>src/deepsubtree.go\<close>. A deep subtree holds some of the nodes and values of a
  complete tree (\<open>partial_rep\<close>): what AddBranch stores are always nodes of that tree, whatever the
  proof, and a descent answers with the truth or with a missing-key error. It answers for every key
  whose branch is in the store (\<open>known\<close>).
\<close>

text \<open>What is needed to answer for a path: its branch and its value.\<close>

definition known :: "treeHasher \<Rightarrow> bytes set \<Rightarrow> (bytes \<rightharpoonup> bytes) \<Rightarrow> mtree \<Rightarrow> bytes \<Rightarrow> bool" where
  "known th D m t k \<longleftrightarrow> branch_nodes th (bits k) t \<subseteq> D \<and> (k \<in> dom (tmap t) \<longrightarrow> m k = tmap t k)"

section \<open>Verified branches\<close>

definition branch_data :: "treeHasher \<Rightarrow> SparseMerkleProof \<Rightarrow> bytes \<Rightarrow> bytes option \<Rightarrow> bytes set" where
  "branch_data th proof path d =
     set_option d \<union> set (climb_list th (bits path) (rev (SideNodes proof)) (data_hash th d)) \<union>
     (if SideNodes proof = [] then {} else set_option (SiblingData proof))"

text \<open>Everything that is hashed when a branch is added.\<close>

definition branch_preimages :: "treeHasher \<Rightarrow> SparseMerkleProof \<Rightarrow> bytes \<Rightarrow> bytes \<Rightarrow> bytes set" where
  "branch_preimages th proof path value =
     claim_preimages th proof path value \<union> set_option (SiblingData proof)"

lemma sanityCheck_sibling:
  "wf_th th \<Longrightarrow> sanityCheck th proof \<Longrightarrow> SiblingData proof = Some d \<Longrightarrow> SideNodes proof \<noteq> [] \<Longrightarrow>
   hd (SideNodes proof) = H th d"
  by (auto simp: sanityCheck_def split: if_splits)

lemma hash_of_tree:
  assumes "collision_free th S" "preimages th u \<subseteq> S" "d \<in> S" "H th d = thash th u"
  shows "d \<in> node_set th u" "d = tdata th u" "u \<noteq> Empty"
proof -
  show u: "u \<noteq> Empty" using collision_free_placeholder [OF assms(1,3)] assms(4) by auto
  have "tdata th u \<in> node_set th u" using subs_refl [OF u] by (simp add: node_set_subs)
  moreover from this have "tdata th u \<in> S" using node_set_preimages assms(2) by blast
  moreover have "H th d = H th (tdata th u)" using assms(4) thash_tdata [OF u] by simp
  ultimately show "d \<in> node_set th u" "d = tdata th u"
    using collision_freeD [OF assms(1,3)] by auto
qed

lemma preimages_plug:
  "length ss \<le> length bs \<Longrightarrow>
   preimages th f \<union> (\<Union>s\<in>set ss. preimages th s) \<subseteq> preimages th (plug bs ss f)"
  by (induction bs ss f rule: plug.induct) auto

lemma verified_branch:
  assumes th: "wf_th th" and cf: "collision_free th S" "preimages th t \<subseteq> S"
    "branch_preimages th proof path value \<subseteq> S"
    and path: "length path = pathSize th" and sane: "sanityCheck th proof"
    and d: "claim th proof path value = Some d"
      "climb th (bits path) (rev (SideNodes proof)) (data_hash th d) = thash th t"
  shows "branch_data th proof path d \<subseteq> node_set th t"
proof -
  let ?hs = "rev (SideNodes proof)"
  note sd = sanityCheck_sides [OF sane]
  have S: "set (climb_list th (bits path) ?hs (data_hash th d)) \<subseteq> S" "set_option d \<subseteq> S"
    "set_option (SiblingData proof) \<subseteq> S"
    using cf(3) d(1) by (auto simp: branch_preimages_def claim_preimages_def)
  obtain ss t0 where z: "t = plug (bits path) ss t0" "?hs = map (thash th) ss" "data_hash th d = thash th t0"
    using climb_zipper [OF th cf(1) _ _ _ S(1) cf(2) d(2)] sd path th by auto
  have len: "length ss \<le> length (bits path)" using arg_cong [OF z(2), of length] sd path by simp
  note ns = node_set_plug [OF len, of th t0, folded z(1,2,3), folded z(2)]
  have pre: "preimages th t0 \<subseteq> S" "\<forall>s\<in>set ss. preimages th s \<subseteq> S"
    using preimages_plug [OF len, of th t0] cf(2) unfolding z(1) by auto
  have "x \<in> node_set th t0" if "d = Some x" for x
    using hash_of_tree(1) [OF cf(1) pre(1), of x] that S(2) z(3) by (simp add: data_hash_def)
  moreover have "x \<in> node_set th (last ss) \<and> last ss \<in> set ss"
    if "SideNodes proof \<noteq> []" "SiblingData proof = Some x" for x
  proof -
    have "ss \<noteq> []" using that(1) z(2) by auto
    moreover have "H th x = last ?hs"
      using sanityCheck_sibling [OF th sane that(2,1)] that(1) by (simp add: last_rev)
    ultimately show ?thesis
      using hash_of_tree(1) [OF cf(1), of "last ss" x] pre(2) that(2) S(3) z(2) by (simp add: last_map)
  qed
  ultimately show ?thesis
    unfolding ns branch_data_def by (cases d; cases "SiblingData proof") auto
qed

text \<open>The honest proof of a complete tree adds exactly the branch of its path.\<close>

lemma tree_proof_claim:
  assumes "wf_th th" "wf_tree (pathSize th) [] t" "length k = pathSize th"
  shows "claim th (tree_proof th t k u) k (case tmap t k of None \<Rightarrow> [] | Some v \<Rightarrow> v) =
    Some (focus_data th (focus (bits k) t))"
proof -
  have notN: "\<not> is_Node (focus (bits k) t)" using focus_not_Node [OF assms(2), of k "bits k"] assms(3) by simp
  have tm: "tmap t k = tmap (focus (bits k) t) k" using focus_tmap [OF assms(2), of k "bits k"] by simp
  have "wf_tree (pathSize th) (take (length (sides (bits k) t)) (bits k)) (focus (bits k) t)"
    using wf_tree_focus [OF assms(2), of "bits k"] by simp
  then show ?thesis
    using notN tm by (cases "focus (bits k) t") (auto simp: claim_def tree_proof_def leaf_data_def leafPrefix_def)
qed

lemma tree_proof_branch:
  fixes u :: bool
  assumes "wf_th th" "wf_tree (pathSize th) [] t" "length k = pathSize th"
  defines "p \<equiv> tree_proof th t k u" and "d \<equiv> focus_data th (focus (bits k) t)"
  shows "branch_data th p k d = branch_nodes th (bits k) t \<union> (if u then sibling_nodes th (bits k) t else {})"
    and "branch_preimages th p k (case tmap t k of None \<Rightarrow> [] | Some v \<Rightarrow> v) \<subseteq> preimages th t"
proof -
  have notN: "\<not> is_Node (focus (bits k) t)" using focus_not_Node [OF assms(2), of k "bits k"] assms(3) by simp
  then have dh: "data_hash th d = thash th (focus (bits k) t)"
    by (cases "focus (bits k) t") (auto simp: data_hash_def d_def)
  have cl: "climb_list th (bits k) (rev (SideNodes p)) (data_hash th d) = path_data th (bits k) t"
    unfolding dh by (simp add: path_data_def p_def tree_proof_def)
  show bd: "branch_data th p k d = branch_nodes th (bits k) t \<union> (if u then sibling_nodes th (bits k) t else {})"
    unfolding branch_data_def cl by (auto simp: branch_nodes_def sibling_nodes_def p_def tree_proof_def d_def)
  have "(case tmap t k of None \<Rightarrow> [] | Some v \<Rightarrow> v) \<in> preimages th t" if "tmap t k \<noteq> None"
  proof -
    have "tmap t k = tmap (focus (bits k) t) k" using focus_tmap [OF assms(2), of k "bits k"] by simp
    then show ?thesis
      using that notN focus_preimages [of th "bits k" t]
      by (cases "focus (bits k) t") (auto split: if_splits)
  qed
  moreover have "branch_nodes th (bits k) t \<subseteq> preimages th t" "sibling_nodes th (bits k) t \<subseteq> preimages th t"
    using branch_nodes_sub [of th "bits k" t] sibling_nodes_sub [OF assms(2) notN, of th]
      node_set_preimages [of th t] by auto
  moreover have "set_option (SiblingData p) \<subseteq> sibling_nodes th (bits k) t"
    by (auto simp: p_def tree_proof_def sibling_nodes_def)
  moreover have "claim_preimages th p k (case tmap t k of None \<Rightarrow> [] | Some v \<Rightarrow> v) \<subseteq>
      branch_nodes th (bits k) t \<union> (case tmap t k of None \<Rightarrow> {} | Some v \<Rightarrow> {v})"
    using tree_proof_claim [OF assms(1-3), of u]
    by (auto simp: claim_preimages_def cl p_def [symmetric] d_def [symmetric] branch_nodes_def split: option.splits if_splits)
  ultimately show "branch_preimages th p k (case tmap t k of None \<Rightarrow> [] | Some v \<Rightarrow> v) \<subseteq> preimages th t"
    by (auto simp: branch_preimages_def split: option.splits)
qed

lemma values_agree: "m \<subseteq>\<^sub>m M \<Longrightarrow> m k = Some v \<Longrightarrow> M k = Some v"
  by (metis domI map_le_def)

text \<open>
  AddBranch refuses a proof that does not verify and leaves the subtree alone, over any stores.
\<close>

lemma AddBranch_bad:
  assumes "wf_th (smt_th smt)"
    and "VerifyProof proof (Root smt) key value (hasher (smt_th smt)) \<noteq> Inr True"
  shows "AddBranch nI vI proof key value smt = (Inl ErrBadProof, smt)"
proof -
  have h: "wf_hash (hasher (smt_th smt))" using assms(1) by (simp add: wf_th_def)
  obtain p where "verifyProofWithUpdates proof (Root smt) key value (hasher (smt_th smt)) = Inr p"
    using verifyProofWithUpdates_eq [OF h, of "proof" "Root smt" key "value"] by blast
  moreover obtain r us where "p = (r, us)" by (cases p)
  ultimately show ?thesis using assms(2) by (simp add: AddBranch_def VerifyProof_def Let_def)
qed

context smt_stores
begin

section \<open>Adding a branch\<close>

lemma set_updates_ok:
  assumes "wf_th th" "pathSize th = n" "roomn (b + length ds) (smt_nodes smt)"
    "cas th (absn (smt_nodes smt)) D" "collision_free th S" "D \<subseteq> S" "set ds \<subseteq> S"
    "\<forall>d\<in>set ds. length d = 2 * n + 1"
  shows "\<exists>s. set_updates nI (map (\<lambda>d. (H th d, d)) ds) smt = (Inr (), smt\<lparr>smt_nodes := s\<rparr>) \<and> roomn b s \<and>
    cas th (absn s) (D \<union> set ds)"
  using assms(3,4,6-8)
proof (induction ds arbitrary: smt D)
  case Nil
  then show ?case by (intro exI [of _ "smt_nodes smt"]) simp
next
  case (Cons d ds)
  obtain s where s: "nodes_Set nI (H th d) d smt = (Inr (), smt\<lparr>smt_nodes := s\<rparr>)" "roomn (b + length ds) s"
    "cas th (absn s) (insert d D)"
    using nodes_Set_ok [OF assms(1,2) _ Cons.prems(2) assms(5) Cons.prems(3), of "b + length ds" d] Cons.prems
    by auto
  obtain s' where "set_updates nI (map (\<lambda>d. (H th d, d)) ds) (smt\<lparr>smt_nodes := s\<rparr>) =
      (Inr (), smt\<lparr>smt_nodes := s'\<rparr>)" "roomn b s'" "cas th (absn s') (insert d D \<union> set ds)"
    using Cons.IH [of "smt\<lparr>smt_nodes := s\<rparr>" "insert d D"] s Cons.prems by auto
  then show ?case using s(1) by (intro exI [of _ s']) simp
qed

lemma set_sibling_ok:
  assumes "wf_th th" "pathSize th = n" "roomn (Suc b) (smt_nodes smt)"
    "cas th (absn (smt_nodes smt)) D" "collision_free th S" "D \<subseteq> S" "sanityCheck th proof"
    "A = (if SideNodes proof = [] then {} else set_option (SiblingData proof))" "A \<subseteq> S"
    "\<forall>d\<in>A. length d = 2 * n + 1"
  shows "\<exists>s. set_sibling nI proof smt = (Inr (), smt\<lparr>smt_nodes := s\<rparr>) \<and> roomn b s \<and> cas th (absn s) (D \<union> A)"
proof (cases "A = {}")
  case True
  then have "set_sibling nI proof smt = (Inr (), smt)"
    using assms(8) by (auto simp: set_sibling_def split: option.splits if_splits)
  then show ?thesis
    using True assms(4) N.room_mono [OF assms(3), of b] by (intro exI [of _ "smt_nodes smt"]) simp
next
  case False
  then obtain d where d: "SideNodes proof \<noteq> []" "SiblingData proof = Some d" "A = {d}"
    using assms(8) by (cases "SiblingData proof") (auto split: if_splits)
  have "SideNodes proof ! 0 = H th d"
    using sanityCheck_sibling [OF assms(1,7) d(2,1)] d(1) by (simp add: hd_conv_nth)
  moreover obtain s where "nodes_Set nI (H th d) d smt = (Inr (), smt\<lparr>smt_nodes := s\<rparr>)" "roomn b s"
    "cas th (absn s) (insert d D)"
    using nodes_Set_ok [OF assms(1-6), of d] assms(9,10) d(3) by auto
  ultimately show ?thesis using d by (intro exI [of _ s]) (simp add: set_sibling_def)
qed

text \<open>Otherwise it adds the branch, and the subtree still is a part of the complete tree.\<close>

lemma AddBranch_value_ok:
  assumes "roomv (Suc bv) (smt_values smt)" "length k = n" "value \<noteq> [] \<Longrightarrow> okvv value"
  obtains w where "(if value \<noteq> defaultValue then values_Set vI k value else returnS ()) smt =
      (Inr (), smt\<lparr>smt_values := w\<rparr>)" "roomv bv w"
    "absv w = (if value = [] then absv (smt_values smt) else (absv (smt_values smt))(k \<mapsto> value))"
proof (cases "value = []")
  case True
  then show thesis using that [of "smt_values smt"] V.room_mono [OF assms(1), of bv] by (simp add: defaultValue_def)
next
  case False
  then obtain w where "ms_Set vI (smt_values smt) k value = (Inr (), w)"
    "absv w = (absv (smt_values smt))(k \<mapsto> value)" "roomv bv w"
    using V.set_law [OF assms(1) value_key [OF assms(2)] assms(3)] by auto
  then show thesis using that [of w] False by (simp add: defaultValue_def values_Set_def)
qed

lemma AddBranch_ok:
  assumes rep: "partial_rep absn absv D smt t" and n: "pathSize (smt_th smt) = n"
    and room: "roomn (b + 8 * n + 2) (smt_nodes smt)" "roomv (Suc bv) (smt_values smt)"
    and v: "value \<noteq> [] \<Longrightarrow> okvv value"
    and cf: "collision_free (smt_th smt) S" "preimages (smt_th smt) t \<subseteq> S"
      "branch_preimages (smt_th smt) proof (H (smt_th smt) key) value \<subseteq> S"
    and ver: "VerifyProof proof (Root smt) key value (hasher (smt_th smt)) = Inr True"
  shows "\<exists>d smt'. AddBranch nI vI proof key value smt = (Inr (), smt') \<and>
    claim (smt_th smt) proof (H (smt_th smt) key) value = Some d \<and>
    partial_rep absn absv (D \<union> branch_data (smt_th smt) proof (H (smt_th smt) key) d) smt' t \<and>
    smt_th smt' = smt_th smt \<and> roomn b (smt_nodes smt') \<and> roomv bv (smt_values smt') \<and>
    absv (smt_values smt') =
      (if value = [] then absv (smt_values smt) else (absv (smt_values smt))(H (smt_th smt) key \<mapsto> value))"
proof -
  define th k where "th = smt_th smt" and "k = H th key"
  note r = partial_repD [OF rep, folded th_def]
  note cf' = cf [folded th_def, folded k_def]
  have h: "wf_hash (hasher th)" and new: "newTreeHasher (hasher th) = th"
    using r(1) wf_th_new by (auto simp: wf_th_def)
  have k: "length k = pathSize th" "n = pathSize th" using r(1) n by (simp_all add: k_def th_def)
  obtain d where d: "sanityCheck th proof" "claim th proof k value = Some d"
    "climb th (bits k) (rev (SideNodes proof)) (data_hash th d) = thash th t"
    using ver VerifyProof_eq [OF h, of "proof" "Root smt" key "value"] r(3)
    by (auto simp: new th_def [symmetric] k_def Root_def)
  let ?cl = "climb_list th (bits k) (rev (SideNodes proof)) (data_hash th d)"
  define ds where "ds = (case d of None \<Rightarrow> [] | Some x \<Rightarrow> [x]) @ ?cl"
  define A where "A = (if SideNodes proof = [] then {} else set_option (SiblingData proof))"
  have bd: "branch_data th proof k d = set ds \<union> A"
    by (cases d) (auto simp: branch_data_def ds_def A_def)
  note sub = verified_branch [OF r(1) cf' k(1) d]
  have lens: "length x = 2 * n + 1" if "x \<in> branch_data th proof k d" for x
    using node_set_length [OF r(1,2), of x] sub that k(2) by auto
  have "node_set th t \<subseteq> S" using node_set_preimages cf'(2) by blast
  then have nS: "D \<subseteq> S" "set ds \<subseteq> S" "A \<subseteq> S" "D \<union> set ds \<subseteq> S" using r(5) sub bd by auto
  have "length ?cl \<le> 8 * n"
    using sanityCheck_sides [OF d(1)] k by (simp add: length_climb_list)
  then have "length ds \<le> 8 * n + 1" by (cases d) (simp_all add: ds_def)
  then have room1: "roomn (Suc b + length ds) (smt_nodes smt)"
    by (intro N.room_mono [OF room(1)]) simp
  have sound: "value \<noteq> [] \<Longrightarrow> tmap t k = Some value"
    using verify_sound [OF h, of t "proof" key "value"] ver r(2,3) cf'
      collision_free_subset [OF cf'(1), of "preimages th t \<union> claim_preimages th proof k value"]
    by (auto simp: new th_def [symmetric] k_def Root_def branch_preimages_def)
  obtain w where w: "(if value \<noteq> defaultValue then values_Set vI k value else returnS ()) smt =
      (Inr (), smt\<lparr>smt_values := w\<rparr>)" "roomv bv w"
    "absv w = (if value = [] then absv (smt_values smt) else (absv (smt_values smt))(k \<mapsto> value))"
    using AddBranch_value_ok [OF room(2), of k "value"] k v by auto
  obtain s1 where s1: "set_updates nI (map (\<lambda>d. (H th d, d)) ds) (smt\<lparr>smt_values := w\<rparr>) =
      (Inr (), smt\<lparr>smt_values := w, smt_nodes := s1\<rparr>)" "roomn (Suc b) s1" "cas th (absn s1) (D \<union> set ds)"
    using set_updates_ok [OF r(1) k(2) [symmetric], of "Suc b" ds "smt\<lparr>smt_values := w\<rparr>" D S]
      room1 r(4) cf'(1) nS(1,2) lens by (auto simp: bd)
  obtain s2 where s2: "set_sibling nI proof (smt\<lparr>smt_values := w, smt_nodes := s1\<rparr>) =
      (Inr (), smt\<lparr>smt_values := w, smt_nodes := s2\<rparr>)" "roomn b s2" "cas th (absn s2) (D \<union> set ds \<union> A)"
    using set_sibling_ok [OF r(1) k(2) [symmetric], of b "smt\<lparr>smt_values := w, smt_nodes := s1\<rparr>" "D \<union> set ds" S "proof" A]
      s1(2,3) cf'(1) nS(3,4) lens d(1) A_def by (auto simp: bd)
  have "verifyProofWithUpdates proof (Root smt) key value (hasher th) = Inr (True, map (\<lambda>d. (H th d, d)) ds)"
    using verifyProofWithUpdates_eq [OF h, of "proof" "Root smt" key "value"] d r(3)
    by (simp add: new k_def [symmetric] Root_def ds_def)
  moreover have path: "th_path th key = k" using r(1) by (simp add: k_def)
  have "bindS (if value \<noteq> defaultValue then values_Set vI (th_path th key) value else returnS ()) f smt =
      f () (smt\<lparr>smt_values := w\<rparr>)" for f :: "unit \<Rightarrow> (('n, 'v) SparseMerkleTree, unit) op"
    unfolding path by (rule bindS_ok) (rule w(1))
  with calculation have "AddBranch nI vI proof key value smt = (Inr (), smt\<lparr>smt_values := w, smt_nodes := s2\<rparr>)"
    using s1(1) s2(1) by (simp add: AddBranch_def th_def [symmetric] Let_def split del: if_split)
  moreover have "partial_rep absn absv (D \<union> branch_data th proof k d) (smt\<lparr>smt_values := w, smt_nodes := s2\<rparr>) t"
    using r s2(3) sub w(3) sound
    by (auto simp: partial_rep_def th_def [symmetric] bd Un_assoc map_le_def split: if_splits)
  ultimately show ?thesis
    using d(2) s2(2) w(2,3) by (intro exI [of _ d] exI [of _ "smt\<lparr>smt_values := w, smt_nodes := s2\<rparr>"])
      (simp add: th_def [symmetric] k_def [symmetric])
qed

section \<open>Reading by descent\<close>

lemma values_Get_cases:
  assumes "roomv bv (smt_values smt)" "length k = n" "absv (smt_values smt) \<subseteq>\<^sub>m tmap t" "tmap t k = Some v"
  shows "values_Get vI smt k = (if absv (smt_values smt) k = Some v then Inr v else Inl (InvalidKeyError k))"
proof (cases "absv (smt_values smt) k")
  case (Some v')
  then show ?thesis
    using V.get_law [OF assms(1) value_key [OF assms(2)]] values_agree [OF assms(3) Some] assms(4)
    by (simp add: values_Get_def)
qed (use V.get_law [OF assms(1) value_key [OF assms(2)]] in \<open>simp add: values_Get_def\<close>)

lemma nodes_Get_cases:
  assumes "roomn b (smt_nodes smt)" "wf_th th" "pathSize th = n" "cas th (absn (smt_nodes smt)) D"
    and "collision_free th S" "D \<subseteq> S" "preimages th u \<subseteq> S" "u \<noteq> Empty"
  shows "nodes_Get nI smt (thash th u) =
    (if tdata th u \<in> D then Inr (tdata th u) else Inl (InvalidKeyError (thash th u)))"
proof -
  have len: "length (thash th u) = n" using assms(2,3) by simp
  have "d = tdata th u" if "absn (smt_nodes smt) (thash th u) = Some d" for d
    using hash_of_tree(2) [OF assms(5,7), of d] that assms(4,6) by (auto simp: cas_def)
  moreover have "absn (smt_nodes smt) (thash th u) = Some (tdata th u) \<longleftrightarrow> tdata th u \<in> D"
    using assms(4) thash_tdata [OF assms(8), of th] by (simp add: cas_def)
  ultimately show ?thesis
    using N.get_law [OF assms(1) node_key [OF len]]
    by (cases "absn (smt_nodes smt) (thash th u)") (auto simp: nodes_Get_def)
qed

lemma descend_cases:
  assumes rep: "partial_rep absn absv D smt t" and n: "pathSize (smt_th smt) = n"
    and room: "roomn b (smt_nodes smt)" "roomv bv (smt_values smt)"
    and cf: "collision_free (smt_th smt) S" "preimages (smt_th smt) t \<subseteq> S" and k: "length k = n"
    and u: "wf_tree n p u" "bits k = p @ bs" "i = length p" "u \<noteq> Empty" "preimages (smt_th smt) u \<subseteq> S"
      "tmap u k = tmap t k"
  shows "descend_loop nI vI smt k [i..<8 * n] (thash (smt_th smt) u) =
      Inr (case tmap t k of None \<Rightarrow> [] | Some v \<Rightarrow> v) \<or>
    (\<exists>h. descend_loop nI vI smt k [i..<8 * n] (thash (smt_th smt) u) = Inl (InvalidKeyError h)) \<and>
    \<not> (branch_nodes (smt_th smt) bs u \<subseteq> D \<and> (k \<in> dom (tmap t) \<longrightarrow> absv (smt_values smt) k = tmap t k))"
  using u
proof (induction bs arbitrary: p u i)
  case Nil
  have "length p = 8 * n" using arg_cong [OF Nil.prems(2), of length] k by simp
  moreover from this obtain k' v where uL: "u = Leaf k' v"
    using wf_tree_full_depth [OF Nil.prems(1)] Nil.prems(4) by (cases u) auto
  moreover have "k' = k"
  proof -
    have k': "prefix (bits k) (bits k')" "length k' = length k" using Nil.prems(1,2) uL k by simp_all
    then obtain zs where zs: "bits k' = bits k @ zs" by (auto simp: prefix_def)
    have "zs = []" using arg_cong [OF zs, of length] k'(2) by simp
    then show ?thesis using zs by (simp add: bits_inject)
  qed
  moreover from this have "tmap t k = Some v" using Nil.prems(6) uL by simp
  ultimately show ?case
    using values_Get_cases [OF room(2) k partial_repD(6) [OF rep], of v] Nil.prems(3) by auto
next
  case (Cons c bs)
  let ?th = "smt_th smt"
  note r = partial_repD [OF rep]
  have "length p < 8 * n" using arg_cong [OF Cons.prems(2), of length] k by simp
  then have upt: "[i..<8 * n] = i # [Suc i..<8 * n]" and i: "i < 8 * length k"
    using Cons.prems(3) k by (simp_all add: upt_conv_Cons)
  have DS: "D \<subseteq> S" using r(5) node_set_preimages cf(2) by blast
  note get = nodes_Get_cases [OF room(1) r(1) n r(4) cf(1) DS Cons.prems(5,4)]
  show ?case
  proof (cases u)
    case Empty
    then show ?thesis using Cons.prems(4) by simp
  next
    case (Leaf k' v)
    then have "length k' = pathSize ?th" "tmap t k = (if k = k' then Some v else None)"
      using Cons.prems(1,6) n by auto
    then show ?thesis
      using get Leaf values_Get_cases [OF room(2) k r(6), of v] unfolding upt
      by (auto simp: defaultValue_def split: if_splits)
  next
    case (Node l r')
    let ?u = "if c then r' else l"
    have bit: "getBitAtFromMSB k i = Inr (of_bool c)"
      using getBitAtFromMSB_bits [OF i] Cons.prems(2,3) by simp
    have tm: "tmap ?u k = tmap t k"
      using tmap_Node [of n p l r' k] Cons.prems(1,2,6) Node by (simp add: nth_append bits_append_less del: tmap.simps)
    have ph: "thash ?th ?u = placeholder ?th \<longleftrightarrow> ?u = Empty"
      using placeholder_thash [OF cf(1), of ?u] Cons.prems(5) Node by auto
    have len: "length (thash ?th l) = pathSize ?th" using r(1) by simp
    have step: "descend_loop nI vI smt k [i..<8 * n] (thash ?th u) =
      (if tdata ?th u \<notin> D then Inl (InvalidKeyError (thash ?th u))
       else if ?u = Empty then Inr [] else descend_loop nI vI smt k [Suc i..<8 * n] (thash ?th ?u))"
      unfolding upt using get bit ph len Node by (cases c) (simp_all add: right_def defaultValue_def Let_def)
    have IH: "?u \<noteq> Empty \<Longrightarrow> descend_loop nI vI smt k [Suc i..<8 * n] (thash ?th ?u) =
        Inr (case tmap t k of None \<Rightarrow> [] | Some v \<Rightarrow> v) \<or>
      (\<exists>h. descend_loop nI vI smt k [Suc i..<8 * n] (thash ?th ?u) = Inl (InvalidKeyError h)) \<and>
      \<not> (branch_nodes ?th bs ?u \<subseteq> D \<and> (k \<in> dom (tmap t) \<longrightarrow> absv (smt_values smt) k = tmap t k))"
      using Cons.prems Node tm by (intro Cons.IH [of "p @ [c]"]) (auto split: if_splits)
    have bn: "branch_nodes ?th (c # bs) u = insert (tdata ?th u) (branch_nodes ?th bs ?u)"
      using Node by simp
    show ?thesis
      unfolding step bn using IH tm by (cases "?u = Empty") auto
  qed
qed

text \<open>A descent tells the truth or misses a key, and it does not miss one on a known branch.\<close>

lemma GetDescend_cases:
  assumes rep: "partial_rep absn absv D smt t" and n: "pathSize (smt_th smt) = n"
    and room: "roomn b (smt_nodes smt)" "roomv bv (smt_values smt)"
    and cf: "collision_free (smt_th smt) S" "preimages (smt_th smt) t \<subseteq> S"
  shows "GetDescend nI vI smt key = Inr (case tmap t (H (smt_th smt) key) of None \<Rightarrow> [] | Some v \<Rightarrow> v) \<or>
    (\<exists>h. GetDescend nI vI smt key = Inl (InvalidKeyError h)) \<and>
    \<not> known (smt_th smt) D (absv (smt_values smt)) t (H (smt_th smt) key)"
proof (cases "t = Empty")
  case True
  then show ?thesis using partial_repD [OF rep] by (simp add: GetDescend_def Root_def defaultValue_def Let_def)
next
  case False
  note r = partial_repD [OF rep]
  have "Root smt \<noteq> placeholder (smt_th smt)" "Root smt = thash (smt_th smt) t"
    using placeholder_thash [OF cf] r(3) False by (simp_all add: Root_def)
  then show ?thesis
    using descend_cases [OF rep n room cf, of "H (smt_th smt) key" "[]" t "bits (H (smt_th smt) key)" 0]
      r(1,2) n cf(2) False
    by (simp add: GetDescend_def known_def depth_def Let_def mult.commute)
qed

end

end
