(* ===== verification/DeepSim.thy ===== *)
theory DeepSim
  imports DeepCorrect
begin

text \<open>
  A simulation between a tree and a tree that holds more: \<open>sub_smt s S\<close> says that the SimpleMap
  stores of \<open>S\<close> extend those of \<open>s\<close>. An operation \<open>lifts\<close> when whatever it does on the smaller
  tree, short of missing a key, it does on the larger one. Every operation of the tree lifts, so a
  deep subtree that completes an update computes what the complete tree computes.
\<close>

type_synonym simple_smt = "(SimpleMap, SimpleMap) SparseMerkleTree"

definition sub_smt :: "simple_smt \<Rightarrow> simple_smt \<Rightarrow> bool" where
  "sub_smt s S \<longleftrightarrow> smt_th s = smt_th S \<and> smt_root s = smt_root S \<and>
     sm_m (smt_nodes s) \<subseteq>\<^sub>m sm_m (smt_nodes S) \<and> sm_m (smt_values s) \<subseteq>\<^sub>m sm_m (smt_values S)"

fun missing :: "go_error + 'a \<Rightarrow> bool" where
  "missing (Inl (InvalidKeyError k)) = True"
| "missing _ = False"

definition reads :: "(simple_smt \<Rightarrow> 'a result) \<Rightarrow> bool" where
  "reads f \<longleftrightarrow> (\<forall>s S. sub_smt s S \<longrightarrow> \<not> missing (f s) \<longrightarrow> f S = f s)"

definition lifts :: "(simple_smt, 'a) op \<Rightarrow> bool" where
  "lifts f \<longleftrightarrow> (\<forall>s S r s'. sub_smt s S \<longrightarrow> f s = (r, s') \<longrightarrow> \<not> missing r \<longrightarrow>
     (\<exists>S'. f S = (r, S') \<and> sub_smt s' S'))"

lemma readsD: "reads f \<Longrightarrow> sub_smt s S \<Longrightarrow> \<not> missing (f s) \<Longrightarrow> f S = f s"
  by (simp add: reads_def)

lemma liftsD:
  assumes "lifts f" "sub_smt s S" "f s = (r, s')" "\<not> missing r"
  obtains S' where "f S = (r, S')" "sub_smt s' S'"
  using assms unfolding lifts_def by blast

named_theorems lift_intros \<open>composition rules of the simulation\<close>

section \<open>Composition\<close>

lemma reads_const [lift_intros]: "reads (\<lambda>s. r)"
  by (simp add: reads_def)

lemma reads_bind [lift_intros]:
  assumes "reads f" "\<And>x. reads (\<lambda>s. g s x)"
  shows "reads (\<lambda>s. bindR (f s) (g s))"
  unfolding reads_def
proof (intro allI impI)
  fix s S assume sub: "sub_smt s S" and ok: "\<not> missing (bindR (f s) (g s))"
  show "bindR (f S) (g S) = bindR (f s) (g s)"
  proof (cases "f s")
    case (Inl e)
    then have "\<not> missing (f s)" using ok by (cases e) auto
    then show ?thesis using readsD [OF assms(1) sub] Inl by simp
  next
    case (Inr x)
    then show ?thesis using readsD [OF assms(1) sub] readsD [OF assms(2) sub, of x] ok by simp
  qed
qed

lemma reads_hasher [lift_intros]:
  "reads (\<lambda>s. parseNode (smt_th s) d)" "reads (\<lambda>s. isLeaf (smt_th s) d)"
  by (simp_all add: reads_def sub_smt_def)

lemma reads_placeholder [lift_intros]:
  "reads f \<Longrightarrow> reads g \<Longrightarrow> reads (\<lambda>s. if h = placeholder (smt_th s) then f s else g s)"
  by (auto simp: reads_def sub_smt_def)

lemma reads_if [lift_intros]: "reads f \<Longrightarrow> reads g \<Longrightarrow> reads (\<lambda>s. if b then f s else g s)"
  by (cases b) simp_all

lemma reads_nodes_Get [lift_intros]: "reads (\<lambda>s. nodes_Get SimpleMap_store s h)"
  by (auto simp: reads_def sub_smt_def nodes_Get_def SimpleMap_store_def SimpleMap_Get_def
      split: option.splits dest: values_agree)

lemma lifts_return [lift_intros]: "lifts (returnS x)" "lifts (throwS e)" "lifts (liftS r)"
  by (simp_all add: lifts_def)

lemma lifts_read [lift_intros]: "reads f \<Longrightarrow> lifts (readS f)"
  by (auto simp: lifts_def dest: readsD)

lemma lifts_bind [lift_intros]:
  assumes "lifts m" "\<And>x. lifts (f x)"
  shows "lifts (bindS m f)"
  unfolding lifts_def
proof (intro allI impI)
  fix s S r s' assume sub: "sub_smt s S" and run: "bindS m f s = (r, s')" and ok: "\<not> missing r"
  from run show "\<exists>S'. bindS m f S = (r, S') \<and> sub_smt s' S'"
  proof (cases rule: bindS_cases)
    case (err e)
    then have "\<not> missing (Inl e :: 'c result)" using ok by (cases e) auto
    then show ?thesis using liftsD [OF assms(1) sub err(1)] err(2) ok
      by (metis bindS_err missing.elims(2) missing.simps(1) sum.inject(1))
  next
    case (ok x t)
    then show ?thesis
      using liftsD [OF assms(1) sub ok(1)] liftsD [OF assms(2) _ ok(2)] \<open>\<not> missing r\<close>
      by (metis bindS_ok missing.simps(8))
  qed
qed

lemma lifts_th: "(\<And>th. lifts (g th)) \<Longrightarrow> lifts (\<lambda>s. g (smt_th s) s)"
  by (auto simp: lifts_def sub_smt_def)

lemma lifts_if [lift_intros]: "lifts f \<Longrightarrow> lifts g \<Longrightarrow> lifts (if b then f else g)"
  by simp

lemma lifts_option [lift_intros]:
  "lifts f \<Longrightarrow> (\<And>x. lifts (g x)) \<Longrightarrow> lifts (case y of None \<Rightarrow> f | Some x \<Rightarrow> g x)"
  by (cases y) simp_all

lemma lifts_prod [lift_intros]: "(\<And>a b. lifts (g a b)) \<Longrightarrow> lifts (case y of (a, b) \<Rightarrow> g a b)"
  by (cases y) simp_all

lemma reads_prod [lift_intros]: "(\<And>a b. reads (\<lambda>s. g s a b)) \<Longrightarrow> reads (\<lambda>s. case y of (a, b) \<Rightarrow> g s a b)"
  by (cases y) simp_all

section \<open>Store access\<close>

lemma map_le_upd: "m \<subseteq>\<^sub>m M \<Longrightarrow> m(k := x) \<subseteq>\<^sub>m M(k := x)"
  by (auto simp: map_le_def)

lemma lifts_nodes_Set [lift_intros]: "lifts (nodes_Set SimpleMap_store h d)"
  by (auto simp: lifts_def sub_smt_def nodes_Set_def SimpleMap_store_def SimpleMap_Set_def map_le_upd)

lemma lifts_values_Set [lift_intros]: "lifts (values_Set SimpleMap_store h d)"
  by (auto simp: lifts_def sub_smt_def values_Set_def SimpleMap_store_def SimpleMap_Set_def map_le_upd)

lemma lifts_nodes_Delete [lift_intros]: "lifts (nodes_Delete SimpleMap_store h)"
  unfolding lifts_def
proof (intro allI impI)
  fix s S r s' assume "sub_smt s S" "nodes_Delete SimpleMap_store h s = (r, s')" "\<not> missing r"
  moreover from this obtain d where "sm_m (smt_nodes s) h = Some d"
    by (cases "sm_m (smt_nodes s) h") (auto simp: nodes_Delete_def SimpleMap_store_def SimpleMap_Delete_def)
  moreover from calculation have "sm_m (smt_nodes S) h = Some d" by (auto simp: sub_smt_def dest: values_agree)
  ultimately show "\<exists>S'. nodes_Delete SimpleMap_store h S = (r, S') \<and> sub_smt s' S'"
    by (auto simp: sub_smt_def nodes_Delete_def SimpleMap_store_def SimpleMap_Delete_def map_le_upd)
qed

lemma lifts_values_Delete [lift_intros]: "lifts (values_Delete SimpleMap_store h)"
  unfolding lifts_def
proof (intro allI impI)
  fix s S r s' assume "sub_smt s S" "values_Delete SimpleMap_store h s = (r, s')" "\<not> missing r"
  moreover from this obtain d where "sm_m (smt_values s) h = Some d"
    by (cases "sm_m (smt_values s) h") (auto simp: values_Delete_def SimpleMap_store_def SimpleMap_Delete_def)
  moreover from calculation have "sm_m (smt_values S) h = Some d" by (auto simp: sub_smt_def dest: values_agree)
  ultimately show "\<exists>S'. values_Delete SimpleMap_store h S = (r, S') \<and> sub_smt s' S'"
    by (auto simp: sub_smt_def values_Delete_def SimpleMap_store_def SimpleMap_Delete_def map_le_upd)
qed

section \<open>The operations of the tree\<close>

lemma reads_fill_loop [lift_intros]: "reads (\<lambda>s. fill_loop SimpleMap_store s path is ps cd sn)"
proof (induction "is" arbitrary: ps cd sn)
  case (Cons i "is")
  show ?case
    unfolding fill_loop.simps Let_def by (intro lift_intros Cons.IH)
qed (simp add: reads_const)

lemma reads_fill_depth [lift_intros]: "reads (\<lambda>s. fill_loop SimpleMap_store s path [0..<depth s] ps cd sn)"
  using reads_fill_loop [of path _ ps cd sn] by (auto simp: reads_def sub_smt_def depth_def)

lemma reads_fillSideNodes [lift_intros]: "reads (\<lambda>s. fillSideNodes SimpleMap_store s ps path root g)"
  unfolding fillSideNodes_def Let_def by (intro lift_intros)

lemma lifts_delete_nodes [lift_intros]: "lifts (delete_nodes SimpleMap_store ns)"
  by (induction ns; unfold delete_nodes.simps; intro lift_intros; assumption)

lemma lifts_delete_loop [lift_intros]: "lifts (delete_loop SimpleMap_store th sc path m i sns turn cH cd np)"
proof (induction sns arbitrary: i turn cH cd np)
  case (Cons sn sns)
  show ?case unfolding delete_loop.simps Let_def by (intro lift_intros Cons.IH)
qed (simp add: lift_intros)

lemma lifts_deleteWithSideNodes [lift_intros]:
  "lifts (deleteWithSideNodes SimpleMap_store sc path sns pns old)"
  unfolding deleteWithSideNodes_def Let_def
  by (rule lifts_th [where g = "\<lambda>th. bindS _ (\<lambda>p0. if p0 = placeholder th then _ else _ th)"]) (intro lift_intros)

lemma lifts_update_loop [lift_intros]: "lifts (update_loop SimpleMap_store th sc path D sns cpc is turn c)"
proof (induction "is" arbitrary: turn c)
  case (Cons i "is")
  show ?case unfolding update_loop.simps Let_def by (intro lift_intros Cons.IH)
qed (simp add: lift_intros)

lemma lifts_updateWithSideNodes [lift_intros]:
  "lifts (updateWithSideNodes SimpleMap_store SimpleMap_store sc path v sns pns old)"
proof -
  have root: "reads (\<lambda>s. Inr (smt_root s))" by (simp add: reads_def sub_smt_def)
  show ?thesis
    unfolding updateWithSideNodes_def Let_def depth_def case_prod_beta
    by (rule lifts_th [where g = "\<lambda>th. bindS (_ th) (_ th)"]) (intro lift_intros root)
qed

text \<open>The delete branch of UpdateForRoot inspects the error.\<close>

lemma lifts_delete_branch [lift_intros]:
  assumes "lifts f" "\<And>r. lifts (g r)" "\<And>k s. missing (fst (g (Inl (InvalidKeyError k)) s))"
  shows "lifts (\<lambda>s. case f s of
      (Inl ErrKeyAlreadyEmpty, s) \<Rightarrow> (Inr root, s)
    | (Inl (Panic msg), s) \<Rightarrow> (Inl (Panic msg), s)
    | (r, s) \<Rightarrow> g r s)"
  unfolding lifts_def
proof (intro allI impI)
  let ?c = "\<lambda>x. case x of
      (Inl ErrKeyAlreadyEmpty, s) \<Rightarrow> (Inr root, s)
    | (Inl (Panic msg), s) \<Rightarrow> (Inl (Panic msg), s)
    | (r, s) \<Rightarrow> g r s"
  fix s S r s' assume sub: "sub_smt s S" and run: "?c (f s) = (r, s')" and ok: "\<not> missing r"
  obtain r1 s1 where f: "f s = (r1, s1)" by (cases "f s")
  have "\<not> missing r1"
    using run ok assms(3) f by (cases r1 rule: missing.cases) (auto, metis fst_conv)
  then obtain S1 where S1: "f S = (r1, S1)" "sub_smt s1 S1" using liftsD [OF assms(1) sub f] by blast
  have "\<exists>S'. ?c (r1, S1) = (r, S') \<and> sub_smt s' S'"
    using run f S1(2) liftsD [OF assms(2) S1(2) _ ok]
    by (cases r1 rule: missing.cases) (auto split: go_error.splits sum.splits, blast+)
  then show "\<exists>S'. ?c (f S) = (r, S') \<and> sub_smt s' S'" using S1(1) by simp
qed

lemma lifts_UpdateForRoot [lift_intros]:
  "lifts (UpdateForRoot SimpleMap_store SimpleMap_store key v root)"
proof -
  let ?ps = "fst (getPathSlices [] 0)" and ?sc = "fst (getUpdateScratch [] 0)"
  have miss: "missing (fst (bindS (values_Delete SimpleMap_store p) (\<lambda>_. liftS (Inl (InvalidKeyError k))) s :: bytes result \<times> _))"
    for p k and s :: simple_smt
    by (auto simp: bindS_def values_Delete_def SimpleMap_store_def SimpleMap_Delete_def split: option.splits)
  have "lifts (\<lambda>s. (\<lambda>th. let path = pathInto th (pathBuf ?sc) key in
      bindS (readS (\<lambda>smt. fillSideNodes SimpleMap_store smt ?ps path root False)) (\<lambda>(ps, oldLeafData, _).
        if v = defaultValue then
          (\<lambda>smt.
            case deleteWithSideNodes SimpleMap_store ?sc path (sideNodes ps) (pathNodes ps) oldLeafData smt of
              (Inl ErrKeyAlreadyEmpty, smt) \<Rightarrow> (Inr root, smt)
            | (Inl (Panic msg), smt) \<Rightarrow> (Inl (Panic msg), smt)
            | (r, smt) \<Rightarrow> bindS (values_Delete SimpleMap_store path) (\<lambda>_. liftS r) smt)
        else
          updateWithSideNodes SimpleMap_store SimpleMap_store ?sc path v (sideNodes ps) (pathNodes ps) oldLeafData))
      (smt_th s) s)"
    unfolding Let_def by (rule lifts_th) (intro lift_intros miss)
  then show ?thesis by (simp add: UpdateForRoot_def UpdateForRoot_with_def [abs_def] Let_def)
qed

lemma Update_lifts:
  assumes "sub_smt s S" "Update SimpleMap_store SimpleMap_store key v s = (Inr r, s')"
  obtains S' where "Update SimpleMap_store SimpleMap_store key v S = (Inr r, S')" "sub_smt s' S'"
proof -
  obtain s1 where s1: "UpdateForRoot SimpleMap_store SimpleMap_store key v (Root s) s = (Inr r, s1)"
    "s' = SetRoot r s1"
    using assms(2) by (auto simp: Update_def elim: bindS_cases)
  obtain S1 where "UpdateForRoot SimpleMap_store SimpleMap_store key v (Root s) S = (Inr r, S1)" "sub_smt s1 S1"
    using liftsD [OF lifts_UpdateForRoot assms(1) s1(1)] by auto
  then show thesis
    using that [of "SetRoot r S1"] assms(1) s1(2)
    by (simp add: Update_def Root_def SetRoot_def sub_smt_def)
qed

section \<open>Parts of complete trees\<close>

lemma cas_exists:
  assumes "collision_free th S" "D \<subseteq> S"
  shows "\<exists>m. cas th m D"
proof
  have inj: "inj_on (H th) D" using assms by (auto simp: collision_free_def intro: inj_on_subset)
  show "cas th (\<lambda>h. if h \<in> H th ` D then Some (inv_into D (H th) h) else None) D"
    unfolding cas_def
    using inj by (auto simp: inv_into_f_f inv_into_into f_inv_into_f)
qed

lemma partial_full:
  assumes "partial_rep sm_m sm_m D s t" and cf: "collision_free (smt_th s) S" "preimages (smt_th s) t \<subseteq> S"
  obtains M where "represents sm_m sm_m M t" "sub_smt s M"
proof -
  note r = partial_repD [OF assms(1)]
  obtain m where m: "cas (smt_th s) m (node_set (smt_th s) t)"
    using cas_exists [OF cf(1) order_trans [OF node_set_preimages cf(2)]] by blast
  have "sm_m (smt_nodes s) \<subseteq>\<^sub>m m"
  proof (unfold map_le_def, intro ballI)
    fix h assume "h \<in> dom (sm_m (smt_nodes s))"
    then obtain d where "sm_m (smt_nodes s) h = Some d" by blast
    moreover from this have "m h = Some d" using r(4,5) m unfolding cas_def by blast
    ultimately show "sm_m (smt_nodes s) h = m h" by simp
  qed
  then show thesis
    using r m by (intro that [of "\<lparr>smt_th = smt_th s, smt_nodes = \<lparr>sm_m = m\<rparr>,
        smt_values = \<lparr>sm_m = tmap t\<rparr>, smt_root = smt_root s\<rparr>"])
      (simp_all add: represents_def sub_smt_def)
qed

lemma sub_partial:
  assumes "represents sm_m sm_m M t" "sub_smt s M"
  shows "partial_rep sm_m sm_m (ran (sm_m (smt_nodes s))) s t"
proof -
  note r = representsD [OF assms(1)]
  have "sm_m (smt_nodes s) h = Some d \<longrightarrow> d \<in> node_set (smt_th M) t \<and> h = H (smt_th M) d" for h d
    using assms(2) r(4) values_agree [of "sm_m (smt_nodes s)" "sm_m (smt_nodes M)" h d]
    by (auto simp: sub_smt_def cas_def)
  then show ?thesis
    using assms(2) r by (auto simp: partial_rep_def sub_smt_def cas_def ran_def)
qed

text \<open>An update that a part of a tree completes is the update of the tree.\<close>

lemma deep_update:
  assumes "partial_rep sm_m sm_m D s t" "Update SimpleMap_store SimpleMap_store key v s = (Inr r, s')"
    and t': "t' = tupdate (H (smt_th s) key) v t"
    and cf: "collision_free (smt_th s) S" "preimages (smt_th s) t \<subseteq> S" "preimages (smt_th s) t' \<subseteq> S"
  shows "r = thash (smt_th s) t' \<and> smt_th s' = smt_th s \<and> (\<exists>D'. partial_rep sm_m sm_m D' s' t')"
proof -
  obtain M where M: "represents sm_m sm_m M t" "sub_smt s M" using partial_full [OF assms(1) cf(1,2)] .
  have th: "smt_th M = smt_th s" using M(2) by (simp add: sub_smt_def)
  obtain M' where M': "Update SimpleMap_store SimpleMap_store key v M = (Inr r, M')" "sub_smt s' M'"
    using Update_lifts [OF M(2) assms(2)] .
  obtain M1 where "Update SimpleMap_store SimpleMap_store key v M = (Inr (smt_root M1), M1)"
    "represents sm_m sm_m M1 t'" "smt_th M1 = smt_th M"
    using smts.Update_ok [OF M(1) refl _ _ _ _ cf(1) [folded th], where t' = t' and v = v and key = key] cf(2,3) t'
    by (auto simp: th)
  then show ?thesis
    using M' sub_partial [of M1 t' s'] representsD(3) [of sm_m sm_m M1 t'] th by (auto simp: sub_smt_def)
qed

end
