(* ===== verification/DeepProps.thy ===== *)
theory DeepProps
  imports DeepSim ProofsProps
begin

text \<open>
  The properties of deep subtrees. A light client starts from the root of a tree it does not have,
  adds branches with proofs it does not trust, and updates keys: \<open>deep_reach\<close> is that state machine.
  Whatever the proofs are, the client's root is always the root of the tree that the updates make of
  the original one and every answer by descent is right (safety); with honest updatable proofs it
  makes progress (completeness).
\<close>

section \<open>The light client\<close>

inductive deep_reach :: "hash_Hash \<Rightarrow> bytes set \<Rightarrow> mtree \<Rightarrow> simple_smt \<Rightarrow> mtree \<Rightarrow> bool"
  for h S t0 where
  start: "deep_reach h S t0
    (NewDeepSparseMerkleSubTree NewSimpleMap NewSimpleMap h (thash (newTreeHasher h) t0)) t0"
| branch: "deep_reach h S t0 s t \<Longrightarrow>
    AddBranch SimpleMap_store SimpleMap_store proof key value s = (r, s') \<Longrightarrow>
    branch_preimages (newTreeHasher h) proof (H (newTreeHasher h) key) value \<subseteq> S \<Longrightarrow>
    deep_reach h S t0 s' t"
| update: "deep_reach h S t0 s t \<Longrightarrow>
    Update SimpleMap_store SimpleMap_store key value s = (Inr r, s') \<Longrightarrow>
    t' = tupdate (H (newTreeHasher h) key) value t \<Longrightarrow>
    preimages (newTreeHasher h) t' \<subseteq> S \<Longrightarrow> deep_reach h S t0 s' t'"

lemma deep_reach_partial:
  assumes "deep_reach h S t0 s t" and h: "wf_hash h" and cf: "collision_free (newTreeHasher h) S"
    and t0: "wf_tree (pathSize (newTreeHasher h)) [] t0" "preimages (newTreeHasher h) t0 \<subseteq> S"
  shows "smt_th s = newTreeHasher h \<and> preimages (newTreeHasher h) t \<subseteq> S \<and> (\<exists>D. partial_rep sm_m sm_m D s t)"
  using assms(1)
proof (induction rule: deep_reach.induct)
  case start
  show ?case
    using h t0 by (auto simp: NewDeepSparseMerkleSubTree_def ImportSparseMerkleTree_def partial_rep_def
        NewSimpleMap_def intro!: exI [of _ "{}"])
next
  case (branch s t "proof" key "value" r s')
  then obtain D where IH: "smt_th s = newTreeHasher h" "preimages (newTreeHasher h) t \<subseteq> S"
    "partial_rep sm_m sm_m D s t" by blast
  show ?case
  proof (cases "VerifyProof proof (Root s) key value (hasher (smt_th s)) = Inr True")
    case True
    show ?thesis
      using smts.AddBranch_ok [OF IH(3) refl _ _ _ _ _ _ True, of S] branch.hyps(2,3) IH cf by auto
  next
    case False
    then show ?thesis
      using AddBranch_bad [OF partial_repD(1) [OF IH(3)] False] branch.hyps(2) IH by auto
  qed
next
  case (update s t key "value" r s' t')
  then obtain D where IH: "smt_th s = newTreeHasher h" "preimages (newTreeHasher h) t \<subseteq> S"
    "partial_rep sm_m sm_m D s t" by blast
  show ?case using deep_update [OF IH(3) update.hyps(2), of t' S] update.hyps(3,4) IH cf by auto
qed

section \<open>Safety\<close>

lemma HasDescend_Get: "HasDescend nI vI smt key = bindR (GetDescend nI vI smt key) (\<lambda>val. Inr ([] \<noteq> val))"
  by (simp add: HasDescend_def defaultValue_def)

text \<open>
  C18. Light-client safety: whatever proofs an adversary supplies, in every reachable state of the deep
  subtree its root is the root of the tree that the completed updates make of the original tree,
  and GetDescend and HasDescend answer with what that tree holds or report a missing node.
\<close>

theorem light_client_safe:
  assumes "wf_hash h" and "collision_free (newTreeHasher h) S"
    and "wf_tree (pathSize (newTreeHasher h)) [] t0" and "preimages (newTreeHasher h) t0 \<subseteq> S"
    and "deep_reach h S t0 s t"
  shows "Root s = thash (newTreeHasher h) t \<and>
    (GetDescend SimpleMap_store SimpleMap_store s key =
       Inr (case tmap t (H (newTreeHasher h) key) of None \<Rightarrow> [] | Some v \<Rightarrow> v) \<and>
     HasDescend SimpleMap_store SimpleMap_store s key = Inr (H (newTreeHasher h) key \<in> dom (tmap t)) \<or>
     (\<exists>k. GetDescend SimpleMap_store SimpleMap_store s key = Inl (InvalidKeyError k) \<and>
          HasDescend SimpleMap_store SimpleMap_store s key = Inl (InvalidKeyError k)))"
proof -
  obtain D where th: "smt_th s = newTreeHasher h" and S: "preimages (newTreeHasher h) t \<subseteq> S"
    and rep: "partial_rep sm_m sm_m D s t"
    using deep_reach_partial [OF assms(5,1-4)] by blast
  note r = partial_repD [OF rep]
  show ?thesis
    using smts.GetDescend_cases [OF rep refl _ _ _ S [folded th], of key] assms(2) r(3)
      wf_tree_keys [OF r(2), of "H (newTreeHasher h) key"]
    by (auto simp: th Root_def HasDescend_Get split: option.splits)
qed

text \<open>A concrete light client: the root of a tree with two keys, and the branch of one of them.\<close>

definition toy_branch :: SparseMerkleProof where
  "toy_branch = tree_proof toy_th toy2_tree (H toy_th [1]) True"

definition toy_preimages :: "bytes set" where
  "toy_preimages = preimages toy_th toy2_tree \<union> branch_preimages toy_th toy_branch (H toy_th [1]) [10] \<union>
     preimages toy_th (tupdate (H toy_th [1]) [11] toy2_tree)"

definition toy_deep :: simple_smt where
  "toy_deep = snd (AddBranch SimpleMap_store SimpleMap_store toy_branch [1] [10]
     (NewDeepSparseMerkleSubTree NewSimpleMap NewSimpleMap toy (thash toy_th toy2_tree)))"

lemma toy_deep_ok:
  "collision_free toy_th toy_preimages" "wf_tree (pathSize toy_th) [] toy2_tree"
  "preimages toy_th toy2_tree \<subseteq> toy_preimages"
  "preimages toy_th (tupdate (H toy_th [1]) [11] toy2_tree) \<subseteq> toy_preimages"
  by code_simp (use representsD(2) [OF toy2_represents(1)] toy2_represents(2) in \<open>auto simp: toy_preimages_def\<close>)

lemma toy_deep_reach: "deep_reach toy toy_preimages toy2_tree toy_deep toy2_tree"
  by (rule deep_reach.branch [OF deep_reach.start, of _ _ _ _ _ "fst (AddBranch SimpleMap_store SimpleMap_store toy_branch [1] [10]
      (NewDeepSparseMerkleSubTree NewSimpleMap NewSimpleMap toy (thash toy_th toy2_tree)))"])
     (auto simp: toy_deep_def toy_preimages_def)

theorem light_client_safe_witness:
  "Root toy_deep = thash toy_th toy2_tree \<and> GetDescend SimpleMap_store SimpleMap_store toy_deep [1] = Inr [10] \<and>
   HasDescend SimpleMap_store SimpleMap_store toy_deep [1] = Inr True"
proof -
  have "GetDescend SimpleMap_store SimpleMap_store toy_deep [1] = Inr [10]"
    "H toy_th [1] \<in> dom (tmap toy2_tree)" by code_simp+
  then show ?thesis
    using light_client_safe [OF wf_toy toy_deep_ok(1-3) toy_deep_reach, of "[1]"] by auto
qed

section \<open>Progress\<close>

lemma branch_added:
  fixes key v :: bytes
  assumes rep: "partial_rep sm_m sm_m D s t" and full: "represents sm_m sm_m full t" "smt_th full = smt_th s"
    and cf: "collision_free (smt_th s) S" "preimages (smt_th s) t \<subseteq> S"
  defines "k \<equiv> H (smt_th s) key" and "p \<equiv> tree_proof (smt_th s) t (H (smt_th s) key) True"
  obtains "value" s' D' where "ProveUpdatable SimpleMap_store full key = Inr p"
    "Get SimpleMap_store full key = Inr value" "AddBranch SimpleMap_store SimpleMap_store p key value s = (Inr (), s')"
    "partial_rep sm_m sm_m D' s' t" "smt_th s' = smt_th s" "known (smt_th s) D' (sm_m (smt_values s')) t k"
    "branch_ready sm_m D' s' t k v" "value = (case tmap t k of None \<Rightarrow> [] | Some v \<Rightarrow> v)"
proof -
  let ?th = "smt_th s" and ?val = "case tmap t k of None \<Rightarrow> [] | Some v \<Rightarrow> v"
  note r = partial_repD [OF rep]
  have k: "length k = pathSize ?th" using r(1) by (simp add: k_def)
  have cf': "collision_free ?th (preimages ?th t)" by (rule collision_free_subset [OF cf])
  have prove: "ProveUpdatable SimpleMap_store full key = Inr p" "Get SimpleMap_store full key = Inr ?val"
    using smts.Prove_ok [OF full(1) refl, of key True] smts.Get_ok [OF full(1) refl, of key] cf' full(2)
    by (simp_all add: ProveUpdatable_def ProveUpdatableForRoot_def p_def k_def)
  have ver: "VerifyProof p (Root s) key ?val (hasher ?th) = Inr True"
    using tree_proof_verifies [OF r(1,2), of key True] r(3) by (simp add: p_def k_def Root_def)
  note tp = tree_proof_branch [OF r(1,2) k, of True, folded p_def [folded k_def]]
  have claim: "claim ?th p k ?val = Some (focus_data ?th (focus (bits k) t))"
    using tree_proof_claim [OF r(1,2) k, of True] by (simp add: p_def k_def)
  have pre: "branch_preimages ?th p (H ?th key) ?val \<subseteq> S"
    using tp(2) cf(2) by (auto simp: p_def k_def)
  obtain d s' where s': "AddBranch SimpleMap_store SimpleMap_store p key ?val s = (Inr (), s')"
    "claim ?th p (H ?th key) ?val = Some d" "partial_rep sm_m sm_m (D \<union> branch_data ?th p (H ?th key) d) s' t"
    "smt_th s' = ?th" "sm_m (smt_values s') =
      (if ?val = [] then sm_m (smt_values s) else (sm_m (smt_values s))(H ?th key \<mapsto> ?val))"
    using smts.AddBranch_ok [OF rep refl _ _ _ cf pre ver] by blast
  have d: "d = focus_data ?th (focus (bits k) t)" using s'(2) claim by (simp add: k_def)
  have bd: "branch_data ?th p k d = branch_nodes ?th (bits k) t \<union> sibling_nodes ?th (bits k) t"
    using tp(1) d by (simp add: p_def k_def)
  have val: "tmap t k \<noteq> None \<Longrightarrow> sm_m (smt_values s') k = tmap t k"
    using s'(5) wf_tree_keys [OF r(2), of k] by (auto simp: k_def split: if_splits)
  show thesis
    using that [OF prove s'(1,3,4)] bd val s'(4)
    by (auto simp: known_def branch_ready_def k_def)
qed

text \<open>
  C19. Light-client progress: on any reachable deep subtree of a tree, adding the updatable proof that
  the holder of the complete tree makes for a key succeeds; afterwards GetDescend returns what Get
  returns on the complete tree, and Update of the key succeeds with the root the complete tree gets.
\<close>

theorem light_client_progress:
  assumes "wf_hash h" and "collision_free (newTreeHasher h) S"
    and "wf_tree (pathSize (newTreeHasher h)) [] t0" and "preimages (newTreeHasher h) t0 \<subseteq> S"
    and "deep_reach h S t0 s t"
    and "represents sm_m sm_m full t" and "smt_th full = newTreeHasher h"
    and "preimages (newTreeHasher h) (tupdate (H (newTreeHasher h) key) v t) \<subseteq> S"
  shows "\<exists>proof value s' root. ProveUpdatable SimpleMap_store full key = Inr proof \<and>
    Get SimpleMap_store full key = Inr value \<and>
    AddBranch SimpleMap_store SimpleMap_store proof key value s = (Inr (), s') \<and>
    GetDescend SimpleMap_store SimpleMap_store s' key = Inr value \<and>
    fst (Update SimpleMap_store SimpleMap_store key v s') = Inr root \<and>
    fst (Update SimpleMap_store SimpleMap_store key v full) = Inr root"
proof -
  let ?th = "newTreeHasher h" and ?t = "tupdate (H (newTreeHasher h) key) v t"
  obtain D where th: "smt_th s = ?th" and S: "preimages ?th t \<subseteq> S" and rep: "partial_rep sm_m sm_m D s t"
    using deep_reach_partial [OF assms(5,1-4)] by blast
  have cf: "collision_free (smt_th s) S" "preimages (smt_th s) t \<subseteq> S" "smt_th full = smt_th s"
    using assms(2,7) S th by simp_all
  obtain "proof" "value" s' D' where b: "ProveUpdatable SimpleMap_store full key = Inr proof"
    "Get SimpleMap_store full key = Inr value" "AddBranch SimpleMap_store SimpleMap_store proof key value s = (Inr (), s')"
    "partial_rep sm_m sm_m D' s' t" "smt_th s' = ?th" "known ?th D' (sm_m (smt_values s')) t (H ?th key)"
    "branch_ready sm_m D' s' t (H ?th key) v" "value = (case tmap t (H ?th key) of None \<Rightarrow> [] | Some v \<Rightarrow> v)"
    using branch_added [OF rep assms(6) cf(3,1,2), of key v] th by metis
  have "GetDescend SimpleMap_store SimpleMap_store s' key = Inr value"
    using smts.GetDescend_cases [OF b(4) refl, where S = S and key = key] b(5,6,8) assms(2) S by auto
  moreover have "fst (Update SimpleMap_store SimpleMap_store key v s') = Inr (thash ?th ?t)"
    using smts.Update_partial [OF b(4) refl, where S = S and v = v and key = key and t' = ?t] b(5,7) assms(2,8) S
    by (auto dest!: partial_repD(3))
  moreover have "fst (Update SimpleMap_store SimpleMap_store key v full) = Inr (thash ?th ?t)"
    using smts.Update_ok [OF assms(6) refl, where S = S and v = v and key = key and t' = ?t] assms(2,7,8) S
    by (auto dest!: representsD(3))
  ultimately show ?thesis using b(1-3) by blast
qed

theorem light_client_progress_witness:
  "\<exists>proof value s' root. ProveUpdatable SimpleMap_store toy2 [1] = Inr proof \<and>
    Get SimpleMap_store toy2 [1] = Inr value \<and>
    AddBranch SimpleMap_store SimpleMap_store proof [1] value toy_deep = (Inr (), s') \<and>
    GetDescend SimpleMap_store SimpleMap_store s' [1] = Inr value \<and>
    fst (Update SimpleMap_store SimpleMap_store [1] [11] s') = Inr root \<and>
    fst (Update SimpleMap_store SimpleMap_store [1] [11] toy2) = Inr root"
  by (rule light_client_progress [OF wf_toy toy_deep_ok(1-3) toy_deep_reach toy2_represents(1,2) toy_deep_ok(4)])

section \<open>Complete trees and bad proofs\<close>

text \<open>
  C20. On a complete tree GetDescend and HasDescend agree with Get and Has for every key.
\<close>

theorem GetDescend_complete:
  fixes smt :: simple_smt
  assumes "represents sm_m sm_m smt t" and "collision_free (smt_th smt) (preimages (smt_th smt) t)"
  shows "GetDescend SimpleMap_store SimpleMap_store smt key = Get SimpleMap_store smt key \<and>
    HasDescend SimpleMap_store SimpleMap_store smt key = Has SimpleMap_store smt key"
proof -
  note r = representsD [OF assms(1)]
  have "known (smt_th smt) (node_set (smt_th smt) t) (sm_m (smt_values smt)) t (H (smt_th smt) key)"
    using branch_nodes_sub r(5) by (auto simp: known_def)
  then have "GetDescend SimpleMap_store SimpleMap_store smt key = Get SimpleMap_store smt key"
    using smts.GetDescend_cases [OF represents_partial [OF assms(1)] refl _ _ assms(2) order_refl, of key]
      smts.Get_ok [OF assms(1) refl _ assms(2), of key] by auto
  then show ?thesis by (simp add: HasDescend_def Has_def)
qed

theorem GetDescend_complete_witness:
  "GetDescend SimpleMap_store SimpleMap_store toy2 [70] = Get SimpleMap_store toy2 [70] \<and>
   HasDescend SimpleMap_store SimpleMap_store toy2 [70] = Has SimpleMap_store toy2 [70]"
proof -
  have "collision_free toy_th (preimages toy_th toy2_tree)" by code_simp
  then show ?thesis
    using GetDescend_complete [OF toy2_represents(1), of "[70]"] toy2_represents(2) by simp
qed

text \<open>
  C21. AddBranch with a proof that does not verify against the current root returns ErrBadProof and
  changes neither store nor root, whatever the stores are.
\<close>

theorem AddBranch_rejects:
  assumes "wf_th (smt_th dsmst)"
    and "VerifyProof proof (Root dsmst) key value (hasher (smt_th dsmst)) \<noteq> Inr True"
  shows "AddBranch nI vI proof key value dsmst = (Inl ErrBadProof, dsmst)"
  by (rule AddBranch_bad [OF assms])

theorem AddBranch_rejects_witness:
  "AddBranch SimpleMap_store SimpleMap_store toy_branch [1] [12] toy_deep = (Inl ErrBadProof, toy_deep)"
proof (rule AddBranch_rejects)
  show "wf_th (smt_th toy_deep)" using deep_reach_partial [OF toy_deep_reach wf_toy toy_deep_ok(1-3)] by simp
  show "VerifyProof toy_branch (Root toy_deep) [1] [12] (hasher (smt_th toy_deep)) \<noteq> Inr True" by code_simp
qed

end
