(* ===== verification/SHA256.thy ===== *)
theory SHA256
  imports Prelude
begin

unbundle bit_operations_syntax

text \<open>
  The digest \<open>sha256.Sum256\<close> of Go's standard library, which \<open>src/sharded.go\<close> uses to route keys:
  FIPS 180-4 on byte strings, with the 32-bit words of the standard. A digest is always 32 bytes.
\<close>

section \<open>Constants and word functions\<close>

text \<open>
  The constants as FIPS 180-4 defines them: the first 32 bits of the fractional parts of the cube
  roots of the first 64 primes (the round constants) and of the square roots of the first 8 primes
  (the initial hash value). \<open>iroot\<close> finds an integer root bit by bit; 36 bits hold the roots of
  primes below 2048 scaled by \<open>2 ^ 32\<close>.
\<close>

primrec iroot :: "nat \<Rightarrow> int \<Rightarrow> nat \<Rightarrow> int \<Rightarrow> int" where
  "iroot e x 0 r = r"
| "iroot e x (Suc n) r = iroot e x n (if (r + 2 ^ n) ^ e \<le> x then r + 2 ^ n else r)"

definition sha_frac :: "nat \<Rightarrow> nat \<Rightarrow> 32 word" where
  "sha_frac e p = word_of_int (iroot e (int p * 2 ^ (32 * e)) 36 0)"

definition sha_primes :: "nat list" where
  "sha_primes = filter (\<lambda>n. list_all (\<lambda>d. n mod d \<noteq> 0) [2..<n]) [2..<312]"

definition sha_K :: "32 word list" where
  "sha_K = map (sha_frac 3) sha_primes"

definition sha_H0 :: "32 word list" where
  "sha_H0 = map (sha_frac 2) [2, 3, 5, 7, 11, 13, 17, 19]"

definition rotr :: "nat \<Rightarrow> 32 word \<Rightarrow> 32 word" where
  "rotr n x = drop_bit n x OR push_bit (32 - n) x"

definition sha_Ch :: "32 word \<Rightarrow> 32 word \<Rightarrow> 32 word \<Rightarrow> 32 word" where
  "sha_Ch x y z = (x AND y) XOR (NOT x AND z)"

definition sha_Maj :: "32 word \<Rightarrow> 32 word \<Rightarrow> 32 word \<Rightarrow> 32 word" where
  "sha_Maj x y z = (x AND y) XOR (x AND z) XOR (y AND z)"

definition Sigma0 :: "32 word \<Rightarrow> 32 word" where
  "Sigma0 x = rotr 2 x XOR rotr 13 x XOR rotr 22 x"

definition Sigma1 :: "32 word \<Rightarrow> 32 word" where
  "Sigma1 x = rotr 6 x XOR rotr 11 x XOR rotr 25 x"

definition sigma0 :: "32 word \<Rightarrow> 32 word" where
  "sigma0 x = rotr 7 x XOR rotr 18 x XOR drop_bit 3 x"

definition sigma1 :: "32 word \<Rightarrow> 32 word" where
  "sigma1 x = rotr 17 x XOR rotr 19 x XOR drop_bit 10 x"

section \<open>Padding and blocks\<close>

definition be_bytes :: "nat \<Rightarrow> int \<Rightarrow> bytes" where
  "be_bytes w x = rev (map (\<lambda>i. word_of_int (x div 256 ^ i)) [0..<w])"

definition sha_pad :: "bytes \<Rightarrow> bytes" where
  "sha_pad msg = msg @ [0x80] @ replicate ((119 - length msg mod 64) mod 64) 0 @ be_bytes 8 (8 * int (length msg))"

definition be_word :: "bytes \<Rightarrow> 32 word" where
  "be_word bs = foldl (\<lambda>a b. 256 * a + ucast b) 0 bs"

fun sha_words :: "bytes \<Rightarrow> 32 word list" where
  "sha_words (a # b # c # d # bs) = be_word [a, b, c, d] # sha_words bs"
| "sha_words _ = []"

fun sha_blocks :: "nat \<Rightarrow> bytes \<Rightarrow> bytes list" where
  "sha_blocks 0 bs = []"
| "sha_blocks (Suc n) bs = take 64 bs # sha_blocks n (drop 64 bs)"

section \<open>Compression\<close>

text \<open>The message schedule, newest word first.\<close>

fun sha_extend :: "nat \<Rightarrow> 32 word list \<Rightarrow> 32 word list" where
  "sha_extend 0 ws = ws"
| "sha_extend (Suc n) ws =
     sha_extend n ((sigma1 (ws ! 1) + ws ! 6 + sigma0 (ws ! 14) + ws ! 15) # ws)"

fun sha_round :: "32 word list \<Rightarrow> 32 word \<times> 32 word \<Rightarrow> 32 word list" where
  "sha_round [a, b, c, d, e, f, g, h] (k, w) =
     (let t1 = h + Sigma1 e + sha_Ch e f g + k + w;
          t2 = Sigma0 a + sha_Maj a b c
      in [t1 + t2, a, b, c, d + t1, e, f, g])"
| "sha_round vs kw = vs"

definition sha_compress :: "32 word list \<Rightarrow> bytes \<Rightarrow> 32 word list" where
  "sha_compress hs block =
     (let ws = rev (sha_extend 48 (rev (sha_words block)))
      in map2 (+) hs (foldl sha_round hs (zip sha_K ws)))"

definition Sum256 :: "bytes \<Rightarrow> bytes" where
  "Sum256 msg =
     (let p = sha_pad msg
      in concat (map (\<lambda>w. be_bytes 4 (uint w)) (foldl sha_compress sha_H0 (sha_blocks (length p div 64) p))))"

section \<open>The constants\<close>

lemma iroot_bounds:
  assumes "r ^ e \<le> x" "x < (r + 2 ^ n) ^ e"
  shows "iroot e x n r ^ e \<le> x \<and> x < (iroot e x n r + 1) ^ e"
  using assms
proof (induction n arbitrary: r)
  case (Suc n)
  then show ?case
    using Suc.IH [of "r + 2 ^ n"] Suc.IH [of r] by (simp add: algebra_simps not_le)
qed simp

text \<open>\<open>sha_frac\<close> is the scaled root rounded down, reduced to its 32 fractional bits.\<close>

lemma sha_frac_root:
  assumes "0 < e" "p < 2 ^ (4 * e)"
  obtains r where "sha_frac e p = word_of_int r" "r ^ e \<le> int p * 2 ^ (32 * e)"
    "int p * 2 ^ (32 * e) < (r + 1) ^ e"
proof (rule that)
  have "int p < 2 ^ (4 * e)" using assms(2) by (metis of_nat_less_iff of_nat_numeral of_nat_power)
  then have "int p * 2 ^ (32 * e) < 2 ^ (4 * e) * 2 ^ (32 * e)" by simp
  also have "\<dots> = 2 ^ (36 * e)" by (simp flip: power_add)
  also have "\<dots> = (0 + 2 ^ 36) ^ e" by (simp only: power_mult add_0)
  finally have "int p * 2 ^ (32 * e) < (0 + 2 ^ 36) ^ e" .
  then have b: "iroot e (int p * 2 ^ (32 * e)) 36 0 ^ e \<le> int p * 2 ^ (32 * e) \<and>
      int p * 2 ^ (32 * e) < (iroot e (int p * 2 ^ (32 * e)) 36 0 + 1) ^ e"
    using assms(1) by (intro iroot_bounds) (simp_all add: zero_power)
  show "iroot e (int p * 2 ^ (32 * e)) 36 0 ^ e \<le> int p * 2 ^ (32 * e)"
    "int p * 2 ^ (32 * e) < (iroot e (int p * 2 ^ (32 * e)) 36 0 + 1) ^ e"
    using b by simp_all
qed (simp add: sha_frac_def)

section \<open>Shape\<close>

lemma length_be_bytes [simp]: "length (be_bytes w x) = w"
  by (simp add: be_bytes_def)

lemma length_sha_pad: "length (sha_pad msg) mod 64 = 0"
proof -
  define m where "m = length msg mod 64"
  have m: "m < 64" by (simp add: m_def)
  have "(m + 1 + (119 - m) mod 64 + 8) mod 64 = 0"
  proof (cases "m \<le> 55")
    case True
    then have "(119 - m) mod 64 = 55 - m" by (simp add: le_mod_geq)
    then show ?thesis using True by simp
  next
    case False
    then have "(119 - m) mod 64 = 119 - m" by simp
    then show ?thesis using m by simp
  qed
  moreover have "length (sha_pad msg) = 64 * (length msg div 64) + (m + 1 + (119 - m) mod 64 + 8)"
    by (simp add: sha_pad_def m_def)
  ultimately show ?thesis by (simp only: mod_mult_self4)
qed

lemma length_sha_round [simp]: "length (sha_round vs kw) = length vs"
  by (cases "(vs, kw)" rule: sha_round.cases) (auto simp: Let_def)

lemma length_sha_rounds [simp]: "length (foldl sha_round vs kws) = length vs"
  by (induction kws arbitrary: vs) auto

lemma length_sha_compress [simp]: "length (sha_compress hs block) = length hs"
  by (simp add: sha_compress_def Let_def)

lemma length_Sum256 [simp]: "length (Sum256 msg) = 32"
proof -
  have "length (foldl sha_compress hs bs) = length hs" for hs bs by (induction bs arbitrary: hs) auto
  then show ?thesis
    by (simp add: Sum256_def Let_def length_concat comp_def sum_list_triv) (simp add: sha_H0_def)
qed

end
