(* ===== verification/Sharded.thy ===== *)
theory Sharded
  imports Bulk SHA256
begin

unbundle bit_operations_syntax

text \<open>
  Model of \<open>src/sharded.go\<close>: N independent sparse Merkle trees, keys routed by the high bits of
  their SHA-256 digest, a combined root over the shard roots, and a bulk update that fans out to
  the shards. The choices of the Go runtime (GOMAXPROCS, which pooled buffer is handed out, how the
  goroutines interleave) are arguments: a schedule lists the goroutines in the order in which
  they make their steps, and \<open>wg.Wait\<close> lets those that are not done finish.
\<close>

record ('n, 'v) ShardedSMT =
  shards :: "('n, 'v) SparseMerkleTree list"
  shardBits :: "64 word"
  hasherFn :: "unit \<Rightarrow> hash_Hash"

section \<open>Construction\<close>

function shard_bits_loop :: "int \<Rightarrow> 64 word \<Rightarrow> 64 word" where
  "shard_bits_loop x acc = (if x > 1 then shard_bits_loop (drop_bit 1 x) (acc + 1) else acc)"
  by pat_completeness auto
termination
  by (relation "measure (\<lambda>(x, _). nat x)") (auto simp: drop_bit_Suc)

declare shard_bits_loop.simps [simp del]

definition NewShardedSMT :: "int \<Rightarrow> (nat \<Rightarrow> 'n \<times> 'v) \<Rightarrow> (unit \<Rightarrow> hash_Hash) \<Rightarrow>
    ('n, 'v) ShardedSMT result" where
  "NewShardedSMT shardCount mapstoreFactory hasherFactory =
     (if shardCount < 1 \<or> shardCount > 256 then Inl ErrInvalidShardCount
      else if shardCount AND (shardCount - 1) \<noteq> 0 then Inl ErrInvalidShardCount
      else
        Inr \<lparr>shards = map (\<lambda>i. let (nodes, values) = mapstoreFactory i
                                in NewSparseMerkleTree nodes values (hasherFactory ()) [])
                       [0..<nat shardCount],
             shardBits = shard_bits_loop shardCount 0,
             hasherFn = hasherFactory\<rparr>)"

section \<open>Routing\<close>

text \<open>\<open>h[0] >> (8 - shardBits)\<close> on a byte; the difference is an unsigned word.\<close>

definition route :: "64 word \<Rightarrow> bytes \<Rightarrow> byte" where
  "route sb key = drop_bit (unat (8 - sb)) (Sum256 key ! 0)"

definition shardOf :: "('n, 'v) ShardedSMT \<Rightarrow> bytes \<Rightarrow> nat" where
  "shardOf s key = unat (route (shardBits s) key)"

section \<open>The combined root\<close>

text \<open>The hasher is reset before each merge; the state it is left in is passed on.\<close>

definition mergeHash :: "hash_Hash \<Rightarrow> bytes \<Rightarrow> bytes \<Rightarrow> bytes \<times> hash_Hash" where
  "mergeHash h left' right' =
     (let h' = hash_Write (hash_Write (hash_Write (hash_Reset h) nodePrefix) left') right'
      in (hash_Sum h' [], h'))"

fun merge_level :: "hash_Hash \<Rightarrow> bytes list \<Rightarrow> bytes list \<times> hash_Hash" where
  "merge_level h [] = ([], h)"
| "merge_level h [x] = (let (m, h) = mergeHash h x x in ([m], h))"
| "merge_level h (x # y # level) =
     (let (m, h) = mergeHash h x y; (next, h) = merge_level h level in (m # next, h))"

lemma length_merge_level [simp]: "length (fst (merge_level h level)) = (length level + 1) div 2"
proof (induction h level rule: merge_level.induct)
  case (3 h x y level)
  then show ?case by (cases "mergeHash h x y") (simp add: Let_def case_prod_beta)
qed (simp_all add: Let_def case_prod_beta)

function merge_levels :: "hash_Hash \<Rightarrow> bytes list \<Rightarrow> bytes list" where
  "merge_levels h level =
     (if length level > 1 then merge_levels (snd (merge_level h level)) (fst (merge_level h level)) else level)"
  by pat_completeness auto
termination
  by (relation "measure (\<lambda>(h, level). length level)") auto

declare merge_levels.simps [simp del]

definition computeRoot :: "('n, 'v) ShardedSMT \<Rightarrow> bytes result" where
  "computeRoot s =
     (let level = map Root (shards s); h = hasherFn s ()
      in go_index (merge_levels h level) 0)"

definition Sharded_Root :: "('n, 'v) ShardedSMT \<Rightarrow> bytes result" where
  "Sharded_Root s =
     (case computeRoot s of
        Inl e \<Rightarrow> Inl (Panic ''sharded smt: computeRoot failed'')
      | Inr r \<Rightarrow> Inr r)"

definition ShardRoot :: "('n, 'v) ShardedSMT \<Rightarrow> nat \<Rightarrow> bytes result" where
  "ShardRoot s idx = bindR (go_index (shards s) idx) (\<lambda>sh. Inr (Root sh))"

definition ShardCount :: "('n, 'v) ShardedSMT \<Rightarrow> nat" where
  "ShardCount s = length (shards s)"

definition Equal :: "bytes \<Rightarrow> bytes \<Rightarrow> bool" where
  "Equal a b = (a = b)"

section \<open>Update and Get\<close>

definition Sharded_Update :: "'n MapStore \<Rightarrow> 'v MapStore \<Rightarrow> bytes \<Rightarrow> bytes \<Rightarrow>
    (('n, 'v) ShardedSMT, bytes) op" where
  "Sharded_Update nI vI key value s =
     (let idx = shardOf s key in
      case go_index (shards s) idx of
        Inl e \<Rightarrow> (Inl e, s)
      | Inr shard \<Rightarrow>
          let (r, shard') = Update nI vI key value shard;
              s' = s\<lparr>shards := (shards s)[idx := shard']\<rparr>
          in case r of Inl e \<Rightarrow> (Inl e, s') | Inr _ \<Rightarrow> (computeRoot s', s'))"

definition Sharded_Get :: "'v MapStore \<Rightarrow> ('n, 'v) ShardedSMT \<Rightarrow> bytes \<Rightarrow> bytes result" where
  "Sharded_Get vI s key =
     (let idx = shardOf s key in bindR (go_index (shards s) idx) (\<lambda>shard. Get vI shard key))"

section \<open>Pooled scratch\<close>

text \<open>
  A bucket is a Go slice with its capacity. Appending beyond the capacity reallocates; the new
  capacity is the runtime's business, the model takes the smallest.
\<close>

record bucket =
  b_elems :: "bytes list"
  b_cap :: nat

definition b_append :: "bucket \<Rightarrow> bytes \<Rightarrow> bucket" where
  "b_append b x = \<lparr>b_elems = b_elems b @ [x], b_cap = max (b_cap b) (length (b_elems b) + 1)\<rparr>"

definition b_reset :: "bucket \<Rightarrow> bucket" where
  "b_reset b = b\<lparr>b_elems := take 0 (b_elems b)\<rparr>"

record shardScratch =
  sc_k :: "bucket list"
  sc_v :: "bucket list"

text \<open>\<open>shardScratchPool\<close> maps a shard count to its pool.\<close>

type_synonym scratch_pools = "nat \<rightharpoonup> shardScratch list"

definition getShardScratch :: "nat \<Rightarrow> scratch_pools \<Rightarrow> nat \<Rightarrow> (bucket list \<times> bucket list) \<times> scratch_pools" where
  "getShardScratch n pools pick =
     (let nil = \<lparr>b_elems = [], b_cap = 0\<rparr>;
          new = \<lparr>sc_k = replicate n nil, sc_v = replicate n nil\<rparr>;
          pool = (case pools n of None \<Rightarrow> [] | Some pool \<Rightarrow> pool);
          (s, pool') = pool_Get new pool pick
      in ((sc_k s, sc_v s), pools(n \<mapsto> pool')))"

definition putShardScratch :: "nat \<Rightarrow> bucket list \<Rightarrow> bucket list \<Rightarrow> scratch_pools \<Rightarrow> scratch_pools" where
  "putShardScratch n bucketK bucketV pools =
     (case pools n of
        None \<Rightarrow> pools
      | Some pool \<Rightarrow> pools(n \<mapsto> \<lparr>sc_k = map b_reset bucketK, sc_v = map b_reset bucketV\<rparr> # pool))"

text \<open>The pool of index buffers holds the backing arrays, whose bytes are stale.\<close>

definition getShardIdxBuf :: "nat \<Rightarrow> bytes list \<Rightarrow> nat \<Rightarrow> bytes \<times> bytes list" where
  "getShardIdxBuf n pool pick =
     (let fresh = replicate (((n + 4095) div 4096) * 4096) 0 in
      if pick < length pool then
        let buf = pool ! pick; pool' = take pick pool @ drop (Suc pick) pool
        in if length buf \<ge> n then (buf, pool') else (fresh, pool')
      else (fresh, pool))"

definition putShardIdxBuf :: "bytes \<Rightarrow> bytes list \<Rightarrow> bytes list" where
  "putShardIdxBuf buf pool = buf # pool"

section \<open>Parallel routing\<close>

text \<open>A worker is the range of indices it has still to fill.\<close>

type_synonym worker = "nat \<times> nat"

definition idx_chunks :: "nat \<Rightarrow> nat \<Rightarrow> worker list" where
  "idx_chunks n procs =
     (let chunks = (if procs > 16 then 16 else procs);
          chunks = (if chunks > n then n else chunks);
          chunkSize = (n + chunks - 1) div chunks
      in filter (\<lambda>(start, end). start < end)
           (map (\<lambda>c. let start = c * chunkSize; end = start + chunkSize
                     in (start, if end > n then n else end)) [0..<chunks]))"

definition idx_step :: "bytes list \<Rightarrow> 64 word \<Rightarrow> nat \<Rightarrow> bytes \<times> worker list \<Rightarrow> bytes \<times> worker list" where
  "idx_step keys sb g st =
     (let (idxs, ws) = st in
      if g < length ws \<and> fst (ws ! g) < snd (ws ! g)
      then let (i, end) = ws ! g in (idxs[i := route sb (keys ! i)], ws[g := (i + 1, end)])
      else st)"

text \<open>The schedule on which all workers finish.\<close>

definition idx_wait :: "worker list \<Rightarrow> nat list" where
  "idx_wait ws = concat (map (\<lambda>g. replicate (snd (ws ! g) - fst (ws ! g)) g) [0..<length ws])"

definition parallelComputeShardIdxs :: "nat \<Rightarrow> nat list \<Rightarrow> bytes \<Rightarrow> bytes list \<Rightarrow> 64 word \<Rightarrow> bytes" where
  "parallelComputeShardIdxs procs sched idxs keys sb =
     (let n = length idxs in
      if n = 0 then idxs
      else if n < 1024
      then fold (\<lambda>i idxs. idxs[i := route sb (keys ! i)]) [0..<length keys] idxs
      else
        let st = fold (idx_step keys sb) sched (idxs, idx_chunks n procs)
        in fst (fold (idx_step keys sb) (idx_wait (snd st)) st))"

section \<open>Bulk update\<close>

definition b_presize :: "nat \<Rightarrow> bucket \<times> bucket \<Rightarrow> bucket \<times> bucket" where
  "b_presize hint kv =
     (if b_cap (fst kv) < hint then (\<lparr>b_elems = [], b_cap = hint\<rparr>, \<lparr>b_elems = [], b_cap = hint\<rparr>) else kv)"

fun bucket_loop :: "byte list \<Rightarrow> (bytes \<times> bytes) list \<Rightarrow> bucket list \<Rightarrow> bucket list \<Rightarrow>
    (bucket list \<times> bucket list) result" where
  "bucket_loop (i # is) ((key, value) # kvs) bucketK bucketV =
     (let idx = unat i in
      bindR (go_index bucketK idx) (\<lambda>bk.
      bindR (go_index bucketV idx) (\<lambda>bv.
        bucket_loop is kvs (bucketK[idx := b_append bk key]) (bucketV[idx := b_append bv value]))))"
| "bucket_loop _ _ bucketK bucketV = Inr (bucketK, bucketV)"

text \<open>
  The goroutine of a shard: about to run its batch, about to report its error under the mutex, or
  done. A panic of a goroutine ends the program, so it prevails over any error.
\<close>

datatype task = Pending "bytes list" "bytes list" | Failed go_error | Finished

definition report :: "go_error option \<Rightarrow> go_error \<Rightarrow> go_error option" where
  "report gotErr e =
     (case gotErr of
        None \<Rightarrow> Some e
      | Some e' \<Rightarrow> if is_panic e \<and> \<not> is_panic e' then Some e else gotErr)"

definition fan_step :: "'n MapStore \<Rightarrow> 'v MapStore \<Rightarrow> nat \<Rightarrow>
    ('n, 'v) SparseMerkleTree list \<times> task list \<times> go_error option \<Rightarrow>
    ('n, 'v) SparseMerkleTree list \<times> task list \<times> go_error option" where
  "fan_step nI vI g st =
     (let (shs, tasks, gotErr) = st in
      if g < length tasks then
        case tasks ! g of
          Pending ks vs \<Rightarrow>
            (case BulkUpdate nI vI ks vs (shs ! g) of
               (Inl e, sh) \<Rightarrow> (shs[g := sh], tasks[g := Failed e], gotErr)
             | (Inr _, sh) \<Rightarrow> (shs[g := sh], tasks[g := Finished], gotErr))
        | Failed e \<Rightarrow> (shs, tasks[g := Finished], report gotErr e)
        | Finished \<Rightarrow> st
      else st)"

definition fan_wait :: "task list \<Rightarrow> nat list" where
  "fan_wait tasks = concat (map (\<lambda>g. [g, g]) [0..<length tasks])"

definition fan_out :: "'n MapStore \<Rightarrow> 'v MapStore \<Rightarrow> nat list \<Rightarrow> bucket list \<Rightarrow> bucket list \<Rightarrow>
    ('n, 'v) SparseMerkleTree list \<Rightarrow> ('n, 'v) SparseMerkleTree list \<times> go_error option" where
  "fan_out nI vI sched bucketK bucketV shs =
     (let tasks = map (\<lambda>i. if length (b_elems (bucketK ! i)) = 0 then Finished
                           else Pending (b_elems (bucketK ! i)) (b_elems (bucketV ! i))) [0..<length shs];
          st = fold (fan_step nI vI) sched (shs, tasks, None);
          (shs', _, gotErr) = fold (fan_step nI vI) (fan_wait tasks) st
      in (shs', gotErr))"

text \<open>What the runtime chooses during a call, and the two global pools.\<close>

record runtime =
  rt_procs :: nat
  rt_pickScratch :: nat
  rt_pickIdx :: nat
  rt_idxSched :: "nat list"
  rt_fanSched :: "nat list"

record pools =
  p_scratch :: scratch_pools
  p_idx :: "bytes list"

definition Sharded_BulkUpdate :: "'n MapStore \<Rightarrow> 'v MapStore \<Rightarrow> runtime \<Rightarrow> bytes list \<Rightarrow> bytes list \<Rightarrow>
    (('n, 'v) ShardedSMT \<times> pools, bytes) op" where
  "Sharded_BulkUpdate nI vI rt keys values st =
     (let (s, ps) = st in
      if length keys \<noteq> length values then (Inl ErrBulkInputMismatch, st)
      else if length keys = 0 then (computeRoot s, st)
      else
        let N = length (shards s) in
        if N = 0 then (Inl (Panic ''integer divide by zero''), st)
        else
          let hint = (if length keys div N < 4 then 4 else length keys div N);
              ((bucketK, bucketV), scratch) = getShardScratch N (p_scratch ps) (rt_pickScratch rt);
              sized = map (b_presize hint) (zip bucketK bucketV);
              (buf, idxPool) = getShardIdxBuf (length keys) (p_idx ps) (rt_pickIdx rt);
              idxs = parallelComputeShardIdxs (rt_procs rt) (rt_idxSched rt) (take (length keys) buf) keys (shardBits s);
              release = (\<lambda>bucketK bucketV.
                \<lparr>p_scratch = putShardScratch N bucketK bucketV scratch,
                 p_idx = putShardIdxBuf (idxs @ drop (length keys) buf) idxPool\<rparr>)
          in case bucket_loop idxs (zip keys values) (map fst sized) (map snd sized) of
               Inl e \<Rightarrow> (Inl e, (s, release (map fst sized) (map snd sized)))
             | Inr (bucketK, bucketV) \<Rightarrow>
                 let (shs, gotErr) = fan_out nI vI (rt_fanSched rt) bucketK bucketV (shards s);
                     s' = s\<lparr>shards := shs\<rparr>
                 in (case gotErr of Some e \<Rightarrow> Inl e | None \<Rightarrow> computeRoot s', (s', release bucketK bucketV)))"

end
