(* ===== verification/ShardedCorrect.thy ===== *)
theory ShardedCorrect
  imports Sharded BulkProps
begin

unbundle bit_operations_syntax

text \<open>
  Correctness of \<open>src/sharded.go\<close>: a constructed sharded tree has a power of two of shards and the
  matching number of routing bits, so every key routes to an existing shard; the parallel routing
  pass computes the serial result on every schedule; bucketing sends each shard its part of the
  batch in order; the fan-out leaves every shard with its own batch applied, on every schedule.
\<close>

section \<open>Construction and routing\<close>

definition wf_sharded :: "('n, 'v) ShardedSMT \<Rightarrow> bool" where
  "wf_sharded s \<longleftrightarrow> (\<exists>k \<le> 8. length (shards s) = 2 ^ k \<and> shardBits s = of_nat k)"

lemma shard_bits_pow: "shard_bits_loop (2 ^ k) acc = acc + of_nat k"
proof (induction k arbitrary: acc)
  case 0
  then show ?case by (simp add: shard_bits_loop.simps)
next
  case (Suc k)
  have "(1 :: int) < 2 ^ Suc k" by (rule one_less_power) simp_all
  moreover have "drop_bit 1 (2 ^ Suc k :: int) = 2 ^ k" by (simp add: drop_bit_Suc)
  ultimately show ?case using Suc.IH [of "acc + 1"] by (subst shard_bits_loop.simps) (simp add: ac_simps)
qed

lemma pow2_check:
  "x \<in> {1..256} \<Longrightarrow> (x :: int) AND (x - 1) = 0 \<longleftrightarrow> (\<exists>k \<le> 8. x = 2 ^ k)"
proof -
  assume x: "x \<in> {1..256}"
  have "list_all (\<lambda>x :: int. (x AND (x - 1) = 0) = (x \<in> set (map (\<lambda>k. 2 ^ k) [0..<9]))) [1..256]"
    by code_simp
  then have "x AND (x - 1) = 0 \<longleftrightarrow> x \<in> (\<lambda>k. 2 ^ k) ` {0..<9}" using x by (simp add: list_all_iff)
  then show ?thesis by (auto simp: less_Suc_eq_le [of _ 8, symmetric])
qed

lemma route_bound:
  assumes "k \<le> 8"
  shows "unat (route (of_nat k) key) < 2 ^ k"
proof -
  have "(8 :: 64 word) - of_nat k = of_nat (8 - k)" using assms by (simp add: of_nat_diff)
  moreover have "unat (of_nat (8 - k) :: 64 word) = 8 - k" by (simp add: unat_of_nat take_bit_nat_eq_self)
  ultimately have sh: "unat ((8 :: 64 word) - of_nat k) = 8 - k" by simp
  let ?b = "Sum256 key ! 0"
  have "unat (drop_bit (8 - k) ?b) = unat ?b div 2 ^ (8 - k)" by (simp add: unat_drop_bit_eq drop_bit_eq_div [of _ "unat _"])
  also have "\<dots> < 2 ^ k"
  proof -
    have "unat ?b < 2 ^ 8" using unsigned_less [of ?b] by simp
    also have "(2 :: nat) ^ 8 = 2 ^ k * 2 ^ (8 - k)" using assms by (simp flip: power_add)
    finally show ?thesis by (simp add: less_mult_imp_div_less)
  qed
  finally show ?thesis by (simp add: route_def sh)
qed

lemma shardOf_bound: "wf_sharded s \<Longrightarrow> shardOf s key < length (shards s)"
  using route_bound by (auto simp: wf_sharded_def shardOf_def)

lemma NewShardedSMT_wf:
  assumes "NewShardedSMT n f h = Inr s"
  shows "wf_sharded s" "int (length (shards s)) = n" "hasherFn s = h"
proof -
  have n: "1 \<le> n" "n \<le> 256" "n AND (n - 1) = 0" and
    s: "shardBits s = shard_bits_loop n 0" "length (shards s) = nat n" "hasherFn s = h"
    using assms by (auto simp: NewShardedSMT_def split: if_splits)
  obtain k where k: "k \<le> 8" "n = 2 ^ k" using pow2_check [of n] n by auto
  then show "wf_sharded s" using s by (auto simp: wf_sharded_def shard_bits_pow nat_power_eq)
  show "int (length (shards s)) = n" "hasherFn s = h" using s n by simp_all
qed

section \<open>Parallel routing\<close>

text \<open>The chunks partition the indices: every index belongs to exactly one worker.\<close>

lemma chunk_ranges:
  "concat (map (\<lambda>c. [c * cs..<min (c * cs + cs) n]) [0..<m]) = [0..<min (m * cs) n]" for n :: nat
proof (induction m)
  case (Suc m)
  have "[0..<min (m * cs) n] @ [m * cs..<min (m * cs + cs) n] = [0..<min (m * cs + cs) n]"
  proof (cases "m * cs \<le> n")
    case True
    then have "min (m * cs) n = m * cs" "m * cs \<le> min (m * cs + cs) n" by simp_all
    then show ?thesis using upt_add_eq_append [of 0 "m * cs" "min (m * cs + cs) n - m * cs"] by simp
  qed simp
  then show ?case using Suc.IH by (simp add: add.commute)
qed simp

lemma concat_ranges_filter:
  "concat (map (\<lambda>(s, e). [s..<e]) (filter (\<lambda>(s, e). s < e) ws)) = concat (map (\<lambda>(s, e). [s..<e]) ws)"
  by (induction ws) auto

lemma idx_chunks_partition:
  assumes "0 < procs" "0 < n"
  shows "concat (map (\<lambda>(s, e). [s..<e]) (idx_chunks n procs)) = [0..<n]"
proof -
  define m where "m = (let m = (if procs > 16 then 16 else procs) in if m > n then n else m)"
  define cs where "cs = (n + m - 1) div m"
  have m: "0 < m" using assms by (auto simp: m_def Let_def)
  have "n \<le> m * cs"
  proof -
    have "n + m - 1 < m * (cs + 1)" using m by (simp add: cs_def dividend_less_times_div)
    then show ?thesis using m by simp
  qed
  then have "[0..<n] = [0..<min (m * cs) n]" by simp
  also have "\<dots> = concat (map (\<lambda>(s, e). [s..<e]) (map (\<lambda>c. (c * cs, min (c * cs + cs) n)) [0..<m]))"
    by (simp add: chunk_ranges comp_def)
  also have "map (\<lambda>c. (c * cs, min (c * cs + cs) n)) [0..<m] =
      map (\<lambda>c. let start = c * cs; end = start + cs in (start, if end > n then n else end)) [0..<m]"
    by (simp add: Let_def min_def)
  finally have "[0..<n] = concat (map (\<lambda>(s, e). [s..<e])
      (map (\<lambda>c. let start = c * cs; end = start + cs in (start, if end > n then n else end)) [0..<m]))" .
  moreover have "idx_chunks n procs = filter (\<lambda>(s, e). s < e)
      (map (\<lambda>c. let start = c * cs; end = start + cs in (start, if end > n then n else end)) [0..<m])"
    by (simp only: idx_chunks_def m_def cs_def Let_def)
  ultimately show ?thesis by (simp only: concat_ranges_filter)
qed

lemma idx_chunks_mem:
  assumes "0 < procs" "j < n"
  shows "\<exists>g < length (idx_chunks n procs). fst (idx_chunks n procs ! g) \<le> j \<and> j < snd (idx_chunks n procs ! g)"
proof -
  have "j \<in> set (concat (map (\<lambda>(s, e). [s..<e]) (idx_chunks n procs)))"
    using assms by (simp add: idx_chunks_partition)
  then obtain w where "w \<in> set (idx_chunks n procs)" "fst w \<le> j \<and> j < snd w" by auto
  then show ?thesis by (auto simp: in_set_conv_nth)
qed

text \<open>Whatever the interleaving, the indices a worker has passed hold their routes.\<close>

definition idx_inv :: "bytes list \<Rightarrow> 64 word \<Rightarrow> nat \<Rightarrow> worker list \<Rightarrow> bytes \<times> worker list \<Rightarrow> bool" where
  "idx_inv keys sb n ws0 st \<longleftrightarrow> length (fst st) = n \<and> length (snd st) = length ws0 \<and>
     (\<forall>g < length ws0. snd (snd st ! g) = snd (ws0 ! g) \<and> snd (ws0 ! g) \<le> n \<and>
       (\<forall>j. fst (ws0 ! g) \<le> j \<and> j < fst (snd st ! g) \<longrightarrow> j < n \<longrightarrow> fst st ! j = route sb (keys ! j)))"

lemma idx_step_inv:
  assumes "idx_inv keys sb n ws0 st"
  shows "idx_inv keys sb n ws0 (idx_step keys sb g st)"
proof (cases "g < length (snd st) \<and> fst (snd st ! g) < snd (snd st ! g)")
  case True
  obtain idxs ws where st: "st = (idxs, ws)" by (cases st)
  obtain i e where w: "ws ! g = (i, e)" by (cases "ws ! g")
  have "idx_step keys sb g st = (idxs[i := route sb (keys ! i)], ws[g := (i + 1, e)])"
    using True w by (simp add: idx_step_def st)
  moreover have "e \<le> n" "i < e" "g < length ws" using assms True w by (auto simp: idx_inv_def st)
  ultimately show ?thesis
    using assms w by (auto simp: idx_inv_def st nth_list_update less_Suc_eq split: if_splits)
next
  case False
  then have "idx_step keys sb g st = st" by (cases st) (auto simp: idx_step_def)
  then show ?thesis using assms by simp
qed

lemma idx_fold_inv: "idx_inv keys sb n ws0 st \<Longrightarrow> idx_inv keys sb n ws0 (fold (idx_step keys sb) sched st)"
  by (induction sched arbitrary: st) (simp_all add: idx_step_inv)

lemma idx_fold_progress:
  assumes "g < length (snd st)" "fst (snd st ! g) \<le> snd (snd st ! g)"
  shows "fst (snd (fold (idx_step keys sb) sched st) ! g) = min (snd (snd st ! g)) (fst (snd st ! g) + count_list sched g)"
  using assms
proof (induction sched arbitrary: st)
  case (Cons g' sched)
  let ?st = "idx_step keys sb g' st"
  have "length (snd ?st) = length (snd st)" "snd (snd ?st ! g) = snd (snd st ! g)"
    "fst (snd ?st ! g) = (if g = g' \<and> fst (snd st ! g) < snd (snd st ! g) then fst (snd st ! g) + 1 else fst (snd st ! g))"
    using Cons.prems by (auto simp: idx_step_def case_prod_beta Let_def nth_list_update)
  then show ?case using Cons.IH [of ?st] Cons.prems by (auto simp: min_def)
qed simp

lemma count_list_concat: "count_list (concat xss) x = sum_list (map (\<lambda>xs. count_list xs x) xss)"
  by (induction xss) (auto simp: count_list_append)

lemma count_idx_wait:
  assumes "g < length ws"
  shows "count_list (idx_wait ws) g = snd (ws ! g) - fst (ws ! g)"
proof -
  have rep: "count_list (replicate m y) x = (if x = y then m else 0)" for m and x y :: nat
    by (induction m) auto
  have "(\<Sum>y\<leftarrow>[0..<length ws]. if g = y then snd (ws ! y) - fst (ws ! y) else 0) = snd (ws ! g) - fst (ws ! g)"
    using assms by (simp add: sum_list_distinct_conv_sum_set sum.delta')
  then show ?thesis by (simp add: idx_wait_def count_list_concat rep comp_def)
qed

lemma fold_update: "fold (\<lambda>i xs. xs[i := f i]) [0..<m] xs = map f [0..<min m (length xs)] @ drop m xs"
proof (induction m)
  case (Suc m)
  show ?case
  proof (cases "m < length xs")
    case True
    then have "min m (length xs) = m" "min (Suc m) (length xs) = Suc m" by simp_all
    then show ?thesis using Suc.IH True by (simp add: list_update_append Cons_nth_drop_Suc [symmetric])
  next
    case False
    then show ?thesis using Suc.IH by (simp add: list_update_beyond min_def)
  qed
qed simp

lemma parallel_eq:
  assumes "0 < procs" "length idxs = length keys"
  shows "parallelComputeShardIdxs procs sched idxs keys sb = map (route sb) keys"
proof (cases "length keys < 1024")
  case True
  then show ?thesis
    using assms(2) by (auto simp: parallelComputeShardIdxs_def Let_def fold_update intro: nth_equalityI)
next
  case False
  let ?n = "length keys"
  define ws0 where "ws0 = idx_chunks ?n procs"
  define st where "st = fold (idx_step keys sb) sched (idxs, ws0)"
  define st' where "st' = fold (idx_step keys sb) (idx_wait (snd st)) st"
  have "0 < ?n" using False by linarith
  note part = idx_chunks_partition [OF assms(1) this, folded ws0_def]
  have ranges: "fst w \<le> snd w \<and> snd w \<le> ?n" if "w \<in> set ws0" for w
  proof -
    have "fst w < snd w" using that by (auto simp: ws0_def idx_chunks_def Let_def)
    then have "snd w - 1 \<in> set (case w of (s, e) \<Rightarrow> [s..<e])" by (cases w) auto
    then have "snd w - 1 \<in> set (concat (map (\<lambda>(s, e). [s..<e]) ws0))" using that by auto
    then have "snd w - 1 \<in> set [0..<?n]" by (simp only: part)
    then show ?thesis using \<open>fst w < snd w\<close> by auto
  qed
  have "idx_inv keys sb ?n ws0 (idxs, ws0)"
    using assms(2) ranges by (auto simp: idx_inv_def)
  then have inv: "idx_inv keys sb ?n ws0 st" "idx_inv keys sb ?n ws0 st'"
    by (simp_all add: st_def st'_def idx_fold_inv)
  have fin: "fst (snd st' ! g) = snd (ws0 ! g)" if "g < length ws0" for g
  proof -
    have g: "g < length (snd st)" "snd (snd st ! g) = snd (ws0 ! g)" using inv(1) that by (auto simp: idx_inv_def)
    have "fst (snd st ! g) = min (snd (ws0 ! g)) (fst (ws0 ! g) + count_list sched g)"
      using idx_fold_progress [of g "(idxs, ws0)" keys sb sched] ranges that by (simp add: st_def)
    then have le: "fst (snd st ! g) \<le> snd (snd st ! g)" using g by simp
    then show ?thesis
      using idx_fold_progress [OF g(1) le, of keys sb "idx_wait (snd st)"] count_idx_wait [OF g(1)] g(2)
      by (simp add: st'_def)
  qed
  have "fst st' = map (route sb) keys"
  proof (rule nth_equalityI)
    show "length (fst st') = length (map (route sb) keys)" using inv(2) by (simp add: idx_inv_def)
    fix j assume "j < length (fst st')"
    then have j: "j < ?n" using inv(2) by (simp add: idx_inv_def)
    obtain g where "g < length ws0" "fst (ws0 ! g) \<le> j" "j < snd (ws0 ! g)"
      using idx_chunks_mem [OF assms(1) j] by (auto simp: ws0_def)
    then show "fst st' ! j = map (route sb) keys ! j" using inv(2) fin j by (simp add: idx_inv_def)
  qed
  then show ?thesis
    using False assms(2) by (auto simp: parallelComputeShardIdxs_def Let_def st_def st'_def ws0_def)
qed

section \<open>Bucketing\<close>

text \<open>The part of a batch that goes to shard \<open>j\<close>, in order.\<close>

definition shard_part :: "64 word \<Rightarrow> nat \<Rightarrow> history \<Rightarrow> history" where
  "shard_part sb j ops = filter (\<lambda>(key, value). unat (route sb key) = j) ops"

lemma bucket_loop_eq:
  assumes "\<forall>(key, value) \<in> set ops. unat (route sb key) < length bk" "length bv = length bk"
  shows "\<exists>bk' bv'. bucket_loop (map (\<lambda>(key, value). route sb key) ops) ops bk bv = Inr (bk', bv') \<and>
    length bk' = length bk \<and> length bv' = length bk \<and>
    (\<forall>j < length bk. b_elems (bk' ! j) = b_elems (bk ! j) @ map fst (shard_part sb j ops) \<and>
       b_elems (bv' ! j) = b_elems (bv ! j) @ map snd (shard_part sb j ops))"
  using assms
proof (induction ops arbitrary: bk bv)
  case Nil
  then show ?case by (simp add: shard_part_def)
next
  case (Cons op ops)
  obtain key v where op: "op = (key, v)" by (cases op)
  let ?i = "unat (route sb key)"
  let ?bk = "bk[?i := b_append (bk ! ?i) key]" and ?bv = "bv[?i := b_append (bv ! ?i) v]"
  have i: "?i < length bk" using Cons.prems(1) op by simp
  obtain bk' bv' where "bucket_loop (map (\<lambda>(key, value). route sb key) ops) ops ?bk ?bv = Inr (bk', bv')"
    "length bk' = length bk" "length bv' = length bk"
    "\<forall>j < length bk. b_elems (bk' ! j) = b_elems (?bk ! j) @ map fst (shard_part sb j ops) \<and>
       b_elems (bv' ! j) = b_elems (?bv ! j) @ map snd (shard_part sb j ops)"
    using Cons.IH [of ?bk ?bv] Cons.prems by auto
  then show ?case
    using i Cons.prems(2) op
    by (intro exI [of _ bk'] exI [of _ bv']) (auto simp: shard_part_def b_append_def nth_list_update)
qed

section \<open>Fan-out\<close>

text \<open>What becomes of one shard, and how far its goroutine is.\<close>

definition shard_run :: "'n MapStore \<Rightarrow> 'v MapStore \<Rightarrow> task \<Rightarrow> ('n, 'v) SparseMerkleTree \<Rightarrow>
    unit result \<times> ('n, 'v) SparseMerkleTree" where
  "shard_run nI vI task sh =
     (case task of
        Pending ks vs \<Rightarrow>
          (case BulkUpdate nI vI ks vs sh of (Inl e, sh') \<Rightarrow> (Inl e, sh') | (Inr _, sh') \<Rightarrow> (Inr (), sh'))
      | _ \<Rightarrow> (Inr (), sh))"

fun task_rank :: "task \<Rightarrow> nat" where
  "task_rank (Pending _ _) = 2"
| "task_rank (Failed _) = 1"
| "task_rank Finished = 0"

definition fan_ok :: "'n MapStore \<Rightarrow> 'v MapStore \<Rightarrow> go_error option \<Rightarrow> task \<Rightarrow> ('n, 'v) SparseMerkleTree \<Rightarrow>
    task \<Rightarrow> ('n, 'v) SparseMerkleTree \<Rightarrow> bool" where
  "fan_ok nI vI err task0 sh0 task sh \<longleftrightarrow>
     (case task of
        Pending ks vs \<Rightarrow> task = task0 \<and> sh = sh0
      | Failed e \<Rightarrow> shard_run nI vI task0 sh0 = (Inl e, sh)
      | Finished \<Rightarrow> sh = snd (shard_run nI vI task0 sh0) \<and>
          (fst (shard_run nI vI task0 sh0) = Inr () \<or> err \<noteq> None))"

definition fan_inv :: "'n MapStore \<Rightarrow> 'v MapStore \<Rightarrow> ('n, 'v) SparseMerkleTree list \<Rightarrow> task list \<Rightarrow>
    ('n, 'v) SparseMerkleTree list \<times> task list \<times> go_error option \<Rightarrow> bool" where
  "fan_inv nI vI shs0 tasks0 st \<longleftrightarrow>
     (case st of (shs, tasks, err) \<Rightarrow>
       length tasks = length tasks0 \<and> length shs = length tasks0 \<and>
       (\<forall>g < length tasks0. fan_ok nI vI err (tasks0 ! g) (shs0 ! g) (tasks ! g) (shs ! g)) \<and>
       (\<forall>e. err = Some e \<longrightarrow> (\<exists>g < length tasks0. fst (shard_run nI vI (tasks0 ! g) (shs0 ! g)) = Inl e)))"

lemma fan_ok_mono: "fan_ok nI vI err t0 s0 t s \<Longrightarrow> err' \<noteq> None \<or> err = err' \<Longrightarrow> fan_ok nI vI err' t0 s0 t s"
  by (auto simp: fan_ok_def split: task.splits)

lemma report_cases: "report err e = Some e' \<Longrightarrow> err = Some e' \<or> e = e'" "report err e \<noteq> None"
  by (auto simp: report_def split: option.splits if_splits)

lemma fan_step_inv:
  assumes "fan_inv nI vI shs0 tasks0 st"
  shows "fan_inv nI vI shs0 tasks0 (fan_step nI vI g st)"
proof -
  obtain shs tasks err where st: "st = (shs, tasks, err)" by (cases st)
  note inv = assms [unfolded fan_inv_def st, simplified]
  show ?thesis
  proof (cases "g < length tasks")
    case False
    then show ?thesis using assms by (simp add: fan_step_def st)
  next
    case g: True
    have ok: "fan_ok nI vI err (tasks0 ! g) (shs0 ! g) (tasks ! g) (shs ! g)" using inv g by simp
    show ?thesis
    proof (cases "tasks ! g")
      case (Pending ks vs)
      obtain r sh where run: "BulkUpdate nI vI ks vs (shs ! g) = (r, sh)" by fastforce
      have "tasks0 ! g = Pending ks vs" "shs0 ! g = shs ! g" using ok Pending by (auto simp: fan_ok_def)
      then have "fan_ok nI vI err (tasks0 ! g) (shs0 ! g) (case r of Inl e \<Rightarrow> Failed e | Inr _ \<Rightarrow> Finished) sh"
        using run by (auto simp: fan_ok_def shard_run_def split: sum.splits)
      moreover have "fan_step nI vI g st = (shs[g := sh], tasks[g := case r of Inl e \<Rightarrow> Failed e | Inr _ \<Rightarrow> Finished], err)"
        using g Pending run by (simp add: fan_step_def st split: sum.splits)
      ultimately show ?thesis
        using inv g unfolding fan_inv_def by (auto simp: nth_list_update)
    next
      case (Failed e)
      have run: "shard_run nI vI (tasks0 ! g) (shs0 ! g) = (Inl e, shs ! g)" using ok Failed by (simp add: fan_ok_def)
      have step: "fan_step nI vI g st = (shs, tasks[g := Finished], report err e)"
        using g Failed by (simp add: fan_step_def st)
      have "fan_ok nI vI (report err e) (tasks0 ! h) (shs0 ! h) (tasks[g := Finished] ! h) (shs ! h)"
        if "h < length tasks0" for h
      proof (cases "h = g")
        case True
        then show ?thesis using run g report_cases(2) by (simp add: fan_ok_def)
      next
        case False
        then show ?thesis using inv that report_cases(2) [of err e] by (auto intro: fan_ok_mono)
      qed
      moreover have "\<exists>h < length tasks0. fst (shard_run nI vI (tasks0 ! h) (shs0 ! h)) = Inl e'"
        if "report err e = Some e'" for e'
        using report_cases(1) [OF that] inv run g by auto
      ultimately show ?thesis using inv unfolding fan_inv_def step by simp
    next
      case Finished
      then show ?thesis using assms g by (simp add: fan_step_def st)
    qed
  qed
qed

lemma fan_fold_inv: "fan_inv nI vI shs0 tasks0 st \<Longrightarrow> fan_inv nI vI shs0 tasks0 (fold (fan_step nI vI) sched st)"
  by (induction sched arbitrary: st) (simp_all add: fan_step_inv)

lemma fan_fold_progress:
  "g < length (fst (snd st)) \<Longrightarrow>
   task_rank (fst (snd (fold (fan_step nI vI) sched st)) ! g) \<le> task_rank (fst (snd st) ! g) - count_list sched g"
proof (induction sched arbitrary: st)
  case (Cons g' sched)
  let ?st = "fan_step nI vI g' st"
  have "length (fst (snd ?st)) = length (fst (snd st))"
    "task_rank (fst (snd ?st) ! g) \<le> task_rank (fst (snd st) ! g) - (if g = g' then 1 else 0)"
    using Cons.prems
    by (auto simp: fan_step_def case_prod_beta Let_def nth_list_update split: task.splits sum.splits)
  then show ?case using Cons.IH [of ?st] Cons.prems by (auto split: if_splits)
qed simp

lemma count_fan_wait:
  assumes "g < length tasks"
  shows "count_list (fan_wait tasks) g = 2"
proof -
  have two: "count_list [x, x] g = (if x = g then 2 else 0)" for x :: nat by (cases "x = g") simp_all
  have "count_list (fan_wait tasks) g = (\<Sum>x\<leftarrow>[0..<length tasks]. count_list [x, x] g)"
    by (simp only: fan_wait_def count_list_concat map_map comp_def)
  then have "count_list (fan_wait tasks) g = (\<Sum>x = 0..<length tasks. if x = g then 2 else 0)"
    by (simp only: two sum_list_distinct_conv_sum_set distinct_upt set_upt)
  then show ?thesis using assms by simp
qed

text \<open>On every schedule each shard ends with its own batch run, and an error of some shard is reported.\<close>

lemma fan_out_eq:
  assumes "fan_out nI vI sched bk bv shs = (shs', err)"
  defines "task \<equiv> \<lambda>i. if b_elems (bk ! i) = [] then Finished else Pending (b_elems (bk ! i)) (b_elems (bv ! i))"
  shows "length shs' = length shs"
    and "i < length shs \<Longrightarrow> shs' ! i = snd (shard_run nI vI (task i) (shs ! i))"
    and "err = None \<longleftrightarrow> (\<forall>i < length shs. fst (shard_run nI vI (task i) (shs ! i)) = Inr ())"
    and "err = Some e \<Longrightarrow> \<exists>i < length shs. fst (shard_run nI vI (task i) (shs ! i)) = Inl e"
proof -
  define tasks0 where "tasks0 = map task [0..<length shs]"
  define st where "st = fold (fan_step nI vI) sched (shs, tasks0, None)"
  obtain tasks' where run: "fold (fan_step nI vI) (fan_wait tasks0) st = (shs', tasks', err)"
    using assms(1) by (auto simp: fan_out_def Let_def tasks0_def task_def st_def split: prod.splits)
  have "fan_inv nI vI shs tasks0 (shs, tasks0, None)"
    by (auto simp: fan_inv_def fan_ok_def tasks0_def task_def shard_run_def)
  then have inv0: "fan_inv nI vI shs tasks0 st" and inv: "fan_inv nI vI shs tasks0 (shs', tasks', err)"
    using fan_fold_inv run by (metis st_def)+
  have fin: "tasks' ! g = Finished" if "g < length tasks0" for g
  proof -
    have g: "g < length (fst (snd st))" using inv0 that by (auto simp: fan_inv_def split: prod.splits)
    have "task_rank (fst (snd st) ! g) \<le> 2" by (cases "fst (snd st) ! g") simp_all
    then have "task_rank (tasks' ! g) = 0"
      using fan_fold_progress [OF g, of nI vI "fan_wait tasks0"] run count_fan_wait [OF that] by simp
    then show ?thesis by (cases "tasks' ! g") simp_all
  qed
  note inv' = inv [unfolded fan_inv_def, simplified]
  have len: "length tasks0 = length shs" by (simp add: tasks0_def)
  show "length shs' = length shs" using inv' len by simp
  have ok: "shs' ! g = snd (shard_run nI vI (task g) (shs ! g)) \<and>
      (fst (shard_run nI vI (task g) (shs ! g)) = Inr () \<or> err \<noteq> None)" if "g < length shs" for g
    using inv' fin [of g] that len by (auto simp: fan_ok_def tasks0_def)
  then show "i < length shs \<Longrightarrow> shs' ! i = snd (shard_run nI vI (task i) (shs ! i))" by blast
  have some: "\<exists>g < length shs. fst (shard_run nI vI (task g) (shs ! g)) = Inl e'" if "err = Some e'" for e'
    using inv' that len by (auto simp: tasks0_def)
  then show "err = Some e \<Longrightarrow> \<exists>i < length shs. fst (shard_run nI vI (task i) (shs ! i)) = Inl e" by blast
  show "err = None \<longleftrightarrow> (\<forall>i < length shs. fst (shard_run nI vI (task i) (shs ! i)) = Inr ())"
    using ok some by (cases err) fastforce+
qed

section \<open>Pooled scratch\<close>

text \<open>Pooled buckets are empty and there are as many as the shard count they are filed under.\<close>

definition scratch_ok :: "nat \<Rightarrow> shardScratch \<Rightarrow> bool" where
  "scratch_ok n sc \<longleftrightarrow> length (sc_k sc) = n \<and> length (sc_v sc) = n \<and>
     (\<forall>b \<in> set (sc_k sc) \<union> set (sc_v sc). b_elems b = [])"

definition pools_ok :: "pools \<Rightarrow> bool" where
  "pools_ok ps \<longleftrightarrow> (\<forall>n pool. p_scratch ps n = Some pool \<longrightarrow> (\<forall>sc \<in> set pool. scratch_ok n sc))"

lemma getShardScratch_ok:
  assumes "pools_ok ps" "getShardScratch n (p_scratch ps) pick = ((bk, bv), scratch)"
  shows "length bk = n" "length bv = n" "\<forall>b \<in> set bk \<union> set bv. b_elems b = []"
    "pools_ok \<lparr>p_scratch = scratch, p_idx = idx\<rparr>" "scratch n \<noteq> None"
proof -
  define nil :: bucket where "nil = \<lparr>b_elems = [], b_cap = 0\<rparr>"
  define new where "new = \<lparr>sc_k = replicate n nil, sc_v = replicate n nil\<rparr>"
  define pool where "pool = (case p_scratch ps n of None \<Rightarrow> [] | Some pool \<Rightarrow> pool)"
  obtain sc pool' where pg: "pool_Get new pool pick = (sc, pool')" by fastforce
  have r: "bk = sc_k sc" "bv = sc_v sc" "scratch = (p_scratch ps)(n \<mapsto> pool')"
    using assms(2) pg by (auto simp: getShardScratch_def new_def nil_def pool_def Let_def)
  have sc: "sc \<in> insert new (set pool)" "set pool' \<subseteq> set pool"
    using pool_Get_in [of new pool pick] pool_Get_rest [of new pool pick] pg by simp_all
  have ok: "scratch_ok n x" if "x \<in> insert new (set pool)" for x
  proof (cases "x = new")
    case True
    then show ?thesis by (simp add: new_def nil_def scratch_ok_def)
  next
    case False
    then have "x \<in> set pool" using that by simp
    then obtain q where "p_scratch ps n = Some q" "x \<in> set q"
      by (cases "p_scratch ps n") (simp_all add: pool_def)
    then show ?thesis using assms(1) by (simp add: pools_ok_def)
  qed
  show "length bk = n" "length bv = n" "\<forall>b \<in> set bk \<union> set bv. b_elems b = []" "scratch n \<noteq> None"
    using ok [OF sc(1)] by (simp_all add: r scratch_ok_def)
  show "pools_ok \<lparr>p_scratch = scratch, p_idx = idx\<rparr>"
    using assms(1) ok sc(2) unfolding pools_ok_def r(3) by (auto split: if_splits)
qed

lemma putShardScratch_ok:
  assumes "pools_ok \<lparr>p_scratch = scratch, p_idx = idx\<rparr>" "length bk = n" "length bv = n"
  shows "pools_ok \<lparr>p_scratch = putShardScratch n bk bv scratch, p_idx = idx'\<rparr>"
  using assms by (auto simp: pools_ok_def scratch_ok_def putShardScratch_def b_reset_def split: option.splits if_splits)

lemma getShardIdxBuf_length: "n \<le> length (fst (getShardIdxBuf n pool pick))"
proof -
  have "n \<le> (n + 4095) div 4096 * 4096" by simp
  then show ?thesis by (simp add: getShardIdxBuf_def Let_def)
qed

section \<open>The combined root\<close>

lemma merge_levels_single: "level \<noteq> [] \<Longrightarrow> length (merge_levels h level) = 1"
proof (induction h level rule: merge_levels.induct)
  case (1 h level)
  show ?case
  proof (cases "length level > 1")
    case True
    then have "0 < length (fst (merge_level h level))" by simp
    then have "fst (merge_level h level) \<noteq> []" by (metis less_numeral_extra(3) list.size(3))
    then show ?thesis using 1 True by (subst merge_levels.simps) simp
  next
    case False
    then have "length level = 1" using 1 by (cases level) auto
    then show ?thesis using False by (subst merge_levels.simps) simp
  qed
qed

lemma computeRoot_ok: "shards s \<noteq> [] \<Longrightarrow> \<exists>r. computeRoot s = Inr r"
  using merge_levels_single [of "map Root (shards s)" "hasherFn s ()"] by (simp add: computeRoot_def Let_def)

text \<open>What a level hashes, and what the whole fold hashes.\<close>

fun level_data :: "bytes list \<Rightarrow> bytes list" where
  "level_data [] = []"
| "level_data [x] = [node_data x x]"
| "level_data (x # y # level) = node_data x y # level_data level"

lemma length_level_data [simp]: "length (level_data level) = (length level + 1) div 2"
  by (induction level rule: level_data.induct) auto

function merge_data :: "(bytes \<Rightarrow> bytes) \<Rightarrow> bytes list \<Rightarrow> bytes list" where
  "merge_data alg level =
     (if length level > 1 then level_data level @ merge_data alg (map alg (level_data level)) else [])"
  by pat_completeness auto
termination
  by (relation "measure (\<lambda>(alg, level). length level)") auto

declare merge_data.simps [simp del]

lemma merge_level_data:
  "fst (merge_level h level) = map (hash_alg h) (level_data level) \<and> hash_alg (snd (merge_level h level)) = hash_alg h"
proof (induction h level rule: merge_level.induct)
  case (3 h x y level)
  then show ?case
    by (cases "mergeHash h x y")
      (auto simp: case_prod_beta mergeHash_def hash_Write_def hash_Reset_def hash_Sum_def node_data_def Let_def)
qed (auto simp: case_prod_beta mergeHash_def hash_Write_def hash_Reset_def hash_Sum_def node_data_def Let_def)

lemma level_data_inject:
  assumes "level_data l = level_data l'" "length l = length l'" "\<forall>x \<in> set l \<union> set l'. length x = n"
  shows "l = l'"
  using assms
proof (induction l arbitrary: l' rule: level_data.induct)
  case 1
  then show ?case by simp
next
  case (2 x)
  then obtain y where "l' = [y]" by (cases l') auto
  then show ?case using 2 by (auto simp: node_data_inject)
next
  case (3 x y level)
  then obtain x' y' level' where "l' = x' # y' # level'" by (cases l'; cases "tl l'") auto
  then show ?case using 3 by (auto simp: node_data_inject)
qed

text \<open>Without collisions the combined root determines the shard roots.\<close>

lemma merge_levels_inject:
  assumes "merge_levels h l = merge_levels h' l'" "hash_alg h' = hash_alg h" "length l = length l'"
    and "inj_on (hash_alg h) S" "set (merge_data (hash_alg h) l) \<subseteq> S" "set (merge_data (hash_alg h) l') \<subseteq> S"
    and "\<forall>x \<in> set l \<union> set l'. length x = n" "\<forall>d. length (hash_alg h d) = n"
  shows "l = l'"
  using assms
proof (induction h l arbitrary: h' l' rule: merge_levels.induct)
  case (1 h level)
  show ?case
  proof (cases "length level > 1")
    case True
    let ?a = "hash_alg h" and ?m = "map (hash_alg h) (level_data level)" and ?m' = "map (hash_alg h) (level_data l')"
    have md: "merge_data ?a level = level_data level @ merge_data ?a ?m" "merge_data ?a l' = level_data l' @ merge_data ?a ?m'"
      using True "1.prems"(3) by (subst merge_data.simps; simp)+
    note ml = merge_level_data [of h level] merge_level_data [of h' l']
    have "merge_levels (snd (merge_level h level)) ?m = merge_levels (snd (merge_level h' l')) ?m'"
      using "1.prems"(1-3) True ml by (subst (asm) (1 2) merge_levels.simps) simp
    then have "?m = ?m'"
      using "1.IH" [OF True, of "snd (merge_level h' l')" ?m'] ml "1.prems"(2-8) md by auto
    then have "level_data level = level_data l'"
      using "1.prems"(4-6) md inj_on_map_eq_map [of ?a "level_data level" "level_data l'"]
      by (auto intro: inj_on_subset)
    then show ?thesis using level_data_inject "1.prems"(3,7) by blast
  next
    case False
    then show ?thesis using "1.prems"(1,3) by (subst (asm) (1 2) merge_levels.simps) simp
  qed
qed

section \<open>Bulk update\<close>

text \<open>The batch of shard \<open>i\<close> run on its tree.\<close>

definition shard_batch :: "'n MapStore \<Rightarrow> 'v MapStore \<Rightarrow> 64 word \<Rightarrow> history \<Rightarrow> nat \<Rightarrow>
    (('n, 'v) SparseMerkleTree, bytes) op" where
  "shard_batch nI vI sb ops i =
     BulkUpdate nI vI (map fst (shard_part sb i ops)) (map snd (shard_part sb i ops))"

lemma shard_run_batch:
  fixes ops :: history
  assumes "bk = map fst (shard_part sb i ops)" "bv = map snd (shard_part sb i ops)"
  defines "task \<equiv> if bk = [] then Finished else Pending bk bv"
  shows "snd (shard_run nI vI task sh) = snd (shard_batch nI vI sb ops i sh)"
    "fst (shard_run nI vI task sh) = Inr () \<longleftrightarrow> (\<exists>r. fst (shard_batch nI vI sb ops i sh) = Inr r)"
    "fst (shard_run nI vI task sh) = Inl e \<longleftrightarrow> fst (shard_batch nI vI sb ops i sh) = Inl e"
  using assms
  by (auto simp: shard_run_def shard_batch_def BulkUpdate_def split: prod.splits sum.splits)

lemma Sharded_BulkUpdate_run:
  fixes nI :: "'n MapStore" and vI :: "'v MapStore" and s :: "('n, 'v) ShardedSMT"
  assumes wf: "wf_sharded s" and ps: "pools_ok ps" and procs: "0 < rt_procs rt"
    and len: "length keys = length values" "keys \<noteq> []"
  defines "batch \<equiv> shard_batch nI vI (shardBits s) (zip keys values)"
  shows "\<exists>shs err ps'. Sharded_BulkUpdate nI vI rt keys values (s, ps) =
      (case err of Some e \<Rightarrow> Inl e | None \<Rightarrow> computeRoot (s\<lparr>shards := shs\<rparr>), (s\<lparr>shards := shs\<rparr>, ps')) \<and>
    pools_ok ps' \<and> length shs = length (shards s) \<and>
    (\<forall>i < length shs. shs ! i = snd (batch i (shards s ! i))) \<and>
    (err = None \<longleftrightarrow> (\<forall>i < length shs. \<exists>r. fst (batch i (shards s ! i)) = Inr r)) \<and>
    (\<forall>e. err = Some e \<longrightarrow> (\<exists>i < length shs. fst (batch i (shards s ! i)) = Inl e))"
proof -
  let ?N = "length (shards s)" and ?ops = "zip keys values" and ?sb = "shardBits s"
  define hint where "hint = (if length keys div ?N < 4 then 4 else length keys div ?N)"
  obtain bk0 bv0 scratch where get: "getShardScratch ?N (p_scratch ps) (rt_pickScratch rt) = ((bk0, bv0), scratch)"
    by (metis surj_pair)
  note sc = getShardScratch_ok [OF ps get]
  obtain buf idxPool where buf: "getShardIdxBuf (length keys) (p_idx ps) (rt_pickIdx rt) = (buf, idxPool)"
    by fastforce
  define sized where "sized = map (b_presize hint) (zip bk0 bv0)"
  define bk bv where "bk = map fst sized" and "bv = map snd sized"
  have N: "0 < ?N" using wf by (auto simp: wf_sharded_def)
  have lens: "length bk = ?N" "length bv = ?N" using sc(1,2) by (simp_all add: bk_def bv_def sized_def)
  have empty: "b_elems (bk ! i) = []" "b_elems (bv ! i) = []" if "i < ?N" for i
    using sc(1-3) that by (auto simp: bk_def bv_def sized_def b_presize_def)
  have idxs: "parallelComputeShardIdxs (rt_procs rt) (rt_idxSched rt) (take (length keys) buf) keys ?sb =
      map (\<lambda>(key, value). route ?sb key) ?ops"
  proof -
    have "length (take (length keys) buf) = length keys"
      using getShardIdxBuf_length [of "length keys" "p_idx ps" "rt_pickIdx rt"] buf by simp
    moreover have "map (\<lambda>(key, value). route ?sb key) ?ops = map (route ?sb) (map fst ?ops)"
      by (simp add: case_prod_beta')
    ultimately show ?thesis using parallel_eq [OF procs] len(1) by simp
  qed
  have "\<forall>(key, value) \<in> set ?ops. unat (route ?sb key) < length bk"
    using shardOf_bound [OF wf] lens(1) by (auto simp: shardOf_def)
  then obtain bk' bv' where loop: "bucket_loop (map (\<lambda>(key, value). route ?sb key) ?ops) ?ops bk bv = Inr (bk', bv')"
    "length bk' = ?N" "length bv' = ?N"
    "\<And>j. j < ?N \<Longrightarrow> b_elems (bk' ! j) = map fst (shard_part ?sb j ?ops) \<and> b_elems (bv' ! j) = map snd (shard_part ?sb j ?ops)"
    using bucket_loop_eq [of ?ops ?sb bk bv] lens empty by auto
  obtain shs err where fan: "fan_out nI vI (rt_fanSched rt) bk' bv' (shards s) = (shs, err)" by fastforce
  note fo = fan_out_eq [OF fan]
  have guards: "(length keys \<noteq> length values) = False" "(length keys = 0) = False" "(?N = 0) = False"
    using len N by auto
  note rb = shard_run_batch [OF loop(4) [THEN conjunct1] loop(4) [THEN conjunct2]]
  let ?ps = "\<lparr>p_scratch = putShardScratch ?N bk' bv' scratch,
    p_idx = putShardIdxBuf (map (\<lambda>(key, value). route ?sb key) ?ops @ drop (length keys) buf) idxPool\<rparr>"
  have "Sharded_BulkUpdate nI vI rt keys values (s, ps) =
      (case err of Some e \<Rightarrow> Inl e | None \<Rightarrow> computeRoot (s\<lparr>shards := shs\<rparr>), (s\<lparr>shards := shs\<rparr>, ?ps))"
    unfolding Sharded_BulkUpdate_def Let_def prod.case guards if_False get buf
      hint_def [symmetric] sized_def [symmetric] bk_def [symmetric] bv_def [symmetric] idxs loop(1)
      sum.case prod.case fan by (rule refl)
  moreover have "pools_ok ?ps" using putShardScratch_ok [OF sc(4) loop(2,3)] .
  moreover have "shs ! i = snd (batch i (shards s ! i))" if "i < ?N" for i
    using fo(2) [OF that] rb(1) [OF that that, of nI vI] by (simp only: batch_def)
  moreover have "err = None \<longleftrightarrow> (\<forall>i < ?N. \<exists>r. fst (batch i (shards s ! i)) = Inr r)"
    unfolding fo(3) batch_def by (intro all_cong1 imp_cong refl rb(2))
  moreover have "\<exists>i < ?N. fst (batch i (shards s ! i)) = Inl e" if "err = Some e" for e
    using fo(4) [OF that] rb(3) unfolding batch_def by blast
  ultimately show ?thesis
    using fo(1) by (intro exI [of _ shs] exI [of _ err] exI [of _ ?ps]) simp
qed

end
