(* ===== verification/ShardedProps.thy ===== *)
theory ShardedProps
  imports ShardedCorrect
begin

text \<open>
  The properties of the sharded tree: construction, routing in range, schedule independence of the
  parallel passes, equivalence of the sharded bulk update with iterated updates
  and the batches on which the order matters, its errors, reads after writes, and what the combined root commits to.
\<close>

section \<open>Iterated updates of the shards\<close>

fun Sharded_Updates :: "'n MapStore \<Rightarrow> 'v MapStore \<Rightarrow> history \<Rightarrow> (('n, 'v) ShardedSMT, unit) op" where
  "Sharded_Updates nI vI [] = returnS ()"
| "Sharded_Updates nI vI ((key, value) # ops) =
     bindS (Sharded_Update nI vI key value) (\<lambda>_. Sharded_Updates nI vI ops)"

lemma wf_sharded_shards: "wf_sharded s \<Longrightarrow> length shs = length (shards s) \<Longrightarrow> wf_sharded (s\<lparr>shards := shs\<rparr>)"
  by (simp add: wf_sharded_def)

lemma wf_sharded_nonempty: "wf_sharded s \<Longrightarrow> shards s \<noteq> []"
  by (auto simp: wf_sharded_def)

lemma Sharded_Update_eq:
  assumes "wf_sharded s" "Update nI vI key v (shards s ! shardOf s key) = (r, sh)"
  defines "s' \<equiv> s\<lparr>shards := (shards s)[shardOf s key := sh]\<rparr>"
  shows "Sharded_Update nI vI key v s = (case r of Inl e \<Rightarrow> Inl e | Inr _ \<Rightarrow> computeRoot s', s')"
  using shardOf_bound [OF assms(1), of key] assms(2)
  by (simp add: Sharded_Update_def s'_def Let_def split: sum.splits)

lemma Sharded_Updates_eq:
  assumes "wf_sharded s"
    and "\<forall>i < length (shards s). fst (Updates nI vI (shard_part (shardBits s) i ops) (shards s ! i)) = Inr ()"
  shows "Sharded_Updates nI vI ops s = (Inr (), s\<lparr>shards :=
    map (\<lambda>i. snd (Updates nI vI (shard_part (shardBits s) i ops) (shards s ! i))) [0..<length (shards s)]\<rparr>)"
  using assms
proof (induction ops arbitrary: s)
  case Nil
  then show ?case by (simp add: shard_part_def map_nth)
next
  case (Cons op ops)
  obtain key v where op: "op = (key, v)" by (cases op)
  let ?sb = "shardBits s" and ?j = "shardOf s key"
  have j: "?j < length (shards s)" using shardOf_bound [OF Cons.prems(1)] .
  have part: "shard_part ?sb i (op # ops) = (if i = ?j then (key, v) # shard_part ?sb i ops else shard_part ?sb i ops)" for i
    by (auto simp: shard_part_def op shardOf_def)
  obtain r sh where upd: "Update nI vI key v (shards s ! ?j) = (r, sh)" by fastforce
  have r: "\<exists>x. r = Inr x" using Cons.prems(2) j upd part [of ?j] by (cases r) (auto dest!: spec [of _ ?j])
  let ?s = "s\<lparr>shards := (shards s)[?j := sh]\<rparr>"
  have wf: "wf_sharded ?s" using wf_sharded_shards [OF Cons.prems(1)] by simp
  have step: "Sharded_Update nI vI key v s = (computeRoot ?s, ?s)"
    using Sharded_Update_eq [OF Cons.prems(1) upd] r by auto
  obtain root where root: "computeRoot ?s = Inr root" using computeRoot_ok wf_sharded_nonempty [OF wf] by blast
  have run: "Updates nI vI (shard_part ?sb i (op # ops)) (shards s ! i) =
      Updates nI vI (shard_part ?sb i ops) (shards ?s ! i)" if "i < length (shards s)" for i
    using r upd j part [of i] by (auto simp: nth_list_update)
  have "Sharded_Updates nI vI ops ?s = (Inr (), ?s\<lparr>shards :=
    map (\<lambda>i. snd (Updates nI vI (shard_part ?sb i ops) (shards ?s ! i))) [0..<length (shards s)]\<rparr>)"
    using Cons.IH [OF wf] Cons.prems(2) run by simp
  also have "\<dots> = (Inr (), s\<lparr>shards :=
    map (\<lambda>i. snd (Updates nI vI (shard_part ?sb i (op # ops)) (shards s ! i))) [0..<length (shards s)]\<rparr>)"
    using run by simp
  finally show ?case using step root by (simp add: op)
qed

section \<open>Bulk update\<close>

lemma shard_part_batch:
  "shard_part sb i (batch_dels ops @ batch_ins ops) =
   batch_dels (shard_part sb i ops) @ batch_ins (shard_part sb i ops)"
  by (auto simp: shard_part_def batch_dels_def batch_ins_def conj_commute intro!: filter_cong)

abbreviation sharded_rep :: "(SimpleMap, SimpleMap) ShardedSMT \<Rightarrow> mtree list \<Rightarrow> history \<Rightarrow> bool" where
  "sharded_rep s ts ops \<equiv> \<forall>i < length (shards s). represents sm_m sm_m (shards s ! i) (ts ! i) \<and>
     collision_free (smt_th (shards s ! i))
       (hist_preimages (smt_th (shards s ! i)) (shard_part (shardBits s) i ops) (ts ! i))"

text \<open>The sharded tree after iterated updates, when every shard represents a canonical tree.\<close>

lemma Sharded_Updates_represents:
  fixes s :: "(SimpleMap, SimpleMap) ShardedSMT"
  assumes "wf_sharded s" "sharded_rep s ts ops"
  shows "\<exists>shs. Sharded_Updates SimpleMap_store SimpleMap_store ops s = (Inr (), s\<lparr>shards := shs\<rparr>) \<and>
    length shs = length (shards s) \<and>
    (\<forall>i < length (shards s).
       Updates SimpleMap_store SimpleMap_store (shard_part (shardBits s) i ops) (shards s ! i) = (Inr (), shs ! i) \<and>
       represents sm_m sm_m (shs ! i) (tupdates (smt_th (shards s ! i)) (shard_part (shardBits s) i ops) (ts ! i)) \<and>
       smt_th (shs ! i) = smt_th (shards s ! i))"
proof -
  let ?U = "\<lambda>i. Updates SimpleMap_store SimpleMap_store (shard_part (shardBits s) i ops) (shards s ! i)"
  let ?shs = "map (\<lambda>i. snd (?U i)) [0..<length (shards s)]"
  have shard: "\<exists>sh. ?U i = (Inr (), sh) \<and>
      represents sm_m sm_m sh (tupdates (smt_th (shards s ! i)) (shard_part (shardBits s) i ops) (ts ! i)) \<and>
      smt_th sh = smt_th (shards s ! i)" if "i < length (shards s)" for i
    using smts.Updates_ok [OF _ refl, of "shards s ! i" "ts ! i" "shard_part (shardBits s) i ops"] assms(2) that by auto
  then have "Sharded_Updates SimpleMap_store SimpleMap_store ops s = (Inr (), s\<lparr>shards := ?shs\<rparr>)"
    using Sharded_Updates_eq [OF assms(1), of SimpleMap_store SimpleMap_store ops] by fastforce
  then show ?thesis using shard by (intro exI [of _ ?shs]) fastforce
qed

text \<open>Two histories lead to the same shards exactly when they mean the same map on every shard.\<close>

lemma Sharded_Updates_same:
  fixes s :: "(SimpleMap, SimpleMap) ShardedSMT"
  assumes "wf_sharded s" "sharded_rep s ts ops" "sharded_rep s ts ops'"
    and "Sharded_Updates SimpleMap_store SimpleMap_store ops s = (Inr (), s1)"
    and "Sharded_Updates SimpleMap_store SimpleMap_store ops' s = (Inr (), s2)"
  shows "s1 = s2 \<longleftrightarrow> (\<forall>i < length (shards s).
    mupdates (smt_th (shards s ! i)) (shard_part (shardBits s) i ops) (tmap (ts ! i)) =
    mupdates (smt_th (shards s ! i)) (shard_part (shardBits s) i ops') (tmap (ts ! i)))"
proof -
  let ?th = "\<lambda>i. smt_th (shards s ! i)" and ?p = "\<lambda>i ops. shard_part (shardBits s) i ops"
  obtain shs1 where s1: "s1 = s\<lparr>shards := shs1\<rparr>" "length shs1 = length (shards s)"
    "\<forall>i < length (shards s). represents sm_m sm_m (shs1 ! i) (tupdates (?th i) (?p i ops) (ts ! i)) \<and>
       smt_th (shs1 ! i) = ?th i"
    using Sharded_Updates_represents [OF assms(1,2)] assms(4) by auto
  obtain shs2 where s2: "s2 = s\<lparr>shards := shs2\<rparr>" "length shs2 = length (shards s)"
    "\<forall>i < length (shards s). represents sm_m sm_m (shs2 ! i) (tupdates (?th i) (?p i ops') (ts ! i)) \<and>
       smt_th (shs2 ! i) = ?th i"
    using Sharded_Updates_represents [OF assms(1,3)] assms(5) by auto
  have "shs1 ! i = shs2 ! i \<longleftrightarrow>
      mupdates (?th i) (?p i ops) (tmap (ts ! i)) = mupdates (?th i) (?p i ops') (tmap (ts ! i))"
    if i: "i < length (shards s)" for i
  proof -
    have r: "wf_th (?th i)" "wf_tree (pathSize (?th i)) [] (ts ! i)"
      using assms(2) i representsD(1,2) by blast+
    note c = tupdates_correct [OF r]
    have r1: "represents sm_m sm_m (shs1 ! i) (tupdates (?th i) (?p i ops) (ts ! i))" "smt_th (shs1 ! i) = ?th i"
      and r2: "represents sm_m sm_m (shs2 ! i) (tupdates (?th i) (?p i ops') (ts ! i))" "smt_th (shs2 ! i) = ?th i"
      using s1(3) s2(3) i by blast+
    have v: "sm_m (smt_values (shs1 ! i)) = mupdates (?th i) (?p i ops) (tmap (ts ! i))"
      "sm_m (smt_values (shs2 ! i)) = mupdates (?th i) (?p i ops') (tmap (ts ! i))"
      using representsD(5) [OF r1(1)] representsD(5) [OF r2(1)] c by simp_all
    have "shs1 ! i = shs2 ! i"
      if eq: "mupdates (?th i) (?p i ops) (tmap (ts ! i)) = mupdates (?th i) (?p i ops') (tmap (ts ! i))"
    proof -
      have "tupdates (?th i) (?p i ops) (ts ! i) = tupdates (?th i) (?p i ops') (ts ! i)"
        using c eq by (intro wf_tree_unique [of "pathSize (?th i)" "[]"]) simp_all
      then show ?thesis using represents_unique [of "shs1 ! i" _ "shs2 ! i"] r1 r2 by simp
    qed
    then show ?thesis using v by auto
  qed
  moreover have "s1 = s2 \<longleftrightarrow> shs1 = shs2" using s1(1) s2(1) by (cases s) simp
  ultimately show ?thesis using s1(2) s2(2) by (simp add: list_eq_iff_nth_eq)
qed


text \<open>The bulk update is the iteration with the deletions first.\<close>

lemma Sharded_BulkUpdate_deletes_first:
  fixes s :: "(SimpleMap, SimpleMap) ShardedSMT"
  assumes "wf_sharded s" and "pools_ok ps" and "0 < rt_procs rt" and "length keys = length values"
    and "sharded_rep s ts (batch_dels (zip keys values) @ batch_ins (zip keys values))"
  shows "\<exists>s' ps' root.
    Sharded_Updates SimpleMap_store SimpleMap_store (batch_dels (zip keys values) @ batch_ins (zip keys values)) s =
      (Inr (), s') \<and>
    Sharded_BulkUpdate SimpleMap_store SimpleMap_store rt keys values (s, ps) = (Inr root, (s', ps')) \<and>
    Sharded_Root s' = Inr root \<and> pools_ok ps'"
proof (cases "keys = []")
  case True
  obtain root where "computeRoot s = Inr root" using computeRoot_ok wf_sharded_nonempty [OF assms(1)] by blast
  then show ?thesis
    using True assms(2,4) by (simp add: Sharded_BulkUpdate_def Sharded_Root_def batch_dels_def batch_ins_def)
next
  case False
  let ?ops = "zip keys values" and ?sb = "shardBits s" and ?SS = SimpleMap_store
  let ?part = "\<lambda>i. shard_part ?sb i ?ops" and ?all = "batch_dels (zip keys values) @ batch_ins (zip keys values)"
  have shard: "\<exists>sh. Updates ?SS ?SS (shard_part ?sb i ?all) (shards s ! i) = (Inr (), sh) \<and>
      shard_batch ?SS ?SS ?sb ?ops i (shards s ! i) = (Inr (Root sh), sh)" if "i < length (shards s)" for i
    using bulk_equiv [where smt = "shards s ! i" and t = "ts ! i" and keys = "map fst (?part i)" and vals = "map snd (?part i)"]
      assms(5) that by (simp add: shard_part_batch shard_batch_def zip_map_fst_snd)
  have upd: "Sharded_Updates ?SS ?SS ?all s = (Inr (), s\<lparr>shards :=
      map (\<lambda>i. snd (Updates ?SS ?SS (shard_part ?sb i ?all) (shards s ! i))) [0..<length (shards s)]\<rparr>)"
    using Sharded_Updates_eq [OF assms(1), of ?SS ?SS ?all] shard by fastforce
  obtain shs err ps' where run: "Sharded_BulkUpdate ?SS ?SS rt keys values (s, ps) =
      (case err of Some e \<Rightarrow> Inl e | None \<Rightarrow> computeRoot (s\<lparr>shards := shs\<rparr>), (s\<lparr>shards := shs\<rparr>, ps'))"
    "pools_ok ps'" "length shs = length (shards s)"
    "\<forall>i < length shs. shs ! i = snd (shard_batch ?SS ?SS ?sb ?ops i (shards s ! i))"
    "err = None \<longleftrightarrow> (\<forall>i < length shs. \<exists>r. fst (shard_batch ?SS ?SS ?sb ?ops i (shards s ! i)) = Inr r)"
    using Sharded_BulkUpdate_run [OF assms(1-4) False, of ?SS ?SS] by blast
  have "err = None" using run(3,5) shard by fastforce
  moreover have shs: "shs = map (\<lambda>i. snd (Updates ?SS ?SS (shard_part ?sb i ?all) (shards s ! i))) [0..<length (shards s)]"
    using run(3,4) shard by (intro nth_equalityI) fastforce+
  moreover obtain root where "computeRoot (s\<lparr>shards := shs\<rparr>) = Inr root"
    using computeRoot_ok wf_sharded_nonempty [OF wf_sharded_shards [OF assms(1) run(3)]] by blast
  ultimately show ?thesis using run(1,2) upd by (auto simp: Sharded_Root_def)
qed

text \<open>
  C22. The sharded bulk update is equivalent to calling the sharded Update for the deletions and then
  for the insertions of the batch: same shards in the end, and the root returned is the combined
  root of that state. It holds for every number of processors, every schedule of the goroutines
  and every choice of pooled buffers. Calling the sharded Update for the pairs of the batch in their
  own order succeeds too, and ends in the same state exactly when every key that the batch writes
  still has a value at the end of its shard's part of the batch: a batch that writes a key and later
  deletes it makes the two differ.
\<close>

theorem Sharded_BulkUpdate_equiv:
  fixes s :: "(SimpleMap, SimpleMap) ShardedSMT"
  assumes "wf_sharded s" and "pools_ok ps" and "0 < rt_procs rt" and "length keys = length values"
    and "sharded_rep s ts (batch_dels (zip keys values) @ batch_ins (zip keys values))"
    and "sharded_rep s ts (zip keys values)"
  shows "\<exists>s' ps' root s''.
    Sharded_Updates SimpleMap_store SimpleMap_store (batch_dels (zip keys values) @ batch_ins (zip keys values)) s =
      (Inr (), s') \<and>
    Sharded_BulkUpdate SimpleMap_store SimpleMap_store rt keys values (s, ps) = (Inr root, (s', ps')) \<and>
    Sharded_Root s' = Inr root \<and> pools_ok ps' \<and>
    Sharded_Updates SimpleMap_store SimpleMap_store (zip keys values) s = (Inr (), s'') \<and>
    (s'' = s' \<longleftrightarrow> (\<forall>i < length (shards s).
       writes_survive (smt_th (shards s ! i)) (shard_part (shardBits s) i (zip keys values))))"
proof -
  obtain s' ps' root where bulk:
    "Sharded_Updates SimpleMap_store SimpleMap_store (batch_dels (zip keys values) @ batch_ins (zip keys values)) s =
      (Inr (), s')"
    "Sharded_BulkUpdate SimpleMap_store SimpleMap_store rt keys values (s, ps) = (Inr root, (s', ps'))"
    "Sharded_Root s' = Inr root" "pools_ok ps'"
    using Sharded_BulkUpdate_deletes_first [OF assms(1-5)] by blast
  obtain s'' where iter: "Sharded_Updates SimpleMap_store SimpleMap_store (zip keys values) s = (Inr (), s'')"
    using Sharded_Updates_represents [OF assms(1,6)] by blast
  have "s'' = s' \<longleftrightarrow> (\<forall>i < length (shards s).
      writes_survive (smt_th (shards s ! i)) (shard_part (shardBits s) i (zip keys values)))"
    using Sharded_Updates_same [OF assms(1,5,6) bulk(1) iter] by (auto simp: shard_part_batch batch_order)
  then show ?thesis using bulk iter by blast
qed

text \<open>A sharded tree with two shards over the toy hash.\<close>

definition toy_sharded :: "(SimpleMap, SimpleMap) ShardedSMT" where
  "toy_sharded = \<lparr>shards = [toy_smt, toy_smt], shardBits = 1, hasherFn = (\<lambda>_. toy)\<rparr>"

definition toy_rt :: runtime where
  "toy_rt = \<lparr>rt_procs = 4, rt_pickScratch = 0, rt_pickIdx = 0, rt_idxSched = [2, 0, 1], rt_fanSched = [1, 0]\<rparr>"

definition toy_pools :: pools where
  "toy_pools = \<lparr>p_scratch = Map.empty, p_idx = []\<rparr>"

lemma toy_sharded_ok: "wf_sharded toy_sharded" "pools_ok toy_pools" "0 < rt_procs toy_rt"
  by (auto simp: wf_sharded_def toy_sharded_def pools_ok_def toy_pools_def toy_rt_def intro!: exI [of _ 1])

lemma toy_new: "NewShardedSMT 2 (\<lambda>_. (NewSimpleMap, NewSimpleMap)) (\<lambda>_. toy) = Inr toy_sharded"
  by (simp add: NewShardedSMT_def toy_sharded_def upt_rec shard_bits_loop.simps drop_bit_Suc)

lemma toy_sharded_rep:
  assumes "\<forall>part \<in> set (subseqs ops). collision_free toy_th (hist_preimages toy_th part Empty)"
  shows "sharded_rep toy_sharded [Empty, Empty] ops"
proof (intro allI impI)
  fix i assume "i < length (shards toy_sharded)"
  then have sh: "shards toy_sharded ! i = toy_smt" "[Empty, Empty] ! i = Empty"
    by (auto simp: toy_sharded_def less_Suc_eq)
  have "shard_part (shardBits toy_sharded) i ops \<in> set (subseqs ops)"
    by (simp add: shard_part_def set_subseqs_eq)
  then show "represents sm_m sm_m (shards toy_sharded ! i) ([Empty, Empty] ! i) \<and>
     collision_free (smt_th (shards toy_sharded ! i))
       (hist_preimages (smt_th (shards toy_sharded ! i)) (shard_part (shardBits toy_sharded) i ops) ([Empty, Empty] ! i))"
    unfolding sh using toy_smt_represents assms by simp
qed

theorem Sharded_BulkUpdate_equiv_witness:
  "\<exists>s' ps' root s''.
    Sharded_Updates SimpleMap_store SimpleMap_store [([1], []), ([1], [10]), ([70], [20])] toy_sharded = (Inr (), s') \<and>
    Sharded_BulkUpdate SimpleMap_store SimpleMap_store toy_rt [[1], [70], [1]] [[10], [20], []] (toy_sharded, toy_pools) =
      (Inr root, (s', ps')) \<and>
    Sharded_Root s' = Inr root \<and> pools_ok ps' \<and>
    Sharded_Updates SimpleMap_store SimpleMap_store [([1], [10]), ([70], [20]), ([1], [])] toy_sharded = (Inr (), s'') \<and>
    s'' \<noteq> s'"
proof -
  let ?ops = "[([1], [10]), ([70], [20]), ([1], [])] :: history"
  have zip: "zip [[1], [70], [1]] [[10], [20], []] = ?ops"
    and ops: "batch_dels ?ops @ batch_ins ?ops = [([1], []), ([1], [10]), ([70], [20])]"
    by (simp_all add: batch_dels_def batch_ins_def)
  have rep: "sharded_rep toy_sharded [Empty, Empty] ?ops"
    "sharded_rep toy_sharded [Empty, Empty] [([1], []), ([1], [10]), ([70], [20])]"
    by (rule toy_sharded_rep; code_simp)+
  have i: "shardOf toy_sharded [1] < length (shards toy_sharded)" by (rule shardOf_bound [OF toy_sharded_ok(1)])
  then have th: "smt_th (shards toy_sharded ! shardOf toy_sharded [1]) = toy_th"
    by (auto simp: toy_sharded_def less_Suc_eq toy_smt_represents(2))
  have H: "H toy_th [1] = [29]" "H toy_th [70] = [98]" by code_simp+
  have "\<not> writes_survive toy_th (shard_part (shardBits toy_sharded) (shardOf toy_sharded [1]) ?ops)"
    by (auto simp: writes_survive_def shard_part_def shardOf_def H mupdate_def)
  then show ?thesis
    using Sharded_BulkUpdate_equiv [OF toy_sharded_ok, of "[[1], [70], [1]]" "[[10], [20], []]" "[Empty, Empty]"] rep i th
    unfolding zip ops by auto
qed

text \<open>
  C23. Errors of a sharded bulk update, over any stores: a batch with unequal lengths is refused and
  changes nothing; otherwise every shard runs its own part of the batch whatever happens to the
  others, and the call fails exactly when some shard fails, with the error of a failing shard.
\<close>

theorem Sharded_BulkUpdate_errors:
  fixes nI :: "'n MapStore" and vI :: "'v MapStore" and s :: "('n, 'v) ShardedSMT"
  assumes "wf_sharded s" and "pools_ok ps" and "0 < rt_procs rt"
  shows "if length keys \<noteq> length values
    then Sharded_BulkUpdate nI vI rt keys values (s, ps) = (Inl ErrBulkInputMismatch, (s, ps))
    else \<exists>r s' ps'. Sharded_BulkUpdate nI vI rt keys values (s, ps) = (r, (s', ps')) \<and>
      shards s' = map (\<lambda>i. snd (shard_batch nI vI (shardBits s) (zip keys values) i (shards s ! i))) [0..<length (shards s)] \<and>
      (case r of
         Inl e \<Rightarrow> \<exists>i < length (shards s). fst (shard_batch nI vI (shardBits s) (zip keys values) i (shards s ! i)) = Inl e
       | Inr root \<Rightarrow> Sharded_Root s' = Inr root \<and>
           (\<forall>i < length (shards s). \<exists>x. fst (shard_batch nI vI (shardBits s) (zip keys values) i (shards s ! i)) = Inr x))"
proof (cases "length keys = length values")
  case False
  then show ?thesis by (simp add: Sharded_BulkUpdate_def)
next
  case len: True
  obtain root where root: "computeRoot s = Inr root" using computeRoot_ok wf_sharded_nonempty [OF assms(1)] by blast
  show ?thesis
  proof (cases "keys = []")
    case True
    have "shard_batch nI vI sb [] i sh = (Inr (Root sh), sh)" for sb i sh
      by (simp add: shard_batch_def shard_part_def BulkUpdate_def)
    then show ?thesis
      using True len root by (simp add: Sharded_BulkUpdate_def Sharded_Root_def map_nth)
  next
    case False
    let ?b = "\<lambda>i. shard_batch nI vI (shardBits s) (zip keys values) i (shards s ! i)"
    obtain shs err ps' where run: "Sharded_BulkUpdate nI vI rt keys values (s, ps) =
        (case err of Some e \<Rightarrow> Inl e | None \<Rightarrow> computeRoot (s\<lparr>shards := shs\<rparr>), (s\<lparr>shards := shs\<rparr>, ps'))"
      "length shs = length (shards s)" "\<forall>i < length shs. shs ! i = snd (?b i)"
      "err = None \<longleftrightarrow> (\<forall>i < length shs. \<exists>r. fst (?b i) = Inr r)"
      "\<forall>e. err = Some e \<longrightarrow> (\<exists>i < length shs. fst (?b i) = Inl e)"
      using Sharded_BulkUpdate_run [OF assms len False, of nI vI] by blast
    have shs: "shs = map (\<lambda>i. snd (?b i)) [0..<length (shards s)]"
      using run(2,3) by (intro nth_equalityI) simp_all
    obtain root where "computeRoot (s\<lparr>shards := shs\<rparr>) = Inr root"
      using computeRoot_ok wf_sharded_nonempty [OF wf_sharded_shards [OF assms(1) run(2)]] by blast
    then show ?thesis
      using run(1,2,4,5) shs len by (cases err) (auto simp: Sharded_Root_def)
  qed
qed

theorem Sharded_BulkUpdate_errors_witness:
  "Sharded_BulkUpdate SimpleMap_store SimpleMap_store toy_rt [[70], [1]] [[20]] (toy_sharded, toy_pools) =
   (Inl ErrBulkInputMismatch, (toy_sharded, toy_pools))"
  using Sharded_BulkUpdate_errors [OF toy_sharded_ok, of "[[70], [1]]" "[[20]]" SimpleMap_store SimpleMap_store] by simp

section \<open>Construction and routing\<close>

text \<open>
  C24. NewShardedSMT refuses every count that is not a power of two from 1 to 256; for the others it
  makes that many empty trees, and every key routes to one of them.
\<close>

theorem NewShardedSMT_spec:
  "if \<exists>k \<le> 8. shardCount = 2 ^ k
   then \<exists>s. NewShardedSMT shardCount mapstoreFactory hasherFactory = Inr s \<and>
     int (ShardCount s) = shardCount \<and> wf_sharded s \<and> (\<forall>key. shardOf s key < ShardCount s) \<and>
     (\<forall>i < ShardCount s. ShardRoot s i = Inr (placeholder (newTreeHasher (hasherFactory ()))))
   else NewShardedSMT shardCount mapstoreFactory hasherFactory = Inl ErrInvalidShardCount"
proof (cases "\<exists>k \<le> 8. shardCount = 2 ^ k")
  case True
  then obtain k where k: "k \<le> 8" "shardCount = 2 ^ k" by blast
  have "(2 :: int) ^ k \<le> 2 ^ 8" using k(1) by (intro power_increasing) simp_all
  then have r: "shardCount \<in> {1..256}" using k by simp
  then have "shardCount AND (shardCount - 1) = 0" using pow2_check k by blast
  then obtain s where s: "NewShardedSMT shardCount mapstoreFactory hasherFactory = Inr s"
    using r by (simp add: NewShardedSMT_def)
  have sh: "shards s = map (\<lambda>i. let (nodes, values) = mapstoreFactory i
      in NewSparseMerkleTree nodes values (hasherFactory ()) []) [0..<nat shardCount]"
    using s r by (auto simp: NewShardedSMT_def split: if_splits)
  have "ShardRoot s i = Inr (placeholder (newTreeHasher (hasherFactory ())))" if "i < ShardCount s" for i
    using that sh by (auto simp: ShardRoot_def ShardCount_def Root_def NewSparseMerkleTree_def SetRoot_def Let_def
        split: prod.splits)
  then show ?thesis
    using True s NewShardedSMT_wf [OF s] shardOf_bound by (auto simp: ShardCount_def)
next
  case False
  then show ?thesis using pow2_check [of shardCount] by (auto simp: NewShardedSMT_def)
qed

theorem NewShardedSMT_spec_witness:
  "(\<exists>s. NewShardedSMT 2 (\<lambda>_. (NewSimpleMap, NewSimpleMap)) (\<lambda>_. toy) = Inr s \<and>
     int (ShardCount s) = 2 \<and> wf_sharded s \<and> (\<forall>key. shardOf s key < ShardCount s) \<and>
     (\<forall>i < ShardCount s. ShardRoot s i = Inr (placeholder (newTreeHasher toy)))) \<and>
   NewShardedSMT 0 (\<lambda>_. (NewSimpleMap, NewSimpleMap)) (\<lambda>_. toy) = Inl ErrInvalidShardCount"
proof
  have "\<exists>k \<le> 8. (2 :: int) = 2 ^ k" by (intro exI [of _ 1]) simp
  then show "\<exists>s. NewShardedSMT 2 (\<lambda>_. (NewSimpleMap, NewSimpleMap)) (\<lambda>_. toy) = Inr s \<and>
      int (ShardCount s) = 2 \<and> wf_sharded s \<and> (\<forall>key. shardOf s key < ShardCount s) \<and>
      (\<forall>i < ShardCount s. ShardRoot s i = Inr (placeholder (newTreeHasher toy)))"
    using NewShardedSMT_spec [of 2 "\<lambda>_. (NewSimpleMap, NewSimpleMap)" "\<lambda>_. toy"] by presburger
  show "NewShardedSMT 0 (\<lambda>_. (NewSimpleMap, NewSimpleMap)) (\<lambda>_. toy) = Inl ErrInvalidShardCount"
    using NewShardedSMT_spec [of 0 "\<lambda>_. (NewSimpleMap, NewSimpleMap)" "\<lambda>_. toy"] by simp
qed

text \<open>
  C25. The parallel routing pass gives every key the shard that the serial \<open>shardOf\<close> gives it, for
  every number of processors, every interleaving of the workers and every content of the buffer.
\<close>

theorem parallelComputeShardIdxs_routes:
  assumes "0 < procs" and "length idxs = length keys"
  shows "map unat (parallelComputeShardIdxs procs sched idxs keys (shardBits s)) = map (shardOf s) keys"
  using parallel_eq [OF assms] by (simp add: shardOf_def)

theorem parallelComputeShardIdxs_routes_witness:
  "map unat (parallelComputeShardIdxs 8 [3, 0] (replicate 2000 0) (replicate 2000 [7]) (shardBits toy_sharded)) =
   map (shardOf toy_sharded) (replicate 2000 [7])"
  by (rule parallelComputeShardIdxs_routes) simp_all

text \<open>
  C26. The chunks of the parallel routing pass partition the index range: laid end to end they are the
  indices in order, so every index is written by exactly one goroutine and there is no race.
\<close>

theorem idx_chunks_disjoint:
  assumes "0 < procs" and "0 < n"
  shows "concat (map (\<lambda>(start, end). [start..<end]) (idx_chunks n procs)) = [0..<n] \<and>
    length (idx_chunks n procs) \<le> min 16 procs"
proof -
  have "length (idx_chunks n procs) \<le> (if procs > 16 then 16 else procs)"
    unfolding idx_chunks_def Let_def by (rule order_trans [OF length_filter_le]) simp
  then show ?thesis using idx_chunks_partition [OF assms] by (auto simp: min_def split: if_splits)
qed

theorem idx_chunks_disjoint_witness:
  "concat (map (\<lambda>(start, end). [start..<end]) (idx_chunks 1030 4)) = [0..<1030] \<and> length (idx_chunks 1030 4) \<le> min 16 4"
  by (rule idx_chunks_disjoint) simp_all

section \<open>Reads after writes\<close>

text \<open>
  C27. The well-formedness of a sharded tree (as many shards as its routing bits address) and of the
  scratch pools (pooled buckets are empty) is kept by every call, successful or not, over any
  stores; so no call indexes a shard or a bucket out of range.
\<close>

theorem Sharded_invariant:
  fixes nI :: "'n MapStore" and vI :: "'v MapStore" and s :: "('n, 'v) ShardedSMT"
  assumes "wf_sharded s" and "pools_ok ps" and "0 < rt_procs rt"
  shows "wf_sharded (snd (Sharded_Update nI vI key value s)) \<and>
    wf_sharded (fst (snd (Sharded_BulkUpdate nI vI rt keys values (s, ps)))) \<and>
    pools_ok (snd (snd (Sharded_BulkUpdate nI vI rt keys values (s, ps))))"
proof -
  obtain r sh where "Update nI vI key value (shards s ! shardOf s key) = (r, sh)" by fastforce
  then have "wf_sharded (snd (Sharded_Update nI vI key value s))"
    using Sharded_Update_eq [OF assms(1)] wf_sharded_shards [OF assms(1)] by simp
  moreover have "wf_sharded (fst (snd (Sharded_BulkUpdate nI vI rt keys values (s, ps)))) \<and>
      pools_ok (snd (snd (Sharded_BulkUpdate nI vI rt keys values (s, ps))))"
  proof (cases "length keys = length values \<and> keys \<noteq> []")
    case True
    then have "length keys = length values" "keys \<noteq> []" by simp_all
    from Sharded_BulkUpdate_run [OF assms this, of nI vI] show ?thesis
      using wf_sharded_shards [OF assms(1)] by auto
  next
    case False
    then show ?thesis using assms by (auto simp: Sharded_BulkUpdate_def)
  qed
  ultimately show ?thesis by blast
qed

theorem Sharded_invariant_witness:
  "wf_sharded (snd (Sharded_Update SimpleMap_store SimpleMap_store [1] [10] toy_sharded)) \<and>
   wf_sharded (fst (snd (Sharded_BulkUpdate SimpleMap_store SimpleMap_store toy_rt [[1]] [[10]] (toy_sharded, toy_pools)))) \<and>
   pools_ok (snd (snd (Sharded_BulkUpdate SimpleMap_store SimpleMap_store toy_rt [[1]] [[10]] (toy_sharded, toy_pools))))"
  by (rule Sharded_invariant [OF toy_sharded_ok])

text \<open>
  C28. After a sharded Update of a key, Get of the key returns the value, Get of a key on another
  shard or with another path is unchanged, and the root returned is the combined root.
\<close>

theorem Sharded_Get_after_Update:
  fixes s :: "(SimpleMap, SimpleMap) ShardedSMT"
  assumes "wf_sharded s" and "shards s ! shardOf s key = smt" and "represents sm_m sm_m smt t"
    and "collision_free (smt_th smt) (hist_preimages (smt_th smt) [(key, value)] t)"
  shows "\<exists>root s'. Sharded_Update SimpleMap_store SimpleMap_store key value s = (Inr root, s') \<and>
    Sharded_Root s' = Inr root \<and> Sharded_Get SimpleMap_store s' key = Inr value \<and>
    (\<forall>key'. shardOf s key' \<noteq> shardOf s key \<or> H (smt_th smt) key' \<noteq> H (smt_th smt) key \<longrightarrow>
      Sharded_Get SimpleMap_store s' key' = Sharded_Get SimpleMap_store s key')"
proof -
  let ?th = "smt_th smt" and ?j = "shardOf s key"
  let ?t = "tupdate (H ?th key) value t"
  note r = representsD [OF assms(3)]
  have j: "shardOf s k < length (shards s)" for k using shardOf_bound [OF assms(1)] .
  have S: "collision_free ?th (preimages ?th t \<union> preimages ?th ?t)" using assms(4) by simp
  obtain sh where sh: "Update SimpleMap_store SimpleMap_store key value smt = (Inr (smt_root sh), sh)"
    "represents sm_m sm_m sh ?t" "smt_th sh = ?th"
    using smts.Update_ok [OF assms(3) refl _ _ _ refl S] by auto
  define s' where "s' = s\<lparr>shards := (shards s)[?j := sh]\<rparr>"
  have wf: "wf_sharded s'" using wf_sharded_shards [OF assms(1)] by (simp add: s'_def)
  obtain root where root: "computeRoot s' = Inr root" using computeRoot_ok wf_sharded_nonempty [OF wf] by blast
  have upd: "Sharded_Update SimpleMap_store SimpleMap_store key value s = (Inr root, s')"
    using Sharded_Update_eq [OF assms(1)] sh(1) assms(2) root by (simp add: s'_def)
  have same: "shardOf s' k = shardOf s k" for k by (simp add: shardOf_def s'_def)
  have get: "Get SimpleMap_store sh k = Inr (case mupdate (H ?th key) value (tmap t) (H ?th k) of None \<Rightarrow> [] | Some v \<Rightarrow> v)"
    "Get SimpleMap_store smt k = Inr (case tmap t (H ?th k) of None \<Rightarrow> [] | Some v \<Rightarrow> v)" for k
    using smts.Get_ok [OF sh(2) refl, of k] smts.Get_ok [OF assms(3) refl, of k] sh(3) S
      collision_free_subset [OF S] tupdate_correct [OF r(2), of "H ?th key" "value"] r(1) by simp_all
  have "Sharded_Get SimpleMap_store s' key = Inr value"
    using get(1) [of key] same j by (auto simp: Sharded_Get_def s'_def mupdate_def)
  moreover have "Sharded_Get SimpleMap_store s' k = Sharded_Get SimpleMap_store s k"
    if "shardOf s k \<noteq> ?j \<or> H ?th k \<noteq> H ?th key" for k
    using that get [of k] same j assms(2)
    by (cases "shardOf s k = ?j") (auto simp: Sharded_Get_def s'_def mupdate_def)
  ultimately show ?thesis using upd root by (auto simp: Sharded_Root_def)
qed

theorem Sharded_Get_after_Update_witness:
  "\<exists>root s'. Sharded_Update SimpleMap_store SimpleMap_store [1] [10] toy_sharded = (Inr root, s') \<and>
    Sharded_Root s' = Inr root \<and> Sharded_Get SimpleMap_store s' [1] = Inr [10]"
proof -
  have sh: "shards toy_sharded ! shardOf toy_sharded [1] = toy_smt"
    using shardOf_bound [OF toy_sharded_ok(1), of "[1]"] by (auto simp: toy_sharded_def less_Suc_eq)
  have "collision_free toy_th (hist_preimages toy_th [([1], [10])] Empty)" by code_simp
  then show ?thesis
    using Sharded_Get_after_Update [OF toy_sharded_ok(1) sh toy_smt_represents(1), of "[10]"] toy_smt_represents(2)
    by auto
qed

section \<open>What the combined root commits to\<close>

text \<open>
  C29. The combined root binds the contents: two sharded trees with the same number of shards and the
  same hash, whose shards represent trees, and whose combined roots agree, return the same value for
  every key, as long as the hash does not collide on what the two trees and the two folds hash.
\<close>

theorem combined_root_binds:
  fixes s1 s2 :: "(SimpleMap, SimpleMap) ShardedSMT"
  assumes "wf_hash h" and "hasherFn s1 () = h" and "hasherFn s2 () = h"
    and "shardBits s1 = shardBits s2" and "wf_sharded s1" and "wf_sharded s2" and "ShardCount s1 = ShardCount s2"
    and "\<forall>i < ShardCount s1. represents sm_m sm_m (shards s1 ! i) (ts1 ! i) \<and> smt_th (shards s1 ! i) = newTreeHasher h \<and>
      preimages (newTreeHasher h) (ts1 ! i) \<subseteq> S"
    and "\<forall>i < ShardCount s2. represents sm_m sm_m (shards s2 ! i) (ts2 ! i) \<and> smt_th (shards s2 ! i) = newTreeHasher h \<and>
      preimages (newTreeHasher h) (ts2 ! i) \<subseteq> S"
    and "collision_free (newTreeHasher h) S"
    and "set (merge_data (hash_alg h) (map Root (shards s1))) \<subseteq> S"
    and "set (merge_data (hash_alg h) (map Root (shards s2))) \<subseteq> S"
    and "Sharded_Root s1 = Sharded_Root s2"
  shows "Sharded_Get SimpleMap_store s1 key = Sharded_Get SimpleMap_store s2 key"
proof -
  let ?th = "newTreeHasher h" and ?l1 = "map Root (shards s1)" and ?l2 = "map Root (shards s2)"
  have th: "wf_th ?th" "hash_alg h = H ?th" "pathSize ?th = hash_Size h"
    using assms(1) by (simp_all add: H_def [abs_def]) (simp_all add: newTreeHasher_def Let_def pathSize_def)
  have roots: "Root (shards s1 ! i) = thash ?th (ts1 ! i)" "Root (shards s2 ! i) = thash ?th (ts2 ! i)"
    if "i < ShardCount s1" for i
    using assms(7-9) that representsD(3) by (metis Root_def)+
  have lens: "\<forall>x \<in> set ?l1 \<union> set ?l2. length x = hash_Size h" "length ?l1 = length ?l2"
    using roots assms(7) th by (auto simp: in_set_conv_nth ShardCount_def)
  have ne: "?l1 \<noteq> []" "?l2 \<noteq> []" using wf_sharded_nonempty assms(5,6) by auto
  have "computeRoot s1 = computeRoot s2"
    using assms(13) computeRoot_ok [of s1] computeRoot_ok [of s2] ne by (auto simp: Sharded_Root_def)
  then have "merge_levels h ?l1 = merge_levels h ?l2"
    using merge_levels_single [OF ne(1), of h] merge_levels_single [OF ne(2), of h] assms(2,3)
    by (auto simp: computeRoot_def Let_def length_Suc_conv)
  moreover have "inj_on (hash_alg h) S" "\<forall>d. length (hash_alg h d) = hash_Size h"
    using assms(1,10) th(2) by (auto simp: collision_free_def wf_hash_def)
  ultimately have "?l1 = ?l2"
    using merge_levels_inject [of h ?l1 h ?l2 S "hash_Size h"] lens assms(11,12) by simp
  then have same: "Root (shards s1 ! i) = Root (shards s2 ! i)" if "i < ShardCount s1" for i
    using that by (metis ShardCount_def length_map nth_map)
  let ?i = "shardOf s1 key"
  have i: "?i < ShardCount s1" "shardOf s2 key = ?i" "?i < ShardCount s2"
    using shardOf_bound [OF assms(5), of key] assms(4,7) by (simp_all add: ShardCount_def shardOf_def)
  have r: "represents sm_m sm_m (shards s1 ! ?i) (ts1 ! ?i)" "represents sm_m sm_m (shards s2 ! ?i) (ts2 ! ?i)"
    "smt_th (shards s1 ! ?i) = ?th" "smt_th (shards s2 ! ?i) = ?th"
    "preimages ?th (ts1 ! ?i) \<subseteq> S" "preimages ?th (ts2 ! ?i) \<subseteq> S"
    using assms(8,9) i by auto
  have "ts1 ! ?i = ts2 ! ?i"
    using thash_inject [OF th(1) refl assms(10) _ _ r(5,6)] representsD(2) [OF r(1)] representsD(2) [OF r(2)]
      same [OF i(1)] roots [OF i(1)] r(3,4) by metis
  then have "Get SimpleMap_store (shards s1 ! ?i) key = Get SimpleMap_store (shards s2 ! ?i) key"
    using smts.Get_ok [OF r(1) refl, of key] smts.Get_ok [OF r(2) refl, of key] r(3-6)
      collision_free_subset [OF assms(10)] by simp
  then show ?thesis using i by (simp add: Sharded_Get_def ShardCount_def)
qed

definition toy_sharded1 :: "(SimpleMap, SimpleMap) ShardedSMT" where
  "toy_sharded1 = toy_sharded\<lparr>shards := [snd (Updates SimpleMap_store SimpleMap_store [([1], [10]), ([70], [20])] toy_smt), toy_smt]\<rparr>"

definition toy_sharded2 :: "(SimpleMap, SimpleMap) ShardedSMT" where
  "toy_sharded2 = toy_sharded\<lparr>shards := [snd (Updates SimpleMap_store SimpleMap_store [([70], [20]), ([1], [10])] toy_smt), toy_smt]\<rparr>"

lemma toy_pair:
  assumes "represents sm_m sm_m smt t \<and> smt_th smt = toy_th" "preimages toy_th t \<subseteq> S"
  shows "\<forall>i < ShardCount (toy_sharded\<lparr>shards := [smt, toy_smt]\<rparr>).
    represents sm_m sm_m (shards (toy_sharded\<lparr>shards := [smt, toy_smt]\<rparr>) ! i) ([t, Empty] ! i) \<and>
    smt_th (shards (toy_sharded\<lparr>shards := [smt, toy_smt]\<rparr>) ! i) = toy_th \<and> preimages toy_th ([t, Empty] ! i) \<subseteq> S"
    "wf_sharded (toy_sharded\<lparr>shards := [smt, toy_smt]\<rparr>)"
  using assms toy_smt_represents toy_sharded_ok(1)
  by (auto simp: ShardCount_def less_Suc_eq wf_sharded_def toy_sharded_def)

lemma toy_fields:
  "hasherFn (toy_sharded\<lparr>shards := [smt, toy_smt]\<rparr>) () = toy" "shardBits (toy_sharded\<lparr>shards := xs\<rparr>) = 1"
  "ShardCount (toy_sharded\<lparr>shards := [smt, toy_smt]\<rparr>) = 2"
  "represents sm_m sm_m smt t \<and> smt_th smt = toy_th \<Longrightarrow>
   map Root (shards (toy_sharded\<lparr>shards := [smt, toy_smt]\<rparr>)) = [thash toy_th t, thash toy_th Empty]"
  using toy_smt_represents by (auto simp: toy_sharded_def ShardCount_def Root_def dest!: representsD(3))

theorem combined_root_binds_witness:
  "Sharded_Get SimpleMap_store toy_sharded1 [70] = Sharded_Get SimpleMap_store toy_sharded2 [70]"
proof -
  let ?U = "\<lambda>ops. snd (Updates SimpleMap_store SimpleMap_store ops toy_smt)" and ?t = "\<lambda>ops. tupdates toy_th ops Empty"
  let ?ops1 = "[([1], [10]), ([70], [20])]" and ?ops2 = "[([70], [20]), ([1], [10])]"
  let ?roots = "\<lambda>ops. [thash toy_th (?t ops), thash toy_th Empty]"
  define S where "S = preimages toy_th (?t ?ops1) \<union> preimages toy_th (?t ?ops2) \<union>
    set (merge_data (hash_alg toy) (?roots ?ops1)) \<union> set (merge_data (hash_alg toy) (?roots ?ops2))"
  have rep: "represents sm_m sm_m (?U ops) (?t ops) \<and> smt_th (?U ops) = toy_th"
    if "collision_free toy_th (hist_preimages toy_th ops Empty)" for ops
    using smts.Updates_ok [OF toy_smt_represents(1) refl, where ops = ops] toy_smt_represents(2) that by auto
  have "collision_free toy_th (hist_preimages toy_th ?ops1 Empty)"
    "collision_free toy_th (hist_preimages toy_th ?ops2 Empty)" by code_simp+
  note reps = this [THEN rep]
  note roots = reps [THEN toy_fields(4)]
  have roots1: "map Root (shards toy_sharded1) = ?roots ?ops1" and roots2: "map Root (shards toy_sharded2) = ?roots ?ops2"
    unfolding toy_sharded1_def toy_sharded2_def by (rule roots(1), rule roots(2))
  have sub: "preimages toy_th (?t ?ops1) \<subseteq> S" "preimages toy_th (?t ?ops2) \<subseteq> S"
    "set (merge_data (hash_alg toy) (map Root (shards toy_sharded1))) \<subseteq> S"
    "set (merge_data (hash_alg toy) (map Root (shards toy_sharded2))) \<subseteq> S" unfolding S_def roots1 roots2 by blast+
  note p1 = toy_pair [OF reps(1) sub(1), folded toy_sharded1_def]
    and p2 = toy_pair [OF reps(2) sub(2), folded toy_sharded2_def]
  have eqs: "hasherFn toy_sharded1 () = toy" "hasherFn toy_sharded2 () = toy" "shardBits toy_sharded1 = shardBits toy_sharded2"
    "ShardCount toy_sharded1 = ShardCount toy_sharded2"
    unfolding toy_sharded1_def toy_sharded2_def by (simp_all only: toy_fields)
  have cf: "collision_free toy_th S" unfolding S_def by code_simp
  have same: "?t ?ops1 = ?t ?ops2" by code_simp
  have "Sharded_Root toy_sharded1 = Sharded_Root toy_sharded2"
    unfolding Sharded_Root_def computeRoot_def Let_def roots1 roots2 eqs(1,2) same ..
  then show ?thesis
    by (rule combined_root_binds [OF wf_toy eqs(1-3) p1(2) p2(2) eqs(4) p1(1) p2(1) cf sub(3,4)])
qed

end
