(* ===== verification/BuffersCorrect.thy ===== *)
theory BuffersCorrect
  imports Buffers
begin

text \<open>
  The walks with slices into the scratch arrays refine the walks on byte strings: \<open>sees\<close> relates
  the two, and is preserved by sequencing and case distinctions, so the proofs follow the code.
\<close>

section \<open>Slices that a write leaves alone\<close>

fun apart :: "slice \<Rightarrow> buf \<Rightarrow> bool" where
  "apart (Bytes _) b \<longleftrightarrow> True"
| "apart (Slice PathBuf _) b \<longleftrightarrow> b \<noteq> PathBuf"
| "apart (Slice ValueHashBuf _) b \<longleftrightarrow> b \<noteq> ValueHashBuf"
| "apart (Slice (HashBuf _) _) b \<longleftrightarrow> b = PathBuf \<or> b = ValueHashBuf"

lemma load_store_apart: "apart s b \<Longrightarrow> load (buf_store b x sc) s = load sc s"
  by (cases "(s, b)" rule: apart.cases; cases b) (auto simp: hashBufs_def)

lemma buf_load_store: "buf_load (buf_store b x sc) b = x"
  by (cases b) (auto simp: hashBufs_def)

lemma sum_into_load:
  assumes "sum_into b h sc = (s, sc')"
  shows "load sc' s = h" "apart x b \<Longrightarrow> load sc' x = load sc x"
  using assms by (auto simp: sum_into_def load_store_apart buf_load_store split: if_splits)

lemma sum_into_slice: "sum_into b h sc = (s, sc') \<Longrightarrow> b' \<noteq> b \<Longrightarrow> \<not> (\<exists>i j. b = HashBuf i \<and> b' = HashBuf j) \<Longrightarrow> apart s b'"
  by (cases b; cases b') (auto simp: sum_into_def split: if_splits)

lemma digestNodeInto_mem_load:
  assumes "wf_th th" "digestNodeInto_mem th dst l r sc = (s, d, sc')"
  shows "d = node_data (load sc l) (load sc r)" "load sc' s = H th d" "apart x dst \<Longrightarrow> load sc' x = load sc x"
  using assms by (auto simp: digestNodeInto_mem_def Let_def sum_into_load split: prod.splits)

section \<open>Refinement of an operation\<close>

text \<open>
  \<open>sees v path p m g\<close>: wherever \<open>m\<close> ends with a reference and the arrays, \<open>g\<close> ends with what \<open>v\<close>
  then reads through the reference; errors and trees agree, and the path can still be read.
\<close>

fun sees_at :: "(updateScratch \<Rightarrow> 'r \<Rightarrow> 'b) \<Rightarrow> slice \<Rightarrow> bytes \<Rightarrow> ('r \<times> updateScratch) result \<times> 's \<Rightarrow>
    'b result \<times> 's \<Rightarrow> bool" where
  "sees_at v path p (Inl e, smt) q \<longleftrightarrow> q = (Inl e, smt)"
| "sees_at v path p (Inr (h, sc), smt) q \<longleftrightarrow> q = (Inr (v sc h), smt) \<and> load sc path = p"

definition sees :: "(updateScratch \<Rightarrow> 'r \<Rightarrow> 'b) \<Rightarrow> slice \<Rightarrow> bytes \<Rightarrow> ('s, 'r \<times> updateScratch) op \<Rightarrow>
    ('s, 'b) op \<Rightarrow> bool" where
  "sees v path p m g \<longleftrightarrow> (\<forall>smt. sees_at v path p (m smt) (g smt))"

lemma sees_atI: "sees v path p m g \<Longrightarrow> sees_at v path p (m smt) (g smt)"
  by (simp add: sees_def)

named_theorems sees_intros \<open>rules for \<open>sees\<close>\<close>

lemma sees_bind2:
  assumes "sees v path p m n" "\<And>x sc. load sc path = p \<Longrightarrow> sees w path p (f (x, sc)) (g (v sc x))"
  shows "sees w path p (bindS m f) (bindS n g)"
  unfolding sees_def
proof
  fix smt
  have m: "sees_at v path p (m smt) (n smt)" using assms(1) by (simp add: sees_def)
  obtain r smt1 where r: "m smt = (r, smt1)" by fastforce
  show "sees_at w path p (bindS m f smt) (bindS n g smt)"
  proof (cases r)
    case (Inr y)
    then obtain x sc where y: "r = Inr (x, sc)" by (cases y) auto
    then show ?thesis using m r assms(2) [of sc x] by (simp add: bindS_def sees_def)
  qed (use m r in \<open>simp add: bindS_def\<close>)
qed

lemma sees_bind [sees_intros]:
  assumes "\<And>x. sees v path p (f x) (g x)"
  shows "sees v path p (bindS m f) (bindS m g)"
  unfolding sees_def
proof
  fix smt
  show "sees_at v path p (bindS m f smt) (bindS m g smt)"
    using assms unfolding sees_def by (auto simp: bindS_def split: prod.split sum.split)
qed

lemma sees_if [sees_intros]:
  "(c \<Longrightarrow> sees v path p a a') \<Longrightarrow> (\<not> c \<Longrightarrow> sees v path p b b') \<Longrightarrow>
   sees v path p (if c then a else b) (if c then a' else b')"
  by simp

lemma sees_option [sees_intros]:
  "(x = None \<Longrightarrow> sees v path p a a') \<Longrightarrow> (\<And>y. x = Some y \<Longrightarrow> sees v path p (f y) (f' y)) \<Longrightarrow>
   sees v path p (case x of None \<Rightarrow> a | Some y \<Rightarrow> f y) (case x of None \<Rightarrow> a' | Some y \<Rightarrow> f' y)"
  by (cases x) auto

lemma sees_prod [sees_intros]:
  "(\<And>a b. x = (a, b) \<Longrightarrow> sees v path p (f a b) (f' a b)) \<Longrightarrow>
   sees v path p (case x of (a, b) \<Rightarrow> f a b) (case x of (a, b) \<Rightarrow> f' a b)"
  by (cases x) auto

lemma sees_throw [sees_intros]: "sees v path p (throwS e) (throwS e)"
  by (simp add: sees_def)

lemma sees_return: "v sc h = x \<Longrightarrow> load sc path = p \<Longrightarrow> sees v path p (returnS (h, sc)) (returnS x)"
  by (simp add: sees_def)

text \<open>One level of a climb: hash into an array, store the node, go on.\<close>

lemma sees_node:
  assumes "wf_th th" "load sc l = l'" "load sc r = r'" "load sc path = p" "apart path (HashBuf turn)"
    and "\<And>h sc'. load sc' h = H th (node_data l' r') \<Longrightarrow> load sc' path = p \<Longrightarrow>
      sees v path p (f h sc') (g (H th (node_data l' r')))"
  shows "sees v path p
    (let (h, d, sc') = digestNodeInto_mem th (HashBuf turn) l r sc
     in bindS (nodes_Set nI (load sc' h) d) (\<lambda>_. f h sc'))
    (let (h, d) = digestNodeInto th b l' r' in bindS (nodes_Set nI h d) (\<lambda>_. g h))"
proof -
  obtain h d sc' where m: "digestNodeInto_mem th (HashBuf turn) l r sc = (h, d, sc')"
    by (metis prod_cases3)
  note l = digestNodeInto_mem_load [OF assms(1) m, unfolded assms(2,3)]
  have "sees v path p (f h sc') (g (H th (node_data l' r')))"
    using l(1,2) l(3) [OF assms(5)] assms(4) by (intro assms(6)) simp_all
  then show ?thesis using l(1,2) assms(1) by (simp add: m sees_bind)
qed

lemma let_if: "(let (h, d) = (if c then a else b) in f h d) = (if c then let (h, d) = a in f h d else let (h, d) = b in f h d)"
  by simp

lemma let_if3: "(let (h, d, s) = (if c then a else b) in f h d s) =
   (if c then let (h, d, s) = a in f h d s else let (h, d, s) = b in f h d s)"
  by simp

section \<open>The climbs\<close>

lemma update_loop_sees:
  assumes "wf_th th" "\<And>t. apart path (HashBuf t)" "load sc path = p" "load sc c = c'"
  shows "sees load path p (update_loop_mem nI th path D sns cpc is turn c sc)
    (update_loop nI th sc0 p D sns cpc is turn c')"
  using assms(3,4)
proof (induction "is" arbitrary: turn c c' sc)
  case Nil
  then show ?case unfolding update_loop_mem.simps update_loop.simps by (simp only: sees_return)
next
  case (Cons i "is")
  show ?case
    unfolding update_loop_mem.simps update_loop.simps Cons.prems(1) let_if let_if3
    by (intro sees_intros Cons.IH sees_node assms(1,2)) (simp_all add: Cons.prems)
qed

lemma delete_resolve:
  "bindS (case cd of None \<Rightarrow> bindS (readS get) (\<lambda>v. bindS (liftS (leaf v)) (\<lambda>b. returnS (if b then None else Some (ph, True))))
          | Some c \<Rightarrow> returnS (Some (c, np))) f =
   (case cd of None \<Rightarrow> bindS (readS get) (\<lambda>v. bindS (liftS (leaf v)) (\<lambda>b. if b then f None else f (Some (ph, True))))
    | Some c \<Rightarrow> f (Some (c, np)))"
  by (cases cd) (auto simp: bindS_def readS_def liftS_def returnS_def fun_eq_iff split: sum.split)

definition see_opt :: "updateScratch \<Rightarrow> slice option \<Rightarrow> bytes option" where
  "see_opt sc = map_option (load sc)"

lemma see_opt_simps [simp]: "see_opt sc None = None" "see_opt sc (Some s) = Some (load sc s)"
  by (simp_all add: see_opt_def)

lemma delete_loop_sees:
  assumes "wf_th th" "\<And>t. apart path (HashBuf t)" "load sc path = p"
  shows "sees see_opt path p (delete_loop_mem nI th path m i sns turn cH cd np sc :: (('n, 'v) SparseMerkleTree, slice option \<times> updateScratch) op)
    (delete_loop nI th sc0 p m i sns turn (see_opt sc cH) (see_opt sc cd) np)"
  using assms(3)
proof (induction sns arbitrary: i turn cH cd np sc)
  case Nil
  then show ?case unfolding delete_loop_mem.simps delete_loop.simps by (simp only: sees_return)
next
  case (Cons sn sns)
  have step: "sees see_opt path p
     (if \<not> np \<and> go_bytes sn = placeholder th
      then delete_loop_mem nI th path m (i + 1) sns turn cH (Some c) np sc :: (('n, 'v) SparseMerkleTree, slice option \<times> updateScratch) op
      else bindS (liftS (getBitAtFromMSB p (m - 1 - i))) (\<lambda>b.
        let (h, d, sc') =
              (if b = right then digestNodeInto_mem th (HashBuf turn) (Bytes (go_bytes sn)) c sc
               else digestNodeInto_mem th (HashBuf turn) c (Bytes (go_bytes sn)) sc)
        in bindS (nodes_Set nI (load sc' h) d) (\<lambda>_.
             delete_loop_mem nI th path m (i + 1) sns (1 - turn) (Some h) (Some h) True sc')))
     (if \<not> np \<and> go_bytes sn = placeholder th
      then delete_loop nI th sc0 p m (i + 1) sns turn (see_opt sc cH) (Some (load sc c)) np
      else bindS (liftS (getBitAtFromMSB p (m - 1 - i))) (\<lambda>b.
        let (h, d) = (if b = right then digestNodeInto th (hashBufs sc0 turn) (go_bytes sn) (load sc c)
                      else digestNodeInto th (hashBufs sc0 turn) (load sc c) (go_bytes sn))
        in bindS (nodes_Set nI h d) (\<lambda>_.
             delete_loop nI th sc0 p m (i + 1) sns (1 - turn) (Some h) (Some h) True)))" for c np
  proof -
    have IH: "sees see_opt path p (delete_loop_mem nI th path m (i + 1) sns t cH' cd' np' sc'  :: (('n, 'v) SparseMerkleTree, slice option \<times> updateScratch) op)
        (delete_loop nI th sc0 p m (i + 1) sns t h d np')"
      if "load sc' path = p" "h = see_opt sc' cH'" "d = see_opt sc' cd'" for t cH' cd' np' sc' h d
      using Cons.IH [OF that(1)] that(2,3) by simp
    show ?thesis
      unfolding let_if let_if3
      by (intro sees_intros IH sees_node assms(1,2)) (simp_all add: Cons.prems)
  qed
  have leaf: "sees see_opt path p
      (delete_loop_mem nI th path m (i + 1) sns turn (Some (Bytes (go_bytes sn))) (Some (Bytes (go_bytes sn))) np sc
        :: (('n, 'v) SparseMerkleTree, slice option \<times> updateScratch) op)
      (delete_loop nI th sc0 p m (i + 1) sns turn (Some (go_bytes sn)) (Some (go_bytes sn)) np)"
    using Cons.IH [OF Cons.prems, of "i + 1" turn "Some (Bytes (go_bytes sn))" "Some (Bytes (go_bytes sn))"] by simp
  note inner = step [of True "Bytes (placeholder th)", unfolded load.simps]
  show ?case
  proof (cases cd)
    case None
    show ?thesis
      unfolding delete_loop_mem.simps delete_loop.simps Let_def [of "go_bytes sn"] delete_resolve Cons.prems
      unfolding None option.case prod.case see_opt_simps
      by (intro sees_bind sees_if leaf inner)
  next
    case (Some c)
    show ?thesis
      unfolding delete_loop_mem.simps delete_loop.simps Let_def [of "go_bytes sn"] delete_resolve Cons.prems
      unfolding Some option.case prod.case see_opt_simps
      by (rule step)
  qed
qed

section \<open>Deleting, updating\<close>

lemma deleteWithSideNodes_sees:
  assumes "wf_th (smt_th smt)" "\<And>t. apart path (HashBuf t)" "load sc path = p"
  shows "sees_at load path p (deleteWithSideNodes_mem nI path sns pns old sc smt)
    (deleteWithSideNodes nI sc0 p sns pns old smt)"
proof -
  let ?th = "smt_th smt"
  have loop: "sees load path p
      (bindS (delete_loop_mem nI ?th path (length sns) 0 sns 0 None None False sc) (\<lambda>(currentHash, sc).
         returnS (case currentHash of None \<Rightarrow> Bytes (placeholder ?th) | Some h \<Rightarrow> h, sc)))
      (bindS (delete_loop nI ?th sc0 p (length sns) 0 sns 0 None None False) (\<lambda>currentHash.
         returnS (case currentHash of None \<Rightarrow> placeholder ?th | Some h \<Rightarrow> h)))"
    using delete_loop_sees [OF assms, of nI "length sns" 0 sns 0 None None False sc0]
    by (intro sees_bind2 [where v = see_opt]) (auto simp: sees_def split: option.split)
  show ?thesis
    unfolding deleteWithSideNodes_mem_def deleteWithSideNodes_def Let_def assms(3)
    by (rule sees_atI) (intro sees_intros loop)
qed

lemma sees_readS:
  "(\<And>smt. a smt = Inr (h smt, sc)) \<Longrightarrow> (\<And>smt. b smt = Inr (v sc (h smt))) \<Longrightarrow> load sc path = p \<Longrightarrow>
   sees v path p (readS a) (readS b)"
  by (simp add: sees_def readS_def)

lemma digestLeafInto_eq: "wf_th th \<Longrightarrow> digestLeafInto th b p v = (H th (leafPrefix @ p @ v), leafPrefix @ p @ v)"
  by simp

lemma digestInto_eq: "wf_th th \<Longrightarrow> digestInto th b d = H th d"
  by simp

lemma updateWithSideNodes_sees:
  assumes wf: "wf_th (smt_th smt)" and path: "\<And>t. apart path (HashBuf t)" "apart path ValueHashBuf"
    "load sc path = p"
  shows "sees_at load path p (updateWithSideNodes_mem nI vI path value sns pns old sc smt)
    (updateWithSideNodes nI vI sc0 p value sns pns old smt)"
proof -
  define th where "th = smt_th smt"
  define D where "D = depth smt"
  note fold = th_def [symmetric] D_def [symmetric]
  note wf = wf [folded th_def]
  obtain vh sc1 where 1: "digestInto_mem th ValueHashBuf value sc = (vh, sc1)" by fastforce
  obtain lh ld sc2 where 2: "digestLeafInto_mem th (HashBuf 0) path vh sc1 = (lh, ld, sc2)"
    by (metis prod_cases3)
  note s1 = sum_into_load [OF 1 [unfolded digestInto_mem_def]]
  have ap: "apart vh (HashBuf t)" for t
    using sum_into_slice [OF 1 [unfolded digestInto_mem_def]] by simp
  have p1: "load sc1 path = p" using s1(2) path by simp
  have ld: "ld = leafPrefix @ p @ H th value" and lh: "load sc2 lh = H th ld"
    and p2: "load sc2 path = p" and vh: "load sc2 vh = H th value"
    using 2 wf s1(1) p1 path(1) ap
    by (auto simp: digestLeafInto_mem_def Let_def sum_into_load split: prod.splits)
  have climb: "sees load path p
      (bindS (delete_nodes nI (drop 1 pns)) (\<lambda>_.
       bindS (update_loop_mem nI th path D sns cpc [0..<D] turn c sc') (\<lambda>(h, sc').
       bindS (values_Set vI (load sc' path) value) (\<lambda>_. returnS (h, sc')))))
      (bindS (delete_nodes nI (drop 1 pns)) (\<lambda>_.
       bindS (update_loop nI th sc0 p D sns cpc [0..<D] turn c') (\<lambda>h.
       bindS (values_Set vI p value) (\<lambda>_. returnS h))))"
    if "load sc' path = p" "load sc' c = c'" for cpc turn c c' sc'
    by (intro sees_bind sees_bind2 [OF update_loop_sees [OF wf path(1) that]])
      (simp, intro sees_bind sees_return, simp_all)
  note node = sees_node [where f = "\<lambda>h sc'. bindS (delete_nodes nI (drop 1 pns)) (\<lambda>_.
       bindS (update_loop_mem nI th path D sns cpc [0..<D] 0 h sc') (\<lambda>(h, sc').
       bindS (values_Set vI (load sc' path) value) (\<lambda>_. returnS (h, sc'))))" for cpc, unfolded Let_def]
  show ?thesis
    unfolding updateWithSideNodes_mem_def updateWithSideNodes_def Let_def fold 1 2 prod.case digestLeafInto_eq [OF wf]
      digestInto_eq [OF wf] lh vh p2 ld let_if [unfolded Let_def] let_if3 [unfolded Let_def]
  proof (rule sees_atI, rule sees_bind, rule sees_bind, rule sees_bind, rule sees_prod, rule sees_if, goal_cases)
    case (1 u p0 x cpc oldValueHash)
    show ?case
      by (rule sees_bind, rule sees_if; rule node [OF wf _ _ p2 path(1)])
        ((rule climb; assumption) | simp add: lh ld)+
  next
    case (2 u p0 x cpc oldValueHash)
    show ?case
    proof (rule sees_option, goal_cases)
      case 1
      show ?case by (rule climb) (simp_all add: p2 lh ld)
    next
      case (2 oldHash)
      show ?case
      proof (rule sees_if, goal_cases)
        case 1
        show ?case by (rule sees_readS, rule refl) (simp_all add: p2)
      next
        case 2
        show ?case by (rule sees_bind, rule sees_bind, rule climb) (simp_all add: p2 lh ld)
      qed
    qed
  qed
qed

section \<open>UpdateForRoot\<close>

lemma sees_at_cases:
  assumes "sees_at load path p r q"
  obtains (err) e smt where "r = (Inl e, smt)" "q = (Inl e, smt)"
  | (ok) h sc smt where "r = (Inr (h, sc), smt)" "q = (Inr (load sc h), smt)" "load sc path = p"
  using assms by (cases r; cases "fst r") auto

lemma UpdateForRoot_mem_eq:
  assumes wf: "wf_th (smt_th smt)"
  shows "UpdateForRoot_mem nI vI ps sc key value root smt = UpdateForRoot_with nI vI ps sc0 key value root smt"
proof -
  let ?th = "smt_th smt" and ?p = "H (smt_th smt) key"
  obtain path sc1 where 1: "digestInto_mem ?th PathBuf key sc = (path, sc1)" by fastforce
  note s = sum_into_load(1) [OF 1 [unfolded digestInto_mem_def]]
  have path: "apart path (HashBuf t)" "apart path ValueHashBuf" "load sc1 path = ?p" for t
    using sum_into_slice [OF 1 [unfolded digestInto_mem_def]] s wf by simp_all
  note del = deleteWithSideNodes_sees [OF wf path(1,3), of nI _ _ _ sc0]
  note upd = updateWithSideNodes_sees [OF wf path, of nI vI "value" _ _ _ sc0]
  show ?thesis
  proof (cases "fillSideNodes nI smt ps ?p root False")
    case (Inl e)
    then show ?thesis by (simp add: UpdateForRoot_mem_def UpdateForRoot_with_def 1 path(3) wf)
  next
    case (Inr y)
    then obtain ps' old x where y: "fillSideNodes nI smt ps ?p root False = Inr (ps', old, x)" by (cases y) auto
    show ?thesis
    proof (cases "value = defaultValue")
      case True
      then show ?thesis
        by (cases rule: sees_at_cases [OF del [of "sideNodes ps'" "pathNodes ps'" old]])
          (simp_all add: UpdateForRoot_mem_def UpdateForRoot_with_def 1 path(3) wf y returnS_def throwS_def liftS_def
            split: go_error.split)
    next
      case False
      then show ?thesis
        by (cases rule: sees_at_cases [OF upd [of "sideNodes ps'" "pathNodes ps'" old]])
          (simp_all add: UpdateForRoot_mem_def UpdateForRoot_with_def 1 path(3) wf y)
    qed
  qed
qed

end
