(* ===== verification/StoreProps.thy ===== *)
theory StoreProps
  imports SMTProps BuffersCorrect
begin

text \<open>
  Properties of the stores of \<open>src/mapstore*.go\<close> and of a tree over them: the arena store under any
  sequence of calls, interchangeability of the three stores under a tree, the types of what a tree
  keeps in its stores and how much it keeps, the pooled buffers of \<open>src/pool.go\<close>, and three calls that
  misbehave: Set of an empty value on a fresh arena, UpdateForRoot with the value a key already has,
  and a Delete that fails in the node store.
\<close>

section \<open>Calls on an arena\<close>

datatype arena_call = CallSet bytes bytes | CallDelete bytes | CallReset

fun arena_do :: "arena_call \<Rightarrow> ArenaFixedSizeMap \<Rightarrow> ArenaFixedSizeMap" where
  "arena_do (CallSet key value) am = snd (Arena_Set am key value)"
| "arena_do (CallDelete key) am = snd (Arena_Delete am key)"
| "arena_do CallReset am = Arena_Reset am"

text \<open>What the calls mean: a map, and the number of bytes written since the last Reset.\<close>

fun spec_do :: "arena_call \<Rightarrow> (bytes \<rightharpoonup> bytes) \<times> nat \<Rightarrow> (bytes \<rightharpoonup> bytes) \<times> nat" where
  "spec_do (CallSet key value) (m, b) = (m(key \<mapsto> value), b + length value)"
| "spec_do (CallDelete key) (m, b) = (m(key := None), b)"
| "spec_do CallReset (m, b) = (Map.empty, 0)"

fun call_ok :: "arena_call \<Rightarrow> bool" where
  "call_ok (CallSet key value) \<longleftrightarrow> length key = 32 \<and> arena_okv value"
| "call_ok (CallDelete key) \<longleftrightarrow> length key = 32"
| "call_ok CallReset \<longleftrightarrow> True"

lemma Arena_SlabBytes_sum: "Arena_SlabBytes am = (\<Sum>s\<leftarrow>am_slabs am. length (slab_bytes s))"
proof -
  have "foldl (\<lambda>total s. total + length (slab_bytes s)) b ss = b + (\<Sum>s\<leftarrow>ss. length (slab_bytes s))"
    for b and ss :: "slab list"
    by (induction ss arbitrary: b) auto
  then show ?thesis by (simp add: Arena_SlabBytes_def)
qed

lemma Arena_Set_bytes:
  assumes "arena_inv am" "length k = 32" "arena_okv v"
  shows "Arena_SlabBytes (snd (Arena_Set am k v)) = Arena_SlabBytes am + length v"
proof -
  define g where "g = Arena_grow am (length v)"
  have n: "length v \<noteq> 0" "length v < 2 ^ 32" using assms(3) by (auto simp: arena_okv_def)
  note g = arena_grow [OF assms(1) n, folded g_def]
  obtain ss where ss: "am_slabs g = ss @ [am_cur g]"
    using g(1,2) by (metis append_butlast_last_id arena_inv_def)
  have "Arena_SlabBytes g = Arena_SlabBytes am"
    by (simp add: g_def Arena_grow_def Arena_SlabBytes_sum Let_def)
  then show ?thesis
    using assms(2) ss
    by (simp add: Arena_Set_def Let_def g_def [symmetric] toFixedKey_def Arena_SlabBytes_sum)
qed

definition arena_is :: "nat \<Rightarrow> ArenaFixedSizeMap \<Rightarrow> (bytes \<rightharpoonup> bytes) \<times> nat \<Rightarrow> bool" where
  "arena_is n am sp \<longleftrightarrow> arena_room n am \<and> arena_abs am = fst sp \<and> Arena_SlabBytes am = snd sp"

lemma arena_do_ok:
  assumes "arena_is (Suc n) am sp" "call_ok c"
  shows "arena_is n (arena_do c am) (spec_do c sp)"
proof (cases c)
  case (CallSet k v)
  then show ?thesis
    using assms arena_set_law [of n am k v] Arena_Set_bytes [of am k v]
    by (cases sp) (auto simp: arena_is_def arena_room_def)
next
  case (CallDelete k)
  have room: "arena_room n am" using assms(1) arena_room_mono by (auto simp: arena_is_def)
  have b: "Arena_SlabBytes (snd (Arena_Delete am k)) = Arena_SlabBytes am"
    by (auto simp: Arena_Delete_def Arena_SlabBytes_def split: sum.split option.split)
  have "arena_room n (snd (Arena_Delete am k)) \<and> arena_abs (snd (Arena_Delete am k)) = (arena_abs am)(k := None)"
  proof (cases "arena_abs am k")
    case None
    then show ?thesis using arena_del_missing_law [OF room] assms(2) room CallDelete by (simp add: fun_upd_idem)
  next
    case (Some v)
    then show ?thesis using arena_del_law [OF room, of k] assms(2) CallDelete by auto
  qed
  then show ?thesis using assms(1) b CallDelete by (cases sp) (simp add: arena_is_def)
next
  case CallReset
  then show ?thesis
    using assms by (cases sp) (auto simp: arena_is_def arena_room_def arena_inv_def Arena_Reset_def
        arena_abs_def Arena_SlabBytes_def)
qed

lemma arena_calls_ok:
  assumes "arena_is (n + length cs) am sp" "list_all call_ok cs"
  shows "arena_is n (fold arena_do cs am) (fold spec_do cs sp)"
  using assms by (induction cs arbitrary: am sp) (simp_all add: arena_do_ok)

lemma NewArena_is:
  "slabSize < 2 ^ 32 \<Longrightarrow> n \<le> 2 ^ 32 \<Longrightarrow>
   arena_is n (NewArenaFixedSizeMapWithSlabSize slabSize) (Map.empty, 0)"
  by (auto simp: arena_is_def arena_room_def arena_inv_def NewArenaFixedSizeMapWithSlabSize_def
      arena_abs_def Arena_SlabBytes_def Let_def nat_less_iff)

lemma Arena_Len_abs: "Arena_Len am = card (dom (arena_abs am))"
proof -
  have "dom (arena_abs am) = dom (am_m am)" by (auto simp: arena_abs_def)
  then show ?thesis by (simp add: Arena_Len_def)
qed

text \<open>
  C30. An arena store behaves as a map under any sequence of up to \<open>2 ^ 32\<close> calls of Set, Delete and
  Reset with 32-byte keys and values of 1 to \<open>2 ^ 32 - 1\<close> bytes, whatever the slab size below
  \<open>2 ^ 32\<close>: the 32-bit slab numbers, offsets and lengths never wrap into a wrong answer, Get returns
  the last value set or InvalidKeyError, Len is the number of keys, and SlabBytes is the number of
  bytes set since the last Reset, deleted and overwritten ones included.
\<close>

theorem arena_calls:
  assumes "slabSize < 2 ^ 32" "length cs \<le> 2 ^ 32" "list_all call_ok cs"
    and "am = fold arena_do cs (NewArenaFixedSizeMapWithSlabSize slabSize)"
    and "(m, b) = fold spec_do cs (Map.empty, 0)"
  shows "(\<forall>key. length key = 32 \<longrightarrow>
      Arena_Get am key = (case m key of Some v \<Rightarrow> Inr v | None \<Rightarrow> Inl (InvalidKeyError key))) \<and>
    Arena_Len am = card (dom m) \<and> Arena_SlabBytes am = b"
proof -
  have "arena_is 0 am (m, b)"
    using arena_calls_ok [of 0 cs _ "(Map.empty, 0)"] NewArena_is [OF assms(1,2)] assms(3-5) by simp
  then show ?thesis using arena_get_law [of 0 am] by (simp add: arena_is_def Arena_Len_abs)
qed

definition key32 :: "byte \<Rightarrow> bytes" where
  "key32 b = replicate 32 b"

theorem arena_calls_witness:
  "let am = fold arena_do [CallSet (key32 1) [10, 11], CallSet (key32 2) [20], CallSet (key32 1) [12],
        CallDelete (key32 2)] (NewArenaFixedSizeMapWithSlabSize 64)
   in Arena_Get am (key32 1) = Inr [12] \<and> Arena_Get am (key32 2) = Inl (InvalidKeyError (key32 2)) \<and>
     Arena_Len am = 1 \<and> Arena_SlabBytes am = 4"
proof -
  have neq: "key32 2 \<noteq> key32 1" by (simp add: key32_def)
  show ?thesis
    using arena_calls [of 64 "[CallSet (key32 1) [10, 11], CallSet (key32 2) [20], CallSet (key32 1) [12],
        CallDelete (key32 2)]" _ "[key32 1 \<mapsto> [12]]" 4] neq
    by (simp add: Let_def arena_okv_def key32_def fun_upd_twist)
qed

text \<open>
  C31. Set of an empty value on an arena without slabs, one that is new or was just Reset, panics:
  nothing has to grow for zero bytes, and the slab table is then indexed at \<open>-1\<close>. The other stores
  accept the call.
\<close>

theorem Arena_Set_empty_panics:
  "fst (Arena_Set (NewArenaFixedSizeMapWithSlabSize slabSize) (key32 b) []) = Inl index_panic \<and>
   fst (Arena_Set (Arena_Reset am) (key32 b) []) = Inl index_panic \<and>
   fst (FixedSizeMap_Set fm (key32 b) []) = Inr () \<and> fst (SimpleMap_Set sm (key32 b) []) = Inr ()"
  by (simp add: Arena_Set_def Arena_grow_def Arena_Reset_def NewArenaFixedSizeMapWithSlabSize_def Let_def
      nil_slab_def FixedSizeMap_Set_def SimpleMap_Set_def toFixedKey_def key32_def)

section \<open>Trees over the three stores\<close>

text \<open>What a client sees of a tree that represents \<open>t\<close> does not depend on its stores.\<close>

definition shows_tree :: "'n MapStore \<Rightarrow> 'v MapStore \<Rightarrow> treeHasher \<Rightarrow> ('n, 'v) SparseMerkleTree \<Rightarrow> mtree \<Rightarrow>
    bool" where
  "shows_tree nI vI th smt t \<longleftrightarrow> Root smt = thash th t \<and>
     (\<forall>key. Get vI smt key = Inr (case tmap t (H th key) of None \<Rightarrow> [] | Some v \<Rightarrow> v) \<and>
       Has vI smt key = Inr (H th key \<in> dom (tmap t)) \<and>
       Prove nI smt key = Inr (tree_proof th t (H th key) False))"

context smt_stores
begin

lemma history_shows:
  assumes "wf_hash h" "hash_Size h = n" and "absn nodes = Map.empty" "absv values = Map.empty"
    and "roomn (length ops * (8 * n + 2)) nodes" "roomv (length ops) values"
    and "\<forall>(k, v) \<in> set ops. v \<noteq> [] \<longrightarrow> okvv v"
    and cf: "collision_free (newTreeHasher h) (hist_preimages (newTreeHasher h) ops Empty)"
  shows "\<exists>smt. Updates nI vI ops (NewSparseMerkleTree nodes values h []) = (Inr (), smt) \<and>
    shows_tree nI vI (newTreeHasher h) smt (tupdates (newTreeHasher h) ops Empty)"
proof -
  let ?th = "newTreeHasher h" and ?new = "NewSparseMerkleTree nodes values h []"
  have new: "rep ?new Empty" "smt_th ?new = ?th" using New_represents [of h absn nodes absv "values"] assms(1,3,4) by simp_all
  have n: "pathSize ?th = n" using assms(2) by (simp add: pathSize_def newTreeHasher_def Let_def)
  have room: "roomn (0 + length ops * (8 * n + 2)) (smt_nodes ?new)" "roomv (0 + length ops) (smt_values ?new)"
    using assms(5,6) by (simp_all add: NewSparseMerkleTree_def SetRoot_def Let_def)
  obtain smt where smt: "Updates nI vI ops ?new = (Inr (), smt)" "rep smt (tupdates ?th ops Empty)"
    "smt_th smt = ?th" "roomn 0 (smt_nodes smt)" "roomv 0 (smt_values smt)"
    using Updates_ok [OF new(1) _ room assms(7), unfolded new(2), OF n cf] by blast
  note cf' = collision_free_subset [OF cf hist_preimages_end]
  have "shows_tree nI vI ?th smt (tupdates ?th ops Empty)"
    using Get_ok [OF smt(2) _ smt(5)] Has_ok [OF smt(2) _ smt(5)]
      Prove_ok [OF smt(2) _ smt(4), of _ False] representsD(3) [OF smt(2)] smt(3) n cf'
    by (simp add: shows_tree_def Root_def Prove_def ProveForRoot_def)
  then show ?thesis using smt(1) by blast
qed

end

text \<open>
  C32. The three MapStores of the repository are interchangeable: with a 32-byte hash, any history of
  updates and deletions succeeds over SimpleMaps, over FixedSizeMaps and over arenas, and the three
  trees have the same root and answer Get, Has and Prove alike for every key. The arenas have room
  for any history of up to \<open>2 ^ 32 div 258\<close> calls, 258 being the most nodes one call can store.
\<close>

theorem stores_interchangeable:
  assumes "wf_hash h" "hash_Size h = 32" "slabSize < 2 ^ 32"
    and "length ops * 258 \<le> 2 ^ 32" "list_all (\<lambda>(k, v). length v < 2 ^ 32) ops"
    and "collision_free (newTreeHasher h) (hist_preimages (newTreeHasher h) ops Empty)"
  shows "\<exists>s f a.
    Updates SimpleMap_store SimpleMap_store ops (NewSparseMerkleTree NewSimpleMap NewSimpleMap h []) = (Inr (), s) \<and>
    Updates FixedSizeMap_store FixedSizeMap_store ops
      (NewSparseMerkleTree NewFixedSizeMap NewFixedSizeMap h []) = (Inr (), f) \<and>
    Updates Arena_store Arena_store ops
      (NewSparseMerkleTree (NewArenaFixedSizeMapWithSlabSize slabSize)
        (NewArenaFixedSizeMapWithSlabSize slabSize) h []) = (Inr (), a) \<and>
    Root s = Root f \<and> Root f = Root a \<and>
    (\<forall>key. Get SimpleMap_store s key = Get FixedSizeMap_store f key \<and>
      Get FixedSizeMap_store f key = Get Arena_store a key \<and>
      Has SimpleMap_store s key = Has FixedSizeMap_store f key \<and>
      Has FixedSizeMap_store f key = Has Arena_store a key \<and>
      Prove SimpleMap_store s key = Prove FixedSizeMap_store f key \<and>
      Prove FixedSizeMap_store f key = Prove Arena_store a key)"
proof -
  let ?am = "NewArenaFixedSizeMapWithSlabSize slabSize" and ?t = "tupdates (newTreeHasher h) ops Empty"
  have room: "arena_room (length ops * (8 * 32 + 2)) ?am" "arena_room (length ops) ?am"
    and am: "arena_abs ?am = Map.empty"
    using NewArena_is [OF assms(3), of "length ops * 258"] NewArena_is [OF assms(3), of "length ops"] assms(4)
    by (simp_all add: arena_is_def)
  have v: "\<forall>(k, v) \<in> set ops. v \<noteq> [] \<longrightarrow> arena_okv v"
    using assms(5) by (auto simp: list_all_iff arena_okv_def)
  obtain s where "Updates SimpleMap_store SimpleMap_store ops
      (NewSparseMerkleTree NewSimpleMap NewSimpleMap h []) = (Inr (), s)"
    "shows_tree SimpleMap_store SimpleMap_store (newTreeHasher h) s ?t"
    using smts.history_shows [OF assms(1,2), of NewSimpleMap NewSimpleMap ops] assms(6)
    by (auto simp: NewSimpleMap_def)
  moreover obtain f where "Updates FixedSizeMap_store FixedSizeMap_store ops
      (NewSparseMerkleTree NewFixedSizeMap NewFixedSizeMap h []) = (Inr (), f)"
    "shows_tree FixedSizeMap_store FixedSizeMap_store (newTreeHasher h) f ?t"
    using smtf.history_shows [OF assms(1,2), of NewFixedSizeMap NewFixedSizeMap ops] assms(6)
    by (auto simp: NewFixedSizeMap_def)
  moreover obtain a where "Updates Arena_store Arena_store ops (NewSparseMerkleTree ?am ?am h []) = (Inr (), a)"
    "shows_tree Arena_store Arena_store (newTreeHasher h) a ?t"
    using smta.history_shows [OF assms(1,2) am am room v assms(6)] by auto
  ultimately show ?thesis unfolding shows_tree_def by (intro exI [of _ s] exI [of _ f] exI [of _ a]) simp
qed

text \<open>A hash with 32-byte digests for concrete runs: the toy digest and 31 zero bytes.\<close>

definition toy32 :: hash_Hash where
  "toy32 = \<lparr>hash_alg = (\<lambda>d. toy_alg d @ replicate 31 0), hash_Size = 32, hash_buf = []\<rparr>"

lemma wf_toy32: "wf_hash toy32"
  by (simp add: wf_hash_def toy32_def toy_alg_def)

theorem stores_interchangeable_witness:
  "\<exists>s a. Updates SimpleMap_store SimpleMap_store [([1], [10]), ([70], [20])]
      (NewSparseMerkleTree NewSimpleMap NewSimpleMap toy32 []) = (Inr (), s) \<and>
    Updates Arena_store Arena_store [([1], [10]), ([70], [20])]
      (NewSparseMerkleTree (NewArenaFixedSizeMapWithSlabSize 64) (NewArenaFixedSizeMapWithSlabSize 64) toy32 []) =
      (Inr (), a) \<and> Root s = Root a \<and> Get SimpleMap_store s [1] = Get Arena_store a [1]"
proof -
  have "collision_free (newTreeHasher toy32)
      (hist_preimages (newTreeHasher toy32) [([1], [10]), ([70], [20])] Empty)" by code_simp
  then show ?thesis
    using stores_interchangeable [of toy32 64 "[([1], [10]), ([70], [20])]"] wf_toy32
    by (auto simp: toy32_def)
qed

section \<open>The types of what a tree stores\<close>

text \<open>
  C33. Types of a tree's data: after any history the root has the size of a digest; every key of the
  node store is a digest, of the data stored under it, and that data is a prefix byte and two digests;
  every key of the value store has the size of a digest, and no stored value is empty. This is what
  stores with 32-byte keys and the slicing of \<open>parseLeaf\<close> and \<open>parseNode\<close> rely on.
\<close>

theorem history_types:
  assumes "wf_hash h" and "collision_free (newTreeHasher h) (hist_preimages (newTreeHasher h) ops Empty)"
  shows "\<exists>smt. Updates SimpleMap_store SimpleMap_store ops
      (NewSparseMerkleTree NewSimpleMap NewSimpleMap h []) = (Inr (), smt) \<and>
    length (Root smt) = hash_Size h \<and>
    (\<forall>k d. sm_m (smt_nodes smt) k = Some d \<longrightarrow>
      length k = hash_Size h \<and> k = digest (newTreeHasher h) d \<and> length d = 2 * hash_Size h + 1) \<and>
    (\<forall>k v. sm_m (smt_values smt) k = Some v \<longrightarrow> length k = hash_Size h \<and> v \<noteq> [])"
proof -
  let ?th = "newTreeHasher h" and ?t = "tupdates (newTreeHasher h) ops Empty"
  have n: "pathSize ?th = hash_Size h" by (simp add: pathSize_def newTreeHasher_def Let_def)
  obtain smt where smt: "Updates SimpleMap_store SimpleMap_store ops
      (NewSparseMerkleTree NewSimpleMap NewSimpleMap h []) = (Inr (), smt)"
    "represents sm_m sm_m smt ?t" "smt_th smt = ?th"
    using history_represents [OF assms] by blast
  note r = representsD [OF smt(2), unfolded smt(3)]
  have "length k = hash_Size h \<and> k = digest ?th d \<and> length d = 2 * hash_Size h + 1"
    if "sm_m (smt_nodes smt) k = Some d" for k d
    using that r(4) node_set_length [OF r(1,2)] r(1) n by (auto simp: cas_def)
  moreover have "length k = hash_Size h \<and> v \<noteq> []" if "sm_m (smt_values smt) k = Some v" for k v
    using that r(5) wf_tree_keys [OF r(2), of k v] n by auto
  ultimately show ?thesis using smt(1) r(1,3) n by (simp add: Root_def)
qed

lemma hash_Size_toy: "hash_Size toy = 1"
  by (simp add: toy_def)

theorem history_types_witness:
  "\<exists>smt. Updates SimpleMap_store SimpleMap_store [([1], [10]), ([70], [20])] toy_smt = (Inr (), smt) \<and>
    length (Root smt) = 1 \<and>
    (\<forall>k d. sm_m (smt_nodes smt) k = Some d \<longrightarrow> length k = 1 \<and> k = digest toy_th d \<and> length d = 3)"
proof -
  have "collision_free toy_th (hist_preimages toy_th [([1], [10]), ([70], [20])] Empty)" by code_simp
  then show ?thesis
    using history_types [of toy "[([1], [10]), ([70], [20])]"] hash_Size_toy by auto
qed

section \<open>Pooled buffers\<close>

text \<open>
  C34. Pooling is transparent, memory included: UpdateForRoot, run on path slices that earlier calls
  have put back into the pool and with path, value hash and running hash kept as slices into
  scratch arrays that hold whatever an earlier call left there, returns the same result and leaves
  the same tree as the walk on plain byte strings. No array is overwritten while it is still read,
  also when digests are longer than the arrays.
\<close>

theorem pooled_buffers_transparent:
  assumes "wf_th (smt_th smt)" "path_pool pool"
  shows "UpdateForRoot_mem nI vI (fst (getPathSlices pool pick)) sc key value root smt =
    UpdateForRoot nI vI key value root smt"
proof -
  have "fst (getPathSlices pool pick) = fst (getPathSlices [] 0)"
    using getPathSlices_new assms(2) path_pool.empty by metis
  then show ?thesis using UpdateForRoot_mem_eq [OF assms(1)] by (simp add: UpdateForRoot_def)
qed

definition used_slices :: pathSlices where
  "used_slices = \<lparr>sideNodes = [Some [7], None], pathNodes = [[8], [9]]\<rparr>"

definition dirty_scratch :: updateScratch where
  "dirty_scratch = \<lparr>pathBuf = [1], valueHashBuf = [2, 3], hashBufA = [4], hashBufB = [5, 6]\<rparr>"

theorem pooled_buffers_transparent_witness:
  "UpdateForRoot_mem SimpleMap_store SimpleMap_store (fst (getPathSlices (putPathSlices used_slices []) 0))
     dirty_scratch [1] [10] (Root toy_smt) toy_smt =
   UpdateForRoot SimpleMap_store SimpleMap_store [1] [10] (Root toy_smt) toy_smt"
proof (rule pooled_buffers_transparent)
  show "wf_th (smt_th toy_smt)"
    using New_represents(2) [of toy sm_m NewSimpleMap sm_m NewSimpleMap] by (simp add: NewSimpleMap_def)
  show "path_pool (putPathSlices used_slices [])" by (intro path_pool.intros)
qed

section \<open>UpdateForRoot with the value a key already has\<close>

lemma SetRoot_reads:
  "smt_th (SetRoot r smt) = smt_th smt" "nodes_Get nI (SetRoot r smt) h = nodes_Get nI smt h"
  "depth (SetRoot r smt) = depth smt"
  by (simp_all add: nodes_Get_def SetRoot_def depth_def)

lemma fill_loop_SetRoot:
  "fill_loop nI (SetRoot r smt) path is ps cd sn = fill_loop nI smt path is ps cd sn"
proof (induction "is" arbitrary: ps cd sn)
  case (Cons i "is")
  show ?case unfolding fill_loop.simps SetRoot_reads Cons.IH by (rule refl)
qed simp

lemma fillSideNodes_SetRoot:
  "fillSideNodes nI (SetRoot r smt) ps path root g = fillSideNodes nI smt ps path root g"
  unfolding fillSideNodes_def fill_loop_SetRoot SetRoot_reads by (rule refl)

text \<open>
  C35. UpdateForRoot at a given root, with the value the key already has there, does not return that
  root, which is the root of the unchanged tree, but the root the tree object currently has,
  whatever it is: the short-circuit of updateWithSideNodes returns the field and not the argument.
\<close>

theorem UpdateForRoot_same_value:
  assumes "represents sm_m sm_m smt t" and "tmap t (H (smt_th smt) key) = Some value"
    and "collision_free (smt_th smt) (preimages (smt_th smt) t)"
  shows "UpdateForRoot SimpleMap_store SimpleMap_store key value (Root smt) (SetRoot current smt) =
    (Inr current, SetRoot current smt)"
proof -
  let ?th = "smt_th smt" and ?k = "H (smt_th smt) key" and ?smt = "SetRoot current smt"
  let ?d = "leaf_data ?th ?k value"
  note r = representsD [OF assms(1)]
  have k: "length ?k = pathSize ?th" using r(1) by simp
  have ps: "fst (getPathSlices [] 0) = newPathSlices" using getPathSlices_new path_pool.empty by blast
  have notN: "\<not> is_Node (focus (bits ?k) t)" using focus_not_Node [OF r(2) _ k, of "bits ?k"] by simp
  have f: "focus (bits ?k) t = Leaf ?k value"
    using focus_tmap [OF r(2), of ?k "bits ?k"] assms(2) notN
    by (cases "focus (bits ?k) t") (auto split: if_splits)
  have d: "?d \<in> node_set ?th t" using branch_nodes_sub [of ?th "bits ?k" t] f by (auto simp: branch_nodes_def)
  have set: "nodes_Set SimpleMap_store (H ?th ?d) ?d ?smt = (Inr (), ?smt)"
    using cas_get [OF r(4) d]
    by (simp add: nodes_Set_def SimpleMap_store_def SimpleMap_Set_def SetRoot_def fun_upd_idem)
  have p0: "thash ?th (Leaf ?k value) \<noteq> placeholder ?th"
    using collision_free_placeholder [OF assms(3)] d node_set_preimages by auto
  have v: "value \<noteq> []" using wf_tree_keys [OF r(2) assms(2)] by simp
  have th: "smt_th ?smt = ?th" "smt_root ?smt = current" by (simp_all add: SetRoot_def)
  show ?thesis
    using smts.fill_represents [OF assms(1) refl TrueI assms(3) order_refl k, of False] f v r(1) th
      update_unfold_same [of ?smt "pathSize ?th" ?k "thash ?th (Leaf ?k value)" SimpleMap_store "value" ?smt
        SimpleMap_store "fst (getUpdateScratch [] 0)" _ _ "value"] k p0 set
    by (simp add: UpdateForRoot_def UpdateForRoot_with_def ps defaultValue_def Let_def Root_def
        fillSideNodes_SetRoot)
qed

text \<open>A tree with one leaf, for the witnesses.\<close>

definition toy_leaf_simple :: "(SimpleMap, SimpleMap) SparseMerkleTree" where
  "toy_leaf_simple = \<lparr>smt_th = toy_th,
     smt_nodes = \<lparr>sm_m = [H toy_th (leaf_data toy_th [29] [10]) \<mapsto> leaf_data toy_th [29] [10]]\<rparr>,
     smt_values = \<lparr>sm_m = [[29] \<mapsto> [10]]\<rparr>, smt_root = thash toy_th (Leaf [29] [10])\<rparr>"

lemma toy_leaf:
  "represents sm_m sm_m toy_leaf_simple (Leaf [29] [10])"
  "smt_th toy_leaf_simple = toy_th"
  "tmap (Leaf [29] [10]) (H toy_th [1]) = Some [10]"
  "collision_free toy_th (preimages toy_th (Leaf [29] [10]))"
proof -
  show "represents sm_m sm_m toy_leaf_simple (Leaf [29] [10])" "smt_th toy_leaf_simple = toy_th"
    by (auto simp: represents_def cas_def toy_leaf_simple_def)
  show "tmap (Leaf [29] [10]) (H toy_th [1]) = Some [10]" by code_simp
  show "collision_free toy_th (preimages toy_th (Leaf [29] [10]))" by code_simp
qed

theorem UpdateForRoot_same_value_witness:
  "UpdateForRoot SimpleMap_store SimpleMap_store [1] [10] (Root toy_leaf_simple) (SetRoot [0] toy_leaf_simple) =
    (Inr [0], SetRoot [0] toy_leaf_simple) \<and> Root toy_leaf_simple \<noteq> [0]"
proof
  show "UpdateForRoot SimpleMap_store SimpleMap_store [1] [10] (Root toy_leaf_simple) (SetRoot [0] toy_leaf_simple) =
      (Inr [0], SetRoot [0] toy_leaf_simple)"
    by (rule UpdateForRoot_same_value [OF toy_leaf(1), unfolded toy_leaf(2), OF toy_leaf(3,4)])
  show "Root toy_leaf_simple \<noteq> [0]" by code_simp
qed

section \<open>The size of the node store\<close>

lemma finite_tree: "finite (node_set th t)" "finite (dom (tmap t))"
  by (induction t) auto

lemma card_dom_Node:
  assumes "wf_tree n p (Node l r)"
  shows "card (dom (tmap (Node l r))) = card (dom (tmap l)) + card (dom (tmap r))"
proof -
  have "dom (tmap l) \<inter> dom (tmap r) = {}"
    using assms wf_tree_child_key(3) [of n p False l] wf_tree_child_key(3) [of n p True r] by fastforce
  then show ?thesis by (simp add: card_Un_disjoint finite_tree Un_commute)
qed

lemma node_set_card:
  "wf_tree n p t \<Longrightarrow> length p \<le> 8 * n \<Longrightarrow> card (node_set th t) \<le> card (dom (tmap t)) * (8 * n + 1 - length p)"
proof (induction t arbitrary: p)
  case (Node l r)
  define L R d where "L = card (dom (tmap l))" and "R = card (dom (tmap r))" and "d = 8 * n - length p"
  have wf: "wf_tree n (p @ [False]) l" "wf_tree n (p @ [True]) r" using Node.prems(1) by simp_all
  have len: "length p < 8 * n" using wf_tree_full_depth [OF Node.prems(1)] by force
  have IH: "card (node_set th l) \<le> L * d" "card (node_set th r) \<le> R * d"
    using Node.IH(1) [OF wf(1)] Node.IH(2) [OF wf(2)] len by (simp_all add: L_def R_def d_def)
  have dom: "card (dom (tmap (Node l r))) = L + R"
    using card_dom_Node [OF Node.prems(1)] by (simp add: L_def R_def)
  obtain k v where "tmap (Node l r) k = Some v" using wf_tree_nonempty [OF Node.prems(1)] by (auto simp del: tmap.simps)
  then have "0 < card (dom (tmap (Node l r)))" by (intro card_gt_0_iff [THEN iffD2]) (auto simp: finite_tree simp del: tmap.simps)
  then have "1 \<le> L + R" using dom by linarith
  moreover have "card (node_set th (Node l r)) \<le> Suc (card (node_set th l) + card (node_set th r))"
    using card_insert_le_m1 card_Un_le [of "node_set th l" "node_set th r"] finite_tree
    by (simp add: card_insert_if)
  ultimately have "card (node_set th (Node l r)) \<le> (L + R) * (d + 1)"
    using IH by (simp add: algebra_simps)
  then show ?case using dom len by (simp add: d_def Suc_diff_le)
qed (auto simp: card_insert_if)

text \<open>
  C39. Storage is bounded by the live keys: however long the history of updates and deletions, the
  node store of the tree holds at most one leaf and one node per bit of the path for each key that
  has a value at the end; nodes of earlier versions are all deleted.
\<close>

theorem node_store_bound:
  assumes "wf_hash h" and "collision_free (newTreeHasher h) (hist_preimages (newTreeHasher h) ops Empty)"
  shows "\<exists>smt. Updates SimpleMap_store SimpleMap_store ops
      (NewSparseMerkleTree NewSimpleMap NewSimpleMap h []) = (Inr (), smt) \<and>
    card (dom (sm_m (smt_nodes smt))) \<le> card (dom (sm_m (smt_values smt))) * (depth smt + 1) \<and>
    card (dom (sm_m (smt_values smt))) = card (dom (final_map (newTreeHasher h) ops))"
proof -
  let ?th = "newTreeHasher h" and ?t = "tupdates (newTreeHasher h) ops Empty"
  obtain smt where smt: "Updates SimpleMap_store SimpleMap_store ops
      (NewSparseMerkleTree NewSimpleMap NewSimpleMap h []) = (Inr (), smt)"
    "represents sm_m sm_m smt ?t" "smt_th smt = ?th"
    using history_represents [OF assms] by blast
  note r = representsD [OF smt(2), unfolded smt(3)]
  have "dom (sm_m (smt_nodes smt)) \<subseteq> H ?th ` node_set ?th ?t" using r(4) by (auto simp: cas_def)
  then have "card (dom (sm_m (smt_nodes smt))) \<le> card (node_set ?th ?t)"
    using card_mono card_image_le finite_tree(1) by (meson finite_imageI le_trans)
  also have "\<dots> \<le> card (dom (tmap ?t)) * (8 * pathSize ?th + 1)" using node_set_card [OF r(2)] by simp
  finally have "card (dom (sm_m (smt_nodes smt))) \<le> card (dom (sm_m (smt_values smt))) * (depth smt + 1)"
    using r(5) smt(3) by (simp add: depth_def mult.commute)
  then show ?thesis using smt(1) r(5) tupdates_correct [of ?th Empty ops] assms(1) by auto
qed

theorem node_store_bound_witness:
  "\<exists>smt. Updates SimpleMap_store SimpleMap_store [([1], [10]), ([70], [20]), ([1], [])] toy_smt = (Inr (), smt) \<and>
    card (dom (sm_m (smt_nodes smt))) \<le> card (dom (sm_m (smt_values smt))) * (depth smt + 1)"
proof -
  have "collision_free toy_th (hist_preimages toy_th [([1], [10]), ([70], [20]), ([1], [])] Empty)" by code_simp
  then show ?thesis
    using node_store_bound [of toy "[([1], [10]), ([70], [20]), ([1], [])]"] by auto
qed

section \<open>A deletion that fails half-way\<close>

text \<open>The walk down uses only the Get method of the node store.\<close>

lemma nodes_Get_update: "nodes_Get (nI\<lparr>ms_Delete := d\<rparr>) = nodes_Get nI"
  by (simp add: nodes_Get_def fun_eq_iff)

lemma fill_loop_Delete:
  "fill_loop (nI\<lparr>ms_Delete := d\<rparr>) smt path is ps cd sn = fill_loop nI smt path is ps cd sn"
proof (induction "is" arbitrary: ps cd sn)
  case (Cons i "is")
  show ?case unfolding fill_loop.simps nodes_Get_update Cons.IH by (rule refl)
qed simp

lemma fillSideNodes_Delete:
  "fillSideNodes (nI\<lparr>ms_Delete := d\<rparr>) smt ps path root g = fillSideNodes nI smt ps path root g"
  unfolding fillSideNodes_def fill_loop_Delete nodes_Get_update by (rule refl)

definition broken_Delete :: "string \<Rightarrow> 's MapStore \<Rightarrow> 's MapStore" where
  "broken_Delete msg I = I\<lparr>ms_Delete := \<lambda>s k. (Inl (StoreError msg), s)\<rparr>"

text \<open>
  C40. When the node store refuses a deletion, Delete of a key that has a value returns that error and
  keeps the root and the nodes, but the value is deleted all the same: Get then says that the key
  has no value while the root still commits to it.
\<close>

theorem failed_Delete_drops_value:
  assumes "represents sm_m sm_m smt t" "tmap t (H (smt_th smt) key) = Some value"
    and "collision_free (smt_th smt) (preimages (smt_th smt) t)"
    and "Delete (broken_Delete msg SimpleMap_store) SimpleMap_store key smt = (r, smt')"
  shows "r = Inl (StoreError msg) \<and> Root smt' = Root smt \<and> smt_nodes smt' = smt_nodes smt \<and>
    Get SimpleMap_store smt key = Inr value \<and> Get SimpleMap_store smt' key = Inr defaultValue"
proof -
  let ?th = "smt_th smt" and ?k = "H (smt_th smt) key" and ?nI = "broken_Delete msg SimpleMap_store"
  let ?w = "\<lparr>sm_m = (tmap t)(?k := None)\<rparr>"
  note r = representsD [OF assms(1)]
  have k: "length ?k = pathSize ?th" using r(1) by simp
  have ps: "fst (getPathSlices [] 0) = newPathSlices" using getPathSlices_new path_pool.empty by blast
  have f: "focus (bits ?k) t = Leaf ?k value"
    using focus_tmap [OF r(2), of ?k "bits ?k"] assms(2) focus_not_Node [OF r(2) _ k, of "bits ?k"]
    by (cases "focus (bits ?k) t") (auto split: if_splits)
  have p0: "H ?th (leaf_data ?th ?k value) \<noteq> placeholder ?th"
    using collision_free_placeholder [OF assms(3)] focus_preimages [of ?th "bits ?k" t] f by auto
  have vdel: "values_Delete SimpleMap_store ?k smt = (Inr (), smt\<lparr>smt_values := ?w\<rparr>)"
    using r(5) assms(2) by (cases "smt_values smt") (simp add: values_Delete_def SimpleMap_store_def SimpleMap_Delete_def)
  have "UpdateForRoot ?nI SimpleMap_store key defaultValue (Root smt) smt =
      (Inl (StoreError msg), smt\<lparr>smt_values := ?w\<rparr>)"
    using smts.fill_represents [OF assms(1) refl TrueI assms(3) order_refl k, of False] f r(1) p0 k
      delete_unfold [of smt ?k] vdel
    by (simp add: UpdateForRoot_def UpdateForRoot_with_def ps Let_def Root_def fillSideNodes_Delete
        broken_Delete_def nodes_Delete_def)
  then have run: "r = Inl (StoreError msg)" "smt' = smt\<lparr>smt_values := ?w\<rparr>"
    using assms(4) by (simp_all add: Delete_def Update_def)
  have "Get SimpleMap_store smt' key = Inr defaultValue"
    using r(1) run(2) by (simp add: Get_def Root_def values_Get_def SimpleMap_store_def SimpleMap_Get_def Let_def)
  then show ?thesis
    using run smts.Get_ok [OF assms(1) refl TrueI assms(3), of key] assms(2) by (simp add: Root_def)
qed

theorem failed_Delete_drops_value_witness:
  "let (r, smt') = Delete (broken_Delete ''down'' SimpleMap_store) SimpleMap_store [1] toy_leaf_simple in
    r = Inl (StoreError ''down'') \<and> Root smt' = Root toy_leaf_simple \<and>
    Get SimpleMap_store toy_leaf_simple [1] = Inr [10] \<and> Get SimpleMap_store smt' [1] = Inr defaultValue"
proof -
  obtain r smt' where run: "Delete (broken_Delete ''down'' SimpleMap_store) SimpleMap_store [1] toy_leaf_simple = (r, smt')"
    by fastforce
  show ?thesis using failed_Delete_drops_value [OF toy_leaf(1), unfolded toy_leaf(2), OF toy_leaf(3,4) run] run by simp
qed

end
