(* ===== verification/Fuzz.thy ===== *)
theory Fuzz
  imports SMTHistory SHA256
begin

text \<open>
  Model of the fuzz harness, \<open>src/fuzz/fuzz.go\<close> and \<open>src/fuzz/delete/fuzz.go\<close>: both decode a byte
  string into calls on a tree over SimpleMaps with SHA-256. The harness ignores the errors of the
  calls; only a panic stops it. The hash is an argument of the \<open>_with\<close> versions, and the entry
  points apply them to \<open>sha256.New()\<close>. A \<open>bytes.Reader\<close> is the list of its unread bytes.
\<close>

section \<open>The hash and the readers\<close>

definition sha256_New :: hash_Hash where
  "sha256_New = \<lparr>hash_alg = Sum256, hash_Size = 32, hash_buf = []\<rparr>"

type_synonym reader = bytes

text \<open>\<open>readByte\<close> returns 0 at the end of the input, where \<open>ReadByte\<close> fails.\<close>

definition readByte :: "reader \<Rightarrow> byte \<times> reader" where
  "readByte r = (case r of [] \<Rightarrow> (0, []) | b # r' \<Rightarrow> (b, r'))"

text \<open>\<open>Read\<close> into a new slice of \<open>n\<close> bytes: what is missing stays zero.\<close>

definition reader_Read :: "nat \<Rightarrow> reader \<Rightarrow> bytes \<times> reader" where
  "reader_Read n r = (take n r @ replicate (n - length r) 0, drop n r)"

text \<open>A call whose error is dropped; a panic is not an error value and propagates.\<close>

definition drop_err :: "('s, 'a) op \<Rightarrow> ('s, unit) op" where
  "drop_err m s = (case m s of (Inl (Panic msg), s') \<Rightarrow> (Inl (Panic msg), s') | (_, s') \<Rightarrow> (Inr (), s'))"

section \<open>Fuzz\<close>

datatype fuzz_op = OpGet | OpUpdate | OpDelete | OpProve | OpHas | OpNoop

definition to_op :: "nat \<Rightarrow> fuzz_op" where
  "to_op n = (if n = 0 then OpGet else if n = 1 then OpUpdate else if n = 2 then OpDelete
     else if n = 3 then OpProve else if n = 4 then OpHas else OpNoop)"

text \<open>
  The closure \<open>key\<close>: a new key of up to 127 bytes, remembered in \<open>keys\<close>, or one of the remembered
  keys, or nil when there is none. \<open>math.MaxUint8 / 2\<close> is 127.
\<close>

definition fuzz_key :: "reader \<Rightarrow> bytes list \<Rightarrow> bytes \<times> reader \<times> bytes list" where
  "fuzz_key r keys =
     (let (b, r) = readByte r in
      if b < 255 div 2 then
        let (n, r) = readByte r;
            (k, r) = reader_Read (unat (n div 2)) r
        in (k, r, keys @ [k])
      else if length keys = 0 then ([], r, keys)
      else let (j, r) = readByte r in (keys ! (unat j mod length keys), r, keys))"

definition fuzz_value :: "nat \<Rightarrow> bytes" where
  "fuzz_value i = be_bytes 8 (int i) @ replicate 24 0"

type_synonym simple_smt = "(SimpleMap, SimpleMap) SparseMerkleTree"

fun fuzz_switch :: "fuzz_op \<Rightarrow> bytes \<Rightarrow> bytes \<Rightarrow> (simple_smt, unit) op" where
  "fuzz_switch OpGet key value = drop_err (readS (\<lambda>tree. Get SimpleMap_store tree key))"
| "fuzz_switch OpUpdate key value = drop_err (Update SimpleMap_store SimpleMap_store key value)"
| "fuzz_switch OpDelete key value = drop_err (Delete SimpleMap_store SimpleMap_store key)"
| "fuzz_switch OpProve key value = drop_err (readS (\<lambda>tree. Prove SimpleMap_store tree key))"
| "fuzz_switch OpHas key value = drop_err (readS (\<lambda>tree. Has SimpleMap_store tree key))"
| "fuzz_switch OpNoop key value = returnS ()"

text \<open>
  The loop \<open>for i := 0; r.Len() != 0; i++\<close>. Its end is not obvious from its shape, so it is a
  partial function; that it returns is a theorem. The operation byte is there because the length is
  not zero, and the operation is below \<open>Noop\<close>, so every case of the switch reads a key.
\<close>

partial_function (option) fuzz_loop ::
    "reader \<Rightarrow> bytes list \<Rightarrow> nat \<Rightarrow> simple_smt \<Rightarrow> (unit result \<times> simple_smt) option" where
  "fuzz_loop r keys i tree =
     (case r of
        [] \<Rightarrow> Some (Inr (), tree)
      | b # r1 \<Rightarrow>
          (case fuzz_key r1 keys of (key, r2, keys') \<Rightarrow>
            (case fuzz_switch (to_op (unat b mod 5)) key (fuzz_value i) tree of
               (Inl e, tree') \<Rightarrow> Some (Inl e, tree')
             | (Inr _, tree') \<Rightarrow> fuzz_loop r2 keys' (i + 1) tree')))"

declare fuzz_loop.simps [code]

definition Fuzz_with :: "hash_Hash \<Rightarrow> bytes \<Rightarrow> int result option" where
  "Fuzz_with h input =
     (if length input < 100 then Some (Inr 0)
      else
        let tree = NewSparseMerkleTree NewSimpleMap NewSimpleMap h [] in
        (case fuzz_loop input [] 0 tree of
           None \<Rightarrow> None
         | Some (Inl e, _) \<Rightarrow> Some (Inl e)
         | Some (Inr _, _) \<Rightarrow> Some (Inr 1)))"

definition Fuzz :: "bytes \<Rightarrow> int result option" where
  "Fuzz input = Fuzz_with sha256_New input"

section \<open>The delete fuzzer\<close>

text \<open>\<open>bytes.Split(data, []byte("*"))\<close>; the byte of the star is 42.\<close>

fun split_star :: "bytes \<Rightarrow> bytes list" where
  "split_star [] = [[]]"
| "split_star (b # bs) =
     (if b = 42 then [] # split_star bs
      else case split_star bs of [] \<Rightarrow> [[b]] | x # xs \<Rightarrow> (b # x) # xs)"

text \<open>The loop over \<open>i = 0, 2, \<dots> < len(splits) - 1\<close>, on the part of the slice from \<open>i\<close> on.\<close>

fun delete_fuzz_loop :: "bytes list \<Rightarrow> (simple_smt, unit) op" where
  "delete_fuzz_loop (key # value # splits) =
     bindS (drop_err (Update SimpleMap_store SimpleMap_store key value)) (\<lambda>_. delete_fuzz_loop splits)"
| "delete_fuzz_loop splits = returnS ()"

definition delete_Fuzz_with :: "hash_Hash \<Rightarrow> bytes \<Rightarrow> int result" where
  "delete_Fuzz_with h data =
     (if length data = 0 then Inr (-1)
      else
        let splits = split_star data in
        if length splits < 3 then Inr (-1)
        else
          let tree = NewSparseMerkleTree NewSimpleMap NewSimpleMap h [] in
          case delete_fuzz_loop splits tree of
            (Inl e, _) \<Rightarrow> Inl e
          | (Inr _, tree) \<Rightarrow>
              let deleteKey = splits ! (length splits - 1) in
              (case fst (Delete SimpleMap_store SimpleMap_store deleteKey tree) of
                 Inl (Panic msg) \<Rightarrow> Inl (Panic msg)
               | Inl err \<Rightarrow> Inr 0
               | Inr newRoot \<Rightarrow>
                   if length newRoot = 0 then Inl (Panic ''newRoot is nil yet err==nil'') else Inr 1))"

definition delete_Fuzz :: "bytes \<Rightarrow> int result" where
  "delete_Fuzz data = delete_Fuzz_with sha256_New data"

end
