(* ===== verification/FuzzProps.thy ===== *)
theory FuzzProps
  imports Fuzz ToyHash
begin

text \<open>
  Properties of the fuzz harness of \<open>src/fuzz\<close>: the loop of \<open>Fuzz\<close> ends on every input, and neither
  fuzzer ever sees a panic, so a crash they report is one the tree's theorems exclude under their
  hypothesis on the hash.
\<close>

section \<open>The calls an input encodes\<close>

lemma fuzz_key_shorter: "fuzz_key r keys = (key, r', keys') \<Longrightarrow> length r' \<le> length r"
  by (auto simp: fuzz_key_def readByte_def reader_Read_def Let_def split: list.splits if_splits)

text \<open>The updates and deletions, as a history, with the empty value for a deletion.\<close>

definition op_writes :: "fuzz_op \<Rightarrow> bytes \<Rightarrow> bytes \<Rightarrow> history" where
  "op_writes oper key value =
     (case oper of OpUpdate \<Rightarrow> [(key, value)] | OpDelete \<Rightarrow> [(key, defaultValue)] | _ \<Rightarrow> [])"

function fuzz_writes :: "reader \<Rightarrow> bytes list \<Rightarrow> nat \<Rightarrow> history" where
  "fuzz_writes [] keys i = []"
| "fuzz_writes (b # r) keys i =
     (case fuzz_key r keys of (key, r', keys') \<Rightarrow>
        op_writes (to_op (unat b mod 5)) key (fuzz_value i) @ fuzz_writes r' keys' (i + 1))"
  by pat_completeness auto
termination
  by (relation "measure (\<lambda>(r, keys, i). length r)") (auto dest: fuzz_key_shorter [OF sym])

section \<open>The loop ends\<close>

lemma fuzz_switch_panics: "fuzz_switch oper key value tree = (Inl e, tree') \<Longrightarrow> is_panic e"
  by (cases oper) (auto simp: drop_err_def returnS_def split: prod.splits sum.splits go_error.splits)

lemma fuzz_loop_returns:
  "\<exists>res tree'. fuzz_loop r keys i tree = Some (res, tree') \<and> (case res of Inl e \<Rightarrow> is_panic e | Inr _ \<Rightarrow> True)"
proof (induction r keys i arbitrary: tree rule: fuzz_writes.induct)
  case (1 keys i)
  then show ?case by (subst fuzz_loop.simps) simp
next
  case (2 b r keys i)
  obtain key r' keys' where k: "fuzz_key r keys = (key, r', keys')" by (cases "fuzz_key r keys")
  obtain res tree' where s: "fuzz_switch (to_op (unat b mod 5)) key (fuzz_value i) tree = (res, tree')"
    by fastforce
  show ?case
    using "2.IH" [OF k [symmetric] refl, of tree'] s k fuzz_switch_panics [of _ key _ tree]
    by (subst fuzz_loop.simps) (auto split: sum.split)
qed

text \<open>
  C36. Fuzz returns on every input: every round of its loop consumes at least one byte. It returns 0
  for an input shorter than 100 bytes, otherwise 1, unless a call on the tree panicked.
\<close>

theorem Fuzz_returns:
  "\<exists>res. Fuzz input = Some res \<and>
    (case res of Inl e \<Rightarrow> is_panic e | Inr n \<Rightarrow> n = (if length input < 100 then 0 else 1))"
proof -
  obtain res tree' where "fuzz_loop input [] 0 (NewSparseMerkleTree NewSimpleMap NewSimpleMap sha256_New []) =
      Some (res, tree')" "case res of Inl e \<Rightarrow> is_panic e | Inr _ \<Rightarrow> True"
    using fuzz_loop_returns by blast
  then show ?thesis by (cases res) (simp_all add: Fuzz_def Fuzz_with_def Let_def)
qed

section \<open>No panic\<close>

lemma drop_err_ok: "m s = (Inr x, s') \<Longrightarrow> drop_err m s = (Inr (), s')"
  by (simp add: drop_err_def)

lemma fuzz_write_ok:
  assumes "represents sm_m sm_m tree t" "t' = tupdate (H (smt_th tree) key) value t"
    and "collision_free (smt_th tree) (preimages (smt_th tree) t \<union> preimages (smt_th tree) t')"
  shows "\<exists>tree'. drop_err (Update SimpleMap_store SimpleMap_store key value) tree = (Inr (), tree') \<and>
    represents sm_m sm_m tree' t' \<and> smt_th tree' = smt_th tree"
  using smts.Update_ok [OF assms(1) refl TrueI TrueI TrueI assms(2,3)] drop_err_ok by fastforce

lemma fuzz_switch_ok:
  assumes rep: "represents sm_m sm_m tree t"
    and cf: "collision_free (smt_th tree) (hist_preimages (smt_th tree) (op_writes oper key value) t)"
  shows "\<exists>tree'. fuzz_switch oper key value tree = (Inr (), tree') \<and>
    represents sm_m sm_m tree' (tupdates (smt_th tree) (op_writes oper key value) t) \<and> smt_th tree' = smt_th tree"
proof -
  have cf0: "collision_free (smt_th tree) (preimages (smt_th tree) t)"
    using collision_free_subset [OF cf hist_preimages_start] .
  note reads = smts.Get_ok [OF rep refl TrueI cf0, of key] smts.Has_ok [OF rep refl TrueI cf0, of key]
    smts.Prove_ok [OF rep refl TrueI cf0, of key False]
  show ?thesis
    using reads fuzz_write_ok [OF rep refl, of key "value"] fuzz_write_ok [OF rep refl, of key defaultValue] cf rep
    by (cases oper)
      (auto simp: op_writes_def drop_err_def readS_def returnS_def Prove_def ProveForRoot_def Delete_def)
qed

lemma fuzz_loop_ok:
  assumes "represents sm_m sm_m tree t"
    and "collision_free (smt_th tree) (hist_preimages (smt_th tree) (fuzz_writes r keys i) t)"
  shows "\<exists>tree'. fuzz_loop r keys i tree = Some (Inr (), tree') \<and>
    represents sm_m sm_m tree' (tupdates (smt_th tree) (fuzz_writes r keys i) t)"
  using assms
proof (induction r keys i arbitrary: tree t rule: fuzz_writes.induct)
  case (1 keys i)
  then show ?case by (subst fuzz_loop.simps) simp
next
  case (2 b r keys i)
  obtain key r' keys' where k: "fuzz_key r keys = (key, r', keys')" by (cases "fuzz_key r keys")
  let ?w = "op_writes (to_op (unat b mod 5)) key (fuzz_value i)"
  have tu: "tupdates th (xs @ ys) u = tupdates th ys (tupdates th xs u)" for th xs ys u
    by (induction th xs u rule: tupdates.induct) auto
  have w: "fuzz_writes (b # r) keys i = ?w @ fuzz_writes r' keys' (i + 1)" using k by simp
  have cf: "collision_free (smt_th tree) (hist_preimages (smt_th tree) ?w t)"
    "collision_free (smt_th tree) (hist_preimages (smt_th tree) (fuzz_writes r' keys' (i + 1))
       (tupdates (smt_th tree) ?w t))"
    using "2.prems"(2) unfolding w hist_preimages_append by (auto intro: collision_free_subset)
  obtain tree1 where t1: "fuzz_switch (to_op (unat b mod 5)) key (fuzz_value i) tree = (Inr (), tree1)"
    "represents sm_m sm_m tree1 (tupdates (smt_th tree) ?w t)" "smt_th tree1 = smt_th tree"
    using fuzz_switch_ok [OF "2.prems"(1) cf(1)] by blast
  show ?case
    using "2.IH" [OF k [symmetric] refl t1(2)] cf(2) t1 k
    by (subst fuzz_loop.simps) (simp add: tu)
qed

text \<open>
  C37. Fuzz never panics: with any hash that has no collision on what the calls encoded in the input
  hash, it returns 1 for every input of at least 100 bytes.
\<close>

theorem Fuzz_never_panics:
  assumes "wf_hash h"
    and "collision_free (newTreeHasher h) (hist_preimages (newTreeHasher h) (fuzz_writes input [] 0) Empty)"
  shows "Fuzz_with h input = Some (Inr (if length input < 100 then 0 else 1))"
proof -
  let ?new = "NewSparseMerkleTree NewSimpleMap NewSimpleMap h []"
  have new: "represents sm_m sm_m ?new Empty" "smt_th ?new = newTreeHasher h"
    using New_represents [of h sm_m NewSimpleMap sm_m NewSimpleMap] assms(1) by (simp_all add: NewSimpleMap_def)
  then obtain tree' where "fuzz_loop input [] 0 ?new = Some (Inr (), tree')"
    using fuzz_loop_ok [OF new(1), of input "[]" 0] assms(2) by auto
  then show ?thesis by (simp add: Fuzz_with_def Let_def)
qed

text \<open>An input of 100 bytes: an update of a new key, an update of another, a deletion, 29 reads.\<close>

definition fuzz_input :: bytes where
  "fuzz_input = [1, 0, 2, 9, 1, 0, 2, 70, 2, 200, 0] @ replicate 89 0"

theorem Fuzz_never_panics_witness:
  "Fuzz_with toy fuzz_input = Some (Inr 1)"
proof -
  have "collision_free toy_th (hist_preimages toy_th (fuzz_writes fuzz_input [] 0) Empty)" by code_simp
  then show ?thesis using Fuzz_never_panics [of toy fuzz_input] by (simp add: fuzz_input_def)
qed

section \<open>The delete fuzzer\<close>

text \<open>Splitting loses nothing: the parts hold no star, and joining them with stars gives the data.\<close>

fun join_star :: "bytes list \<Rightarrow> bytes" where
  "join_star [] = []"
| "join_star [x] = x"
| "join_star (x # xs) = x @ 42 # join_star xs"

lemma split_star_nonempty: "split_star d \<noteq> []"
  by (induction d) (auto split: list.split)

lemma split_star_join: "join_star (split_star d) = d \<and> (\<forall>x \<in> set (split_star d). 42 \<notin> set x)"
proof (induction d)
  case (Cons b bs)
  obtain x xs where "split_star bs = x # xs" using split_star_nonempty by (cases "split_star bs") auto
  then show ?case using Cons.IH by (cases xs) auto
qed simp

lemma split_star_length: "length (split_star d) = Suc (length (filter (\<lambda>b. b = 42) d))"
  by (induction d) (auto simp: split_star_nonempty split: list.split)

fun split_pairs :: "bytes list \<Rightarrow> history" where
  "split_pairs (key # value # splits) = (key, value) # split_pairs splits"
| "split_pairs _ = []"

lemma delete_fuzz_loop_ok:
  assumes "represents sm_m sm_m tree t"
    and "collision_free (smt_th tree) (hist_preimages (smt_th tree) (split_pairs splits) t)"
  shows "\<exists>tree'. delete_fuzz_loop splits tree = (Inr (), tree') \<and>
    represents sm_m sm_m tree' (tupdates (smt_th tree) (split_pairs splits) t) \<and> smt_th tree' = smt_th tree"
  using assms
proof (induction splits arbitrary: tree t rule: split_pairs.induct)
  case (1 key "value" splits)
  let ?t = "tupdate (H (smt_th tree) key) value t"
  have "preimages (smt_th tree) t \<union> preimages (smt_th tree) ?t \<subseteq>
      hist_preimages (smt_th tree) (split_pairs (key # value # splits)) t"
    using hist_preimages_start by auto
  then obtain tree1 where t1: "drop_err (Update SimpleMap_store SimpleMap_store key value) tree = (Inr (), tree1)"
    "represents sm_m sm_m tree1 ?t" "smt_th tree1 = smt_th tree"
    using fuzz_write_ok [OF "1.prems"(1) refl] collision_free_subset [OF "1.prems"(2)] by blast
  have "collision_free (smt_th tree1) (hist_preimages (smt_th tree1) (split_pairs splits) ?t)"
    using collision_free_subset [OF "1.prems"(2)] t1(3) by auto
  then show ?case using "1.IH" [OF t1(2)] t1 by auto
qed auto

text \<open>
  C38. The delete fuzzer never panics: with any hash that has no collision on what it hashes, it
  returns -1 for data with fewer than two stars and 1 for all other data. In particular the root
  returned by Delete is never empty when Delete reports no error, and Delete reports none.
\<close>

theorem delete_Fuzz_never_panics:
  assumes "wf_hash h" and "splits = split_star data"
    and "collision_free (newTreeHasher h)
      (hist_preimages (newTreeHasher h) (split_pairs splits @ [(last splits, defaultValue)]) Empty)"
  shows "delete_Fuzz_with h data = Inr (if length splits < 3 then -1 else 1)"
proof (cases "length splits < 3")
  case True
  then show ?thesis using assms(2) by (simp add: delete_Fuzz_with_def Let_def)
next
  case False
  let ?new = "NewSparseMerkleTree NewSimpleMap NewSimpleMap h []" and ?th = "newTreeHasher h"
  let ?t = "tupdates ?th (split_pairs splits) Empty" and ?k = "last splits"
  have new: "represents sm_m sm_m ?new Empty" "smt_th ?new = ?th"
    using New_represents [of h sm_m NewSimpleMap sm_m NewSimpleMap] assms(1) by (simp_all add: NewSimpleMap_def)
  note cf = assms(3) [unfolded hist_preimages_append]
  have cf1: "collision_free ?th (hist_preimages ?th (split_pairs splits) Empty)"
    and cf2: "collision_free ?th (hist_preimages ?th [(?k, defaultValue)] ?t)"
    using collision_free_subset [OF cf] by auto
  obtain tree where t: "delete_fuzz_loop splits ?new = (Inr (), tree)" "represents sm_m sm_m tree ?t"
    "smt_th tree = ?th"
    using delete_fuzz_loop_ok [OF new(1), of splits] cf1 new(2) by auto
  obtain tree' where t': "Update SimpleMap_store SimpleMap_store ?k defaultValue tree = (Inr (smt_root tree'), tree')"
    "represents sm_m sm_m tree' (tupdate (H ?th ?k) defaultValue ?t)" "smt_th tree' = ?th"
    using smts.Update_ok [OF t(2) refl TrueI TrueI TrueI refl, of "hist_preimages ?th [(?k, defaultValue)] ?t"
        ?k defaultValue] cf2 t(3) by auto
  have "length (smt_root tree') = pathSize ?th" "0 < pathSize ?th"
    using representsD(1,3) [OF t'(2)] pathSize_pos [of ?th] t'(3) by simp_all
  then have "smt_root tree' \<noteq> []" by auto
  moreover have "data \<noteq> []" using False assms(2) by auto
  moreover have "splits ! (length splits - 1) = ?k" using False by (intro last_conv_nth [symmetric]) auto
  ultimately show ?thesis
    using False t(1) t'(1) assms(2) by (simp add: delete_Fuzz_with_def Delete_def Let_def)
qed

theorem delete_Fuzz_never_panics_witness:
  "delete_Fuzz_with toy [1, 42, 10, 42, 70, 42, 20, 42, 1] = Inr 1"
proof -
  have s: "split_star [1, 42, 10, 42, 70, 42, 20, 42, 1] = [[1], [10], [70], [20], [1]]" by code_simp
  have "collision_free toy_th (hist_preimages toy_th
      (split_pairs [[1], [10], [70], [20], [1]] @ [(last [[1], [10], [70], [20], [1]], defaultValue)]) Empty)"
    by code_simp
  then show ?thesis using delete_Fuzz_never_panics [OF wf_toy refl, of "[1, 42, 10, 42, 70, 42, 20, 42, 1]"]
    unfolding s by simp
qed

end
