(* ===== verification/Spec2Isabelle.thy ===== *)
theory Spec2Isabelle
  imports SMTProps ProofsProps BulkProps DeepProps ShardedProps StoreProps FuzzProps
begin

text \<open>
  Verification of the Go package \<open>smt\<close> (sources under \<open>src/\<close>): a sparse Merkle tree with pluggable
  key-value stores, Merkle proofs, deep subtrees for light clients, bulk updates, a sharded tree and
  two fuzzers.

  \<^bold>\<open>The program and how its parts interact.\<close> A tree (\<open>smt.go\<close>) keeps a root hash and two MapStores:
  nodes, from hash to preimage, and values, from path to value. The path of a key is its digest. An
  update walks down from the root (\<open>fillSideNodes\<close>), deletes the nodes of the old path and climbs back,
  hashing with the tree hasher (\<open>treehasher.go\<close>) into pooled buffers (\<open>pool.go\<close>). The bit operations on
  paths are in \<open>utils.go\<close>. MapStores are SimpleMap, FixedSizeMap and the slab-allocating arena
  (\<open>mapstore*.go\<close>). Proofs (\<open>proofs.go\<close>) are made from the same walk, verified without the tree,
  compacted and decompacted. A deep subtree (\<open>deepsubtree.go\<close>) is a tree whose stores are filled with
  the branches of verified proofs. \<open>bulk.go\<close> applies a batch by one recursion over the stored tree.
  \<open>sharded.go\<close> routes keys to independent trees, fans batches out to goroutines and combines the roots.
  The fuzzers (\<open>fuzz/\<close>) decode bytes into calls on a tree.

  \<^bold>\<open>Theories and sources.\<close>

  \<^item> Prelude: Go byte slices, errors and panics as one datatype, the result type and the state
    transformers whose state survives an error, slice expressions.
  \<^item> Utils (\<open>utils.go\<close>), TreeHasher (\<open>treehasher.go\<close>), MapStore, MapStoreFixed, MapStoreArena
    (\<open>mapstore.go\<close>, \<open>mapstore_fixed.go\<close>, \<open>mapstore_arena.go\<close>), Pool (\<open>pool.go\<close>), Proofs (\<open>proofs.go\<close>),
    SMTModel (\<open>smt.go\<close>, \<open>options.go\<close>), Bulk (\<open>bulk.go\<close>), DeepSubTree (\<open>deepsubtree.go\<close>), Sharded
    (\<open>sharded.go\<close>), Fuzz (\<open>fuzz/fuzz.go\<close>, \<open>fuzz/delete/fuzz.go\<close>): the models, one definition per
    function, type or loop of the source, with its name. SHA256 is the digest of the standard library
    that routing and the fuzzers use, after FIPS 180-4.
  \<^item> Buffers: the update and delete walks of \<open>smt.go\<close> once more, with path and hashes as slices into
    the arrays of a pooled \<open>updateScratch\<close> and the contents of the arrays as state; BuffersCorrect
    shows that they refine the walks of SMTModel on byte strings.
  \<^item> MerkleTree, MerkleHash: the abstract specification. A canonical tree is a datatype with empty
    subtrees, leaves and nodes; it is determined by the map it holds, and an update of the map is
    \<open>tupdate\<close> of the tree. MerkleHash gives the hash, the stored data and the preimages of a tree.
  \<^item> SMTWalk, SMTCorrect: \<open>represents\<close> relates a tree state to a canonical tree (root, exactly its
    nodes in the node store, exactly its map in the value store), \<open>partial_rep\<close> allows missing nodes.
    The lemmas show that every walk and climb keeps the relation, in the locale \<open>smt_stores\<close>.
    SMTHistory lifts this to histories of updates.
  \<^item> ProofsCorrect, BulkLists, BulkCorrect, DeepCorrect, DeepSim, ShardedCorrect: the lemmas of the
    other components over the same relation.
  \<^item> SMTProps, ProofsProps, BulkProps, DeepProps, ShardedProps, StoreProps, FuzzProps: the
    properties, each with a run on concrete inputs where it has hypotheses. ToyHash has the one-byte
    hash these runs use.

  \<^bold>\<open>Interfaces.\<close> The locale \<open>map_store\<close> is the contract of a MapStore: what Get returns after Set and
  Delete, which keys and values the store takes, and a budget of Set calls (\<open>room\<close>), since an arena can
  number only \<open>2 ^ 32\<close> slabs. It is interpreted on SimpleMap, FixedSizeMap and the arena. The locale
  \<open>smt_stores\<close> puts two such stores under a tree; its lemmas hold for every pair of stores that keep
  the contract, and it is interpreted on the three stores (\<open>smts\<close>, \<open>smtf\<close>, \<open>smta\<close>).

  \<^bold>\<open>What is shown.\<close>

  \<^item> The tree (C1--C6): Update refines the canonical tree; reads after any history; history
    independence of the whole state; equal roots mean equal reads and equal states, for the trees
    that any two histories lead to; deletion undoes insertion; an error keeps the root.
  \<^item> Proofs (C7--C12): soundness and completeness, compact proofs, round trip of compaction, totality
    of the verifier, and the panic of the compact verifier on a malformed proof.
  \<^item> Bulk (C13--C17): equivalence with iterated updates, the order of deletions and writes in a batch,
    the binary search of a partition, sorting and de-duplication.
  \<^item> Deep subtrees (C18--C21): safety with adversarial proofs in every reachable state, progress with
    honest ones, agreement with the full tree, refusal of bad proofs.
  \<^item> Shards (C22--C29): equivalence on every schedule with iterated updates, deletions first, and the
    batches for which the iteration in their own order agrees; errors, construction, routing,
    absence of write conflicts, invariants, and binding of the combined root.
  \<^item> Stores, pools, sizes (C30--C35, C39): the arena under any sequence of calls, interchangeability
    of the stores, types of stored data, transparency of pooled memory, the size of the node store;
    the panic of an arena on an empty value and the root returned by a no-op UpdateForRoot.
  \<^item> Fuzzers (C36--C38): termination, and absence of panics.
  \<^item> A deletion that fails half-way (C40).

  \<^bold>\<open>Hypotheses.\<close> Merkle trees are correct only for hashes without collisions, and no hash with
  fixed-size digests is injective. The theorems therefore assume \<open>collision_free\<close> on the finite set of
  byte strings that the run in question hashes (\<open>preimages\<close>, \<open>hist_preimages\<close>): the digests of these
  strings differ from each other and from the all-zero placeholder. \<open>wf_hash\<close> says that a hasher has
  digests of its size, that the size is not zero, and that its buffer is empty.

  \<^bold>\<open>Bounds, fuel and schedules.\<close> No definition uses fuel. Loops over levels run over the list of level
  numbers as in the source; the recursions of Bulk, the binary search, the swap loop and the
  de-duplication have termination proofs; the loop of Fuzz is a partial function and C36 shows that it
  returns. One update makes at most \<open>8 * n + 2\<close> Set calls on the nodes for digests of n bytes, which
  is the budget the stores are asked for. Machine integers are words where their width matters: bytes,
  the 32-bit entries of the arena, the shard index, the words of SHA-256. GOMAXPROCS, the choice of a
  pooled object and the interleaving of goroutines are arguments of the definitions, and the theorems
  hold for all of them.

  \<^bold>\<open>Not modelled.\<close> The texts of errors (\<open>InvalidKeyError.Error\<close> and the \<open>errors.New\<close> strings): error values
  are constructors. Retention of the caller's value slice by a store: a store is given a copy. Tests,
  benchmarks and the build files. Memory consumption other than the bytes an arena reports and the
  number of stored nodes.
\<close>

end
